(* ===== verification/MakaOS_Prelude.thy ===== *)
theory MakaOS_Prelude
  imports Main "HOL-Library.Word"
begin

text \<open>
  Shared vocabulary of the MakaOS development: the machine integer types of
  \<^verbatim>\<open>kernel/include/common.h\<close>, the errno values of \<^verbatim>\<open>kernel/include/errno.h\<close>,
  results as sums (\<open>Inl\<close> an errno, \<open>Inr\<close> the value), C strings, and the generic
  lemmas on lists, options and words that the component theories use.
\<close>

unbundle bit_operations_syntax

section \<open>Types\<close>

type_synonym u8 = "8 word"
type_synonym u16 = "16 word"
type_synonym u32 = "32 word"
type_synonym u64 = "64 word"

text \<open>
  \<^verbatim>\<open>errno.h\<close>: an errno is a positive number; a call that fails with \<open>-E\<close> in the source
  returns \<open>Inl E\<close> here, and \<open>Inr v\<close> where the source returns \<open>v\<close>.
\<close>

type_synonym errno = nat
type_synonym 'a result = "errno + 'a"

abbreviation (input) EPERM :: errno where "EPERM \<equiv> 1"
abbreviation (input) ENOENT :: errno where "ENOENT \<equiv> 2"
abbreviation (input) ESRCH :: errno where "ESRCH \<equiv> 3"
abbreviation (input) EINTR :: errno where "EINTR \<equiv> 4"
abbreviation (input) EIO :: errno where "EIO \<equiv> 5"
abbreviation (input) ENOEXEC :: errno where "ENOEXEC \<equiv> 8"
abbreviation (input) ENODEV :: errno where "ENODEV \<equiv> 19"
abbreviation (input) EBADF :: errno where "EBADF \<equiv> 9"
abbreviation (input) ECHILD :: errno where "ECHILD \<equiv> 10"
abbreviation (input) EAGAIN :: errno where "EAGAIN \<equiv> 11"
abbreviation (input) ENOMEM :: errno where "ENOMEM \<equiv> 12"
abbreviation (input) EACCES :: errno where "EACCES \<equiv> 13"
abbreviation (input) EFAULT :: errno where "EFAULT \<equiv> 14"
abbreviation (input) EBUSY :: errno where "EBUSY \<equiv> 16"
abbreviation (input) EEXIST :: errno where "EEXIST \<equiv> 17"
abbreviation (input) ENOTDIR :: errno where "ENOTDIR \<equiv> 20"
abbreviation (input) EISDIR :: errno where "EISDIR \<equiv> 21"
abbreviation (input) EINVAL :: errno where "EINVAL \<equiv> 22"
abbreviation (input) ENFILE :: errno where "ENFILE \<equiv> 23"
abbreviation (input) EMFILE :: errno where "EMFILE \<equiv> 24"
abbreviation (input) ENOTTY :: errno where "ENOTTY \<equiv> 25"
abbreviation (input) EFBIG :: errno where "EFBIG \<equiv> 27"
abbreviation (input) ENOSPC :: errno where "ENOSPC \<equiv> 28"
abbreviation (input) ESPIPE :: errno where "ESPIPE \<equiv> 29"
abbreviation (input) EPIPE :: errno where "EPIPE \<equiv> 32"
abbreviation (input) ERANGE :: errno where "ERANGE \<equiv> 34"
abbreviation (input) EDEADLK :: errno where "EDEADLK \<equiv> 35"
abbreviation (input) ENAMETOOLONG :: errno where "ENAMETOOLONG \<equiv> 36"
abbreviation (input) ENOSYS :: errno where "ENOSYS \<equiv> 38"
abbreviation (input) ENOTEMPTY :: errno where "ENOTEMPTY \<equiv> 39"
abbreviation (input) ELOOP :: errno where "ELOOP \<equiv> 40"
abbreviation (input) ENOMSG :: errno where "ENOMSG \<equiv> 42"
abbreviation (input) ENOTSOCK :: errno where "ENOTSOCK \<equiv> 88"
abbreviation (input) EDESTADDRREQ :: errno where "EDESTADDRREQ \<equiv> 89"
abbreviation (input) ENOPROTOOPT :: errno where "ENOPROTOOPT \<equiv> 92"
abbreviation (input) EOPNOTSUPP :: errno where "EOPNOTSUPP \<equiv> 95"
abbreviation (input) EAFNOSUPPORT :: errno where "EAFNOSUPPORT \<equiv> 97"
abbreviation (input) EADDRINUSE :: errno where "EADDRINUSE \<equiv> 98"
abbreviation (input) ECONNABORTED :: errno where "ECONNABORTED \<equiv> 103"
abbreviation (input) ECONNRESET :: errno where "ECONNRESET \<equiv> 104"
abbreviation (input) ENOBUFS :: errno where "ENOBUFS \<equiv> 105"
abbreviation (input) EISCONN :: errno where "EISCONN \<equiv> 106"
abbreviation (input) ENOTCONN :: errno where "ENOTCONN \<equiv> 107"
abbreviation (input) ETIMEDOUT :: errno where "ETIMEDOUT \<equiv> 110"
abbreviation (input) ECONNREFUSED :: errno where "ECONNREFUSED \<equiv> 111"
abbreviation (input) ENETDOWN :: errno where "ENETDOWN \<equiv> 100"
abbreviation (input) ENETUNREACH :: errno where "ENETUNREACH \<equiv> 101"
abbreviation (input) EHOSTUNREACH :: errno where "EHOSTUNREACH \<equiv> 113"
abbreviation (input) EINPROGRESS :: errno where "EINPROGRESS \<equiv> 115"
abbreviation (input) EALREADY :: errno where "EALREADY \<equiv> 114"
abbreviation (input) ECANCELED :: errno where "ECANCELED \<equiv> 125"

section \<open>C strings\<close>

text \<open>
  A NUL-terminated C string is the list of its characters before the terminator.
  \<open>c_at s i\<close> is the byte at index \<open>i\<close> as \<open>unsigned char\<close>; index \<open>length s\<close> reads
  the terminator.
\<close>

definition c_at :: "string \<Rightarrow> nat \<Rightarrow> int" where
  "c_at s i = (if i < length s then of_char (s ! i) else 0)"

text \<open>The comparison \<open>s[i] == ch\<close> with a character other than NUL.\<close>

definition c_is :: "string \<Rightarrow> nat \<Rightarrow> char \<Rightarrow> bool" where
  "c_is s i ch \<longleftrightarrow> i < length s \<and> s ! i = ch"

definition c_string :: "string \<Rightarrow> bool" where
  "c_string s \<longleftrightarrow> (\<forall>c \<in> set s. of_char c \<noteq> (0::int))"

lemma c_at_zero_iff: "c_string s \<Longrightarrow> c_at s i = 0 \<longleftrightarrow> length s \<le> i"
  by (auto simp: c_at_def c_string_def)

lemma of_char_int_inject [simp]: "(of_char a :: int) = of_char b \<longleftrightarrow> a = b"
proof
  assume "(of_char a :: int) = of_char b"
  then have "(of_char a :: nat) = of_char b"
    by (metis of_nat_eq_iff of_nat_of_char)
  then show "a = b"
    by simp
qed simp

section \<open>Word masks\<close>

named_theorems mask_simps \<open>bit masks as sets of bits\<close>

text \<open>\<open>a AND b = b\<close> says that every bit of \<open>b\<close> is set in \<open>a\<close>.\<close>

definition mask_sub :: "'a::len word \<Rightarrow> 'a word \<Rightarrow> bool" where
  "mask_sub a b \<longleftrightarrow> a AND b = a"

lemma mask_sub_bits: "mask_sub a b \<longleftrightarrow> (\<forall>n. bit a n \<longrightarrow> bit b n)"
  unfolding mask_sub_def by (metis (mono_tags, lifting) bit_and_iff bit_eqI)

lemma mask_sub_refl [simp, intro]: "mask_sub a a"
  by (simp add: mask_sub_bits)

lemma mask_sub_trans [trans]: "mask_sub a b \<Longrightarrow> mask_sub b c \<Longrightarrow> mask_sub a c"
  by (simp add: mask_sub_bits)

lemma mask_sub_and [simp, intro]: "mask_sub (a AND b) a" "mask_sub (a AND b) b"
  by (simp_all add: mask_sub_bits bit_and_iff)

lemma mask_sub_antisym: "mask_sub a b \<Longrightarrow> mask_sub b a \<Longrightarrow> a = b"
  by (metis and.commute mask_sub_def)

lemma mask_sub_or: "mask_sub a (a OR b)" "mask_sub b (a OR b)"
  by (simp_all add: mask_sub_bits bit_or_iff)

lemma and_eq_mask_sub [mask_simps]: "a AND b = b \<longleftrightarrow> mask_sub b a"
  by (metis and.commute mask_sub_def)

lemma and_not_zero_mask_sub [mask_simps]: "a AND NOT b = 0 \<longleftrightarrow> mask_sub a b"
  for a b :: "'a::len word"
proof
  assume "a AND NOT b = 0"
  then have "\<not> bit (a AND NOT b) n" for n
    by simp
  then show "mask_sub a b"
    by (auto simp: mask_sub_bits bit_and_iff bit_not_iff dest: bit_imp_le_length)
next
  assume "mask_sub a b"
  then have "bit (a AND NOT b) n = bit 0 n" for n
    by (auto simp: mask_sub_bits bit_and_iff bit_not_iff)
  then show "a AND NOT b = 0"
    by (rule bit_eqI)
qed

lemma unat_bound: "unat (w :: 'a::len word) < 2 ^ LENGTH('a)"
  by (rule unsigned_less)

lemma and_all_ones32: "(x :: u32) AND 0xFFFFFFFF = x"
proof -
  have "(0xFFFFFFFF :: u32) = mask 32"
    by (simp add: mask_eq_exp_minus_1)
  then have "x AND 0xFFFFFFFF = take_bit 32 x"
    by (simp add: take_bit_eq_mask)
  then show ?thesis
    by (simp add: take_bit_word_eq_self)
qed

text \<open>A rotation written with two shifts.\<close>

lemma rotr_or:
  fixes x :: u32
  assumes "0 < n" and "n < 32"
  shows "drop_bit n x OR push_bit (32 - n) x = word_rotr n x"
proof (rule bit_word_eqI)
  fix i
  assume i: "i < LENGTH(32)"
  have "(i + n) mod 32 = (if i + n < 32 then i + n else i + n - 32)"
    using assms i by (simp add: mod_if)
  then show "bit (drop_bit n x OR push_bit (32 - n) x) i = bit (word_rotr n x) i"
    using assms i by (auto simp: bit_word_rotr_iff bit_or_iff bit_drop_bit_eq bit_push_bit_iff add.commute
        dest: bit_imp_le_length)
qed

lemma rotl_or:
  fixes x :: u32
  assumes "0 < n" and "n < 32"
  shows "push_bit n x OR drop_bit (32 - n) x = word_rotl n x"
  using rotr_or [of "32 - n" x] assms by (simp add: word_rotl_eq_word_rotr or.commute)

lemma byte_bit: "bit (b :: u8) n \<Longrightarrow> n < 8"
  using bit_imp_le_length by fastforce

end
