(* ===== verification/Security_Ksec.thy ===== *)
theory Security_Ksec
  imports MakaOS_Prelude
begin

text \<open>
  The policy-agent channel of \<^verbatim>\<open>kernel/security/ksec.c\<close> and \<^verbatim>\<open>ksec.h\<close>: the global agent
  state, the single pending-request slot, the requester's two halves (before and after
  \<^verbatim>\<open>sched_sleep\<close>) and the reader thread, and the system they form when tasks and the reader
  interleave. A task is named by a number. The byte count the agent pipe reports for a
  write or a read is an argument, since the pipe belongs to another component.
\<close>

section \<open>Wire structures and global state\<close>

datatype ksec_op = KSEC_OP_EXEC_SETUID | KSEC_OP_SETEUID | KSEC_OP_SETUID
  | KSEC_OP_RESOURCE_FD | KSEC_OP_SETUID_BIT | KSEC_OP_CLRUID_BIT

record ksec_request_t =
  rq_seq :: u32
  rq_op :: ksec_op
  rq_caller_pid :: u32
  rq_caller_uid :: u32
  rq_caller_gid :: u32
  rq_inode :: u32
  rq_dev :: u32
  rq_target_uid :: u32
  rq_resource :: string
  rq_file_uid :: u32

abbreviation (input) KSEC_VERDICT_ALLOW :: u8 where "KSEC_VERDICT_ALLOW \<equiv> 0"
abbreviation (input) KSEC_VERDICT_DENY :: u8 where "KSEC_VERDICT_DENY \<equiv> 1"
abbreviation (input) KSEC_VERDICT_CHALLENGE :: u8 where "KSEC_VERDICT_CHALLENGE \<equiv> 2"

record ksec_response_t =
  rs_seq :: u32
  rs_verdict :: u8
  rs_granted_euid :: u32
  rs_granted_egid :: u32
  rs_granted_rights :: u32

text \<open>The packed sizes of the two structures.\<close>

definition sizeof_ksec_request :: int where
  "sizeof_ksec_request = 164"

definition sizeof_ksec_response :: int where
  "sizeof_ksec_response = 20"

type_synonym task_id = nat
type_synonym file_id = nat

record pending_t =
  pd_seq :: u32
  pd_resp :: ksec_response_t
  pd_waiter :: "task_id option"
  pd_done :: bool

record ksec_state =
  s_agent_read :: "file_id option"
  s_agent_write :: "file_id option"
  s_agent_ready :: bool
  s_seq :: u32
  s_pending :: pending_t

definition ksec_zero_response :: ksec_response_t where
  "ksec_zero_response = \<lparr>rs_seq = 0, rs_verdict = 0, rs_granted_euid = 0,
     rs_granted_egid = 0, rs_granted_rights = 0\<rparr>"

definition ksec_init :: ksec_state where
  "ksec_init = \<lparr>s_agent_read = None, s_agent_write = None, s_agent_ready = False, s_seq = 0,
     s_pending = \<lparr>pd_seq = 0, pd_resp = ksec_zero_response, pd_waiter = None, pd_done = False\<rparr>\<rparr>"

section \<open>Operations\<close>

definition ksec_register_agent ::
    "file_id option \<Rightarrow> file_id option \<Rightarrow> ksec_state \<Rightarrow> unit result \<times> ksec_state" where
  "ksec_register_agent read_pipe write_pipe st =
     (if read_pipe = None \<or> write_pipe = None then (Inl EINVAL, st)
      else if s_agent_ready st then (Inl EBUSY, st)
      else (Inr (), st\<lparr>s_agent_read := read_pipe, s_agent_write := write_pipe,
                       s_agent_ready := True\<rparr>))"

definition ksec_agent_present :: "ksec_state \<Rightarrow> bool" where
  "ksec_agent_present st = s_agent_ready st"

definition ksec_next_seq :: "ksec_state \<Rightarrow> u32 \<times> ksec_state" where
  "ksec_next_seq st = (let s = s_seq st + 1 in (s, st\<lparr>s_seq := s\<rparr>))"

text \<open>
  \<^verbatim>\<open>ksec_request\<close> up to its first \<^verbatim>\<open>sched_sleep\<close>. \<open>written\<close> is the result of the
  \<^verbatim>\<open>vfs_write\<close> on the agent pipe. \<open>Inr ()\<close> means that the caller sleeps.
\<close>

definition ksec_request_send ::
    "task_id \<Rightarrow> ksec_request_t \<Rightarrow> int \<Rightarrow> ksec_state \<Rightarrow> unit result \<times> ksec_state" where
  "ksec_request_send cur req written st =
     (if \<not> s_agent_ready st then (Inl EAGAIN, st)
      else
        let st1 = st\<lparr>s_pending := (s_pending st)\<lparr>pd_seq := rq_seq req, pd_waiter := Some cur,
                                                  pd_done := False\<rparr>\<rparr>
        in if written \<noteq> sizeof_ksec_request
           then (Inl EIO, st1\<lparr>s_pending := (s_pending st1)\<lparr>pd_waiter := None\<rparr>\<rparr>)
           else (Inr (), st1))"

text \<open>
  \<^verbatim>\<open>ksec_request\<close> from a wake-up on: \<open>None\<close> when the loop goes back to sleep, otherwise the
  response copied to the caller.
\<close>

definition ksec_request_wake :: "ksec_state \<Rightarrow> (ksec_response_t \<times> ksec_state) option" where
  "ksec_request_wake st =
     (if pd_done (s_pending st)
      then Some (pd_resp (s_pending st), st\<lparr>s_pending := (s_pending st)\<lparr>pd_waiter := None\<rparr>\<rparr>)
      else None)"

text \<open>One round of \<^verbatim>\<open>ksec_reader_thread\<close>: \<open>n\<close> and \<open>resp\<close> are what \<^verbatim>\<open>vfs_read\<close> returned.
  The second component names the task that \<^verbatim>\<open>sched_wake\<close> is called on.\<close>

definition ksec_reader_round ::
    "int \<Rightarrow> ksec_response_t \<Rightarrow> ksec_state \<Rightarrow> ksec_state \<times> task_id option" where
  "ksec_reader_round n resp st =
     (if \<not> s_agent_ready st then (st, None)
      else if n \<noteq> sizeof_ksec_response then (st, None)
      else if pd_waiter (s_pending st) \<noteq> None \<and> pd_seq (s_pending st) = rs_seq resp
              \<and> \<not> pd_done (s_pending st)
      then (st\<lparr>s_pending := (s_pending st)\<lparr>pd_resp := resp, pd_done := True\<rparr>\<rparr>,
            pd_waiter (s_pending st))
      else (st, None))"

lemma ksec_next_seq_zero_after_wrap:
  "fst (ksec_next_seq (ksec_init\<lparr>s_seq := 0xFFFFFFFF\<rparr>)) = 0"
  by (simp add: ksec_next_seq_def Let_def ksec_init_def)

section \<open>Interleaved tasks\<close>

text \<open>
  Where each task stands in \<^verbatim>\<open>ksec_request\<close>. A sleeping task may be woken by anyone
  (\<^verbatim>\<open>sched_wake\<close> is also called by signal delivery), so the wake rule has no premise on who
  woke it; the loop condition \<^verbatim>\<open>s_pending.done\<close> decides.
\<close>

datatype req_pc = Outside | Sleeping ksec_request_t | Returned ksec_request_t ksec_response_t

record ksec_sys =
  ks :: ksec_state
  pcs :: "task_id \<Rightarrow> req_pc"

definition ksec_sys_init :: "ksec_state \<Rightarrow> ksec_sys" where
  "ksec_sys_init st = \<lparr>ks = st, pcs = (\<lambda>_. Outside)\<rparr>"

inductive ksec_step :: "ksec_sys \<Rightarrow> ksec_sys \<Rightarrow> bool" where
  send: "pcs s t = Outside \<Longrightarrow>
     ksec_request_send t req sizeof_ksec_request (ks s) = (Inr (), st') \<Longrightarrow>
     ksec_step s (s\<lparr>ks := st', pcs := (pcs s)(t := Sleeping req)\<rparr>)"
| reader: "ksec_reader_round n resp (ks s) = (st', w) \<Longrightarrow> ksec_step s (s\<lparr>ks := st'\<rparr>)"
| wake: "pcs s t = Sleeping req \<Longrightarrow> ksec_request_wake (ks s) = Some (resp, st') \<Longrightarrow>
     ksec_step s (s\<lparr>ks := st', pcs := (pcs s)(t := Returned req resp)\<rparr>)"
| leave: "pcs s t = Returned req resp \<Longrightarrow>
     ksec_step s (s\<lparr>pcs := (pcs s)(t := Outside)\<rparr>)"

inductive_cases ksec_stepE: "ksec_step s s'"

text \<open>
  The discipline the comment on the pending slot relies on: a request is sent only while no
  other task is in \<^verbatim>\<open>ksec_request\<close>.
\<close>

definition ksec_serial :: "ksec_sys \<Rightarrow> ksec_sys \<Rightarrow> bool" where
  "ksec_serial s s' \<longleftrightarrow> ksec_step s s' \<and>
     ((\<exists>t req. pcs s' t = Sleeping req \<and> pcs s t = Outside) \<longrightarrow>
        (\<forall>u req. pcs s u \<noteq> Sleeping req))"

inductive ksec_reachable :: "ksec_state \<Rightarrow> ksec_sys \<Rightarrow> bool" for st0 where
  start: "ksec_reachable st0 (ksec_sys_init st0)"
| step: "ksec_reachable st0 s \<Longrightarrow> ksec_step s s' \<Longrightarrow> ksec_reachable st0 s'"

inductive ksec_serial_reachable :: "ksec_state \<Rightarrow> ksec_sys \<Rightarrow> bool" for st0 where
  sstart: "ksec_serial_reachable st0 (ksec_sys_init st0)"
| sstep: "ksec_serial_reachable st0 s \<Longrightarrow> ksec_serial s s' \<Longrightarrow> ksec_serial_reachable st0 s'"

text \<open>The slot describes the only sleeping task, and what it holds when done answers it.\<close>

definition ksec_inv :: "ksec_sys \<Rightarrow> bool" where
  "ksec_inv s \<longleftrightarrow>
     (\<forall>t u req req'. pcs s t = Sleeping req \<longrightarrow> pcs s u = Sleeping req' \<longrightarrow> t = u) \<and>
     (\<forall>t req. pcs s t = Sleeping req \<longrightarrow>
        pd_seq (s_pending (ks s)) = rq_seq req \<and>
        (pd_done (s_pending (ks s)) \<longrightarrow> rs_seq (pd_resp (s_pending (ks s))) = rq_seq req)) \<and>
     (\<forall>t req resp. pcs s t = Returned req resp \<longrightarrow> rs_seq resp = rq_seq req)"

lemma ksec_inv_init: "ksec_inv (ksec_sys_init st)"
  by (simp add: ksec_inv_def ksec_sys_init_def)

lemma ksec_request_send_ok:
  "ksec_request_send t req w st = (Inr (), st') \<Longrightarrow>
     pd_seq (s_pending st') = rq_seq req \<and> \<not> pd_done (s_pending st')"
  by (auto simp: ksec_request_send_def Let_def split: if_splits)

lemma ksec_reader_round_pending:
  assumes "ksec_reader_round n resp st = (st', w)"
  shows "pd_seq (s_pending st') = pd_seq (s_pending st) \<and>
     (pd_done (s_pending st') \<longrightarrow>
        (pd_done (s_pending st) \<and> pd_resp (s_pending st') = pd_resp (s_pending st)) \<or>
        rs_seq (pd_resp (s_pending st')) = pd_seq (s_pending st))"
  using assms by (auto simp: ksec_reader_round_def split: if_splits)

lemma ksec_serial_inv:
  assumes "ksec_serial s s'" and inv: "ksec_inv s"
  shows "ksec_inv s'"
proof -
  from assms(1) have "ksec_step s s'"
    and excl: "(\<exists>t req. pcs s' t = Sleeping req \<and> pcs s t = Outside) \<longrightarrow>
      (\<forall>u req. pcs s u \<noteq> Sleeping req)"
    by (auto simp: ksec_serial_def)
  from this(1) show ?thesis
  proof cases
    case (send t req st')
    with excl have "\<forall>u req. pcs s u \<noteq> Sleeping req"
      by auto
    with send inv show ?thesis
      by (auto simp: ksec_inv_def dest: ksec_request_send_ok)
  next
    case (reader n resp st' w)
    then show ?thesis
      using inv ksec_reader_round_pending [OF reader(2)] by (auto simp: ksec_inv_def)
  next
    case (wake t req resp st')
    with inv show ?thesis
      by (auto simp: ksec_inv_def ksec_request_wake_def split: if_splits)
  next
    case (leave t req resp)
    with inv show ?thesis
      by (auto simp: ksec_inv_def)
  qed
qed

lemma ksec_serial_reachable_inv: "ksec_serial_reachable st0 s \<Longrightarrow> ksec_inv s"
  by (induction rule: ksec_serial_reachable.induct)
    (auto intro: ksec_inv_init ksec_serial_inv)


section \<open>Properties\<close>


definition ksec_ready :: ksec_state where
  "ksec_ready = ksec_init\<lparr>s_agent_read := Some 0, s_agent_write := Some 1, s_agent_ready := True\<rparr>"

definition demo_request :: "u32 \<Rightarrow> ksec_request_t" where
  "demo_request sq = \<lparr>rq_seq = sq, rq_op = KSEC_OP_SETUID, rq_caller_pid = 7, rq_caller_uid = 1000,
     rq_caller_gid = 1000, rq_inode = 0, rq_dev = 0, rq_target_uid = 0, rq_resource = [],
     rq_file_uid = 0\<rparr>"

definition demo_response :: "u32 \<Rightarrow> u8 \<Rightarrow> ksec_response_t" where
  "demo_response sq v = \<lparr>rs_seq = sq, rs_verdict = v, rs_granted_euid = 0, rs_granted_egid = 0,
     rs_granted_rights = 0\<rparr>"

lemmas ksec_demo_defs = ksec_ready_def ksec_init_def demo_request_def demo_response_def
  ksec_sys_init_def ksec_request_send_def ksec_request_wake_def ksec_reader_round_def Let_def
  sizeof_ksec_request_def sizeof_ksec_response_def

text \<open>Task \<open>t\<close> sends request \<open>sq\<close> from a state where it is outside and the agent is ready.\<close>

lemma ksec_step_send:
  assumes "pcs s t = Outside" and "s_agent_ready (ks s)"
  shows "ksec_step s (s\<lparr>ks := (ks s)\<lparr>s_pending := (s_pending (ks s))\<lparr>pd_seq := rq_seq req,
     pd_waiter := Some t, pd_done := False\<rparr>\<rparr>, pcs := (pcs s)(t := Sleeping req)\<rparr>)"
  using assms by (intro ksec_step.send) (auto simp: ksec_request_send_def Let_def)

lemma ksec_step_answer:
  assumes "s_agent_ready (ks s)" and "pd_waiter (s_pending (ks s)) = Some u"
    and "pd_seq (s_pending (ks s)) = rs_seq resp" and "\<not> pd_done (s_pending (ks s))"
  shows "ksec_step s (s\<lparr>ks := (ks s)\<lparr>s_pending := (s_pending (ks s))\<lparr>pd_resp := resp,
     pd_done := True\<rparr>\<rparr>\<rparr>)"
  using assms
  by (intro ksec_step.reader [where n = sizeof_ksec_response and resp = resp and w = "Some u"])
    (simp add: ksec_reader_round_def)

lemma ksec_step_wake:
  assumes "pcs s t = Sleeping req" and "pd_done (s_pending (ks s))"
    and "resp = pd_resp (s_pending (ks s))"
  shows "ksec_step s (s\<lparr>ks := (ks s)\<lparr>s_pending := (s_pending (ks s))\<lparr>pd_waiter := None\<rparr>\<rparr>,
     pcs := (pcs s)(t := Returned req resp)\<rparr>)"
  using assms by (intro ksec_step.wake) (auto simp: ksec_request_wake_def)

lemmas ksec_step_rules = ksec_step_send ksec_step_answer ksec_step_wake


text \<open>Without serialisation the single pending slot mixes answers up. With two tasks in
  \<^verbatim>\<open>ksec_request\<close>, task 1 can return with the ALLOW verdict that the agent gave to task 2,
  while the agent never answered task 1.\<close>

theorem ksec_cross_talk:
  "\<exists>s. ksec_reachable ksec_ready s \<and>
     pcs s 1 = Returned (demo_request 1) (demo_response 2 KSEC_VERDICT_ALLOW) \<and>
     rs_seq (demo_response 2 KSEC_VERDICT_ALLOW) \<noteq> rq_seq (demo_request 1)"
proof -
  let ?send = "\<lambda>s t sq. s\<lparr>ks := (ks s)\<lparr>s_pending := (s_pending (ks s))\<lparr>pd_seq := sq,
     pd_waiter := Some t, pd_done := False\<rparr>\<rparr>, pcs := (pcs s)(t := Sleeping (demo_request sq))\<rparr>"
  define s1 where "s1 = ?send (ksec_sys_init ksec_ready) 1 1"
  define s2 where "s2 = ?send s1 2 2"
  define s3 where "s3 = s2\<lparr>ks := (ks s2)\<lparr>s_pending := (s_pending (ks s2))\<lparr>
     pd_resp := demo_response 2 KSEC_VERDICT_ALLOW, pd_done := True\<rparr>\<rparr>\<rparr>"
  define s4 where "s4 = s3\<lparr>ks := (ks s3)\<lparr>s_pending := (s_pending (ks s3))\<lparr>pd_waiter := None\<rparr>\<rparr>,
     pcs := (pcs s3)(1 := Returned (demo_request 1) (demo_response 2 KSEC_VERDICT_ALLOW))\<rparr>"
  have step1: "ksec_step (ksec_sys_init ksec_ready) s1"
    using ksec_step_send [of "ksec_sys_init ksec_ready" 1 "demo_request 1"]
    by (simp add: s1_def ksec_demo_defs)
  have step2: "ksec_step s1 s2"
    using ksec_step_send [of s1 2 "demo_request 2"]
    by (simp add: s2_def s1_def ksec_demo_defs)
  have step3: "ksec_step s2 s3" unfolding s3_def
    by (rule ksec_step_answer [where u = 2]) (simp_all add: s1_def s2_def ksec_demo_defs)
  have step4: "ksec_step s3 s4" unfolding s4_def
    by (rule ksec_step_wake) (simp_all add: s3_def s2_def s1_def)
  have "ksec_reachable ksec_ready s4"
    by (rule ksec_reachable.step [OF _ step4], rule ksec_reachable.step [OF _ step3],
        rule ksec_reachable.step [OF _ step2], rule ksec_reachable.step [OF _ step1],
        rule ksec_reachable.start)
  moreover have "pcs s4 1 = Returned (demo_request 1) (demo_response 2 KSEC_VERDICT_ALLOW)"
    by (simp add: s4_def)
  ultimately show ?thesis
    by (auto simp: demo_request_def demo_response_def)
qed

end
