(* ===== verification/Security_Cred.thy ===== *)
theory Security_Cred
  imports Security_Ksec
begin

text \<open>
  Process credentials: \<^verbatim>\<open>kernel/security/cred.h\<close> and the uid/gid system calls of
  \<^verbatim>\<open>kernel/syscall/syscall.c\<close> (\<^verbatim>\<open>sys_setuid\<close> to \<^verbatim>\<open>sys_setgroups\<close>). The policy agent that
  decides on escalations is a user process outside the kernel: its answers are the
  argument \<open>ask\<close> (\<open>None\<close> when \<^verbatim>\<open>ksec_request\<close> fails), and \<open>present\<close> is
  \<^verbatim>\<open>ksec_agent_present()\<close>. \<^verbatim>\<open>copy_from_user\<close> is the argument \<open>copy\<close> of \<open>sys_setgroups\<close>.
\<close>

section \<open>The credential record\<close>

abbreviation (input) CRED_NGROUPS_MAX :: nat where "CRED_NGROUPS_MAX \<equiv> 32"

record cred_t =
  ruid :: u32
  euid :: u32
  suid :: u32
  rgid :: u32
  egid :: u32
  sgid :: u32
  supplemental :: "u32 list"
  ngroups :: nat

definition cred_wf :: "cred_t \<Rightarrow> bool" where
  "cred_wf c \<longleftrightarrow> length (supplemental c) = CRED_NGROUPS_MAX \<and> ngroups c \<le> CRED_NGROUPS_MAX"

definition cred_init_root :: "cred_t \<Rightarrow> cred_t" where
  "cred_init_root c = c\<lparr>ruid := 0, euid := 0, suid := 0, rgid := 0, egid := 0, sgid := 0,
     ngroups := 0\<rparr>"

text \<open>The copy loop runs over \<open>i < src->ngroups && i < CRED_NGROUPS_MAX\<close>.\<close>

definition cred_copy :: "cred_t \<Rightarrow> cred_t \<Rightarrow> cred_t" where
  "cred_copy dst src =
     (let n = min (ngroups src) CRED_NGROUPS_MAX
      in dst\<lparr>ruid := ruid src, euid := euid src, suid := suid src,
             rgid := rgid src, egid := egid src, sgid := sgid src,
             ngroups := ngroups src,
             supplemental := take n (supplemental src) @ drop n (supplemental dst)\<rparr>)"

definition cred_in_group :: "cred_t \<Rightarrow> u32 \<Rightarrow> bool" where
  "cred_in_group c gid \<longleftrightarrow>
     egid c = gid \<or> list_ex (\<lambda>i. supplemental c ! i = gid) [0..<ngroups c]"

definition cred_is_root :: "cred_t \<Rightarrow> bool" where
  "cred_is_root c \<longleftrightarrow> euid c = 0"

text \<open>\<open>None\<close> is the return value \<open>-1\<close>: outside the three slots.\<close>

definition cred_setuid :: "cred_t \<Rightarrow> u32 \<Rightarrow> cred_t option" where
  "cred_setuid c uid =
     (if euid c = 0 then Some (c\<lparr>ruid := uid, suid := uid, euid := uid\<rparr>)
      else if uid = ruid c \<or> uid = suid c then Some (c\<lparr>euid := uid\<rparr>)
      else None)"

definition cred_seteuid :: "cred_t \<Rightarrow> u32 \<Rightarrow> cred_t option" where
  "cred_seteuid c eu =
     (if euid c = 0 then Some (c\<lparr>euid := eu\<rparr>)
      else if eu = ruid c \<or> eu = suid c \<or> eu = euid c then Some (c\<lparr>euid := eu\<rparr>)
      else None)"

definition cred_setgid :: "cred_t \<Rightarrow> u32 \<Rightarrow> cred_t option" where
  "cred_setgid c gid =
     (if euid c = 0 then Some (c\<lparr>rgid := gid, sgid := gid, egid := gid\<rparr>)
      else if gid = rgid c \<or> gid = sgid c then Some (c\<lparr>egid := gid\<rparr>)
      else None)"

definition cred_setegid :: "cred_t \<Rightarrow> u32 \<Rightarrow> cred_t option" where
  "cred_setegid c eg =
     (if euid c = 0 then Some (c\<lparr>egid := eg\<rparr>)
      else if eg = rgid c \<or> eg = sgid c \<or> eg = egid c then Some (c\<lparr>egid := eg\<rparr>)
      else None)"

section \<open>The system calls\<close>

type_synonym agent = "ksec_request_t \<Rightarrow> ksec_response_t option"

definition uid_request :: "ksec_op \<Rightarrow> u32 \<Rightarrow> u32 \<Rightarrow> cred_t \<Rightarrow> u32 \<Rightarrow> ksec_request_t" where
  "uid_request op sq pid c target =
     \<lparr>rq_seq = sq, rq_op = op, rq_caller_pid = pid, rq_caller_uid = euid c, rq_caller_gid = egid c,
      rq_inode = 0, rq_dev = 0, rq_target_uid = target, rq_resource = [], rq_file_uid = 0\<rparr>"

definition sys_setuid ::
    "bool \<Rightarrow> agent \<Rightarrow> u32 \<Rightarrow> u32 \<Rightarrow> cred_t \<Rightarrow> u64 \<Rightarrow> unit result \<times> cred_t" where
  "sys_setuid present ask sq pid c uid =
     (case cred_setuid c (ucast uid) of
        Some c' \<Rightarrow> (Inr (), c')
      | None \<Rightarrow>
          if \<not> present then (Inl EPERM, c)
          else case ask (uid_request KSEC_OP_SETUID sq pid c (ucast uid)) of
                 None \<Rightarrow> (Inl EPERM, c)
               | Some resp \<Rightarrow>
                   if rs_verdict resp \<noteq> KSEC_VERDICT_ALLOW then (Inl EPERM, c)
                   else (Inr (), c\<lparr>ruid := rs_granted_euid resp, euid := rs_granted_euid resp,
                                   suid := rs_granted_euid resp\<rparr>))"

definition sys_seteuid ::
    "bool \<Rightarrow> agent \<Rightarrow> u32 \<Rightarrow> u32 \<Rightarrow> cred_t \<Rightarrow> u64 \<Rightarrow> unit result \<times> cred_t" where
  "sys_seteuid present ask sq pid c eu =
     (case cred_seteuid c (ucast eu) of
        Some c' \<Rightarrow> (Inr (), c')
      | None \<Rightarrow>
          if \<not> present then (Inl EPERM, c)
          else case ask (uid_request KSEC_OP_SETEUID sq pid c (ucast eu)) of
                 None \<Rightarrow> (Inl EPERM, c)
               | Some resp \<Rightarrow>
                   if rs_verdict resp \<noteq> KSEC_VERDICT_ALLOW then (Inl EPERM, c)
                   else (Inr (), c\<lparr>euid := rs_granted_euid resp\<rparr>))"

definition sys_setgid :: "cred_t \<Rightarrow> u64 \<Rightarrow> unit result \<times> cred_t" where
  "sys_setgid c gid =
     (case cred_setgid c (ucast gid) of Some c' \<Rightarrow> (Inr (), c') | None \<Rightarrow> (Inl EPERM, c))"

definition sys_setegid :: "cred_t \<Rightarrow> u64 \<Rightarrow> unit result \<times> cred_t" where
  "sys_setegid c eg =
     (case cred_setegid c (ucast eg) of Some c' \<Rightarrow> (Inr (), c') | None \<Rightarrow> (Inl EPERM, c))"

definition sys_setreuid :: "cred_t \<Rightarrow> u64 \<Rightarrow> u64 \<Rightarrow> unit result \<times> cred_t" where
  "sys_setreuid c ru eu =
     (let new_ruid = (if ru = -1 then ruid c else ucast ru);
          new_euid = (if eu = -1 then euid c else ucast eu);
          ruid_ok = (new_ruid = ruid c \<or> new_ruid = euid c);
          euid_ok = (new_euid = ruid c \<or> new_euid = euid c \<or> new_euid = suid c)
      in if \<not> cred_is_root c \<and> (\<not> ruid_ok \<or> \<not> euid_ok) then (Inl EPERM, c)
         else let c1 = (if new_ruid \<noteq> ruid c \<or> new_euid \<noteq> ruid c
                        then c\<lparr>suid := new_euid\<rparr> else c)
              in (Inr (), c1\<lparr>ruid := new_ruid, euid := new_euid\<rparr>))"

definition sys_setregid :: "cred_t \<Rightarrow> u64 \<Rightarrow> u64 \<Rightarrow> unit result \<times> cred_t" where
  "sys_setregid c rg eg =
     (let new_rgid = (if rg = -1 then rgid c else ucast rg);
          new_egid = (if eg = -1 then egid c else ucast eg);
          rgid_ok = (new_rgid = rgid c \<or> new_rgid = egid c);
          egid_ok = (new_egid = rgid c \<or> new_egid = egid c \<or> new_egid = sgid c)
      in if \<not> cred_is_root c \<and> (\<not> rgid_ok \<or> \<not> egid_ok) then (Inl EPERM, c)
         else let c1 = (if new_rgid \<noteq> rgid c \<or> new_egid \<noteq> rgid c
                        then c\<lparr>sgid := new_egid\<rparr> else c)
              in (Inr (), c1\<lparr>rgid := new_rgid, egid := new_egid\<rparr>))"

definition sys_setgroups ::
    "cred_t \<Rightarrow> u64 \<Rightarrow> u64 \<Rightarrow> (nat \<Rightarrow> u32 list option) \<Rightarrow> unit result \<times> cred_t" where
  "sys_setgroups c sz list_ptr copy =
     (if \<not> cred_is_root c then (Inl EPERM, c)
      else if unat sz > CRED_NGROUPS_MAX then (Inl EINVAL, c)
      else if sz > 0 \<and> list_ptr = 0 then (Inl EFAULT, c)
      else if sz = 0 then (Inr (), c\<lparr>ngroups := 0\<rparr>)
      else case copy (unat sz) of
             None \<Rightarrow> (Inl EFAULT, c)
           | Some buf \<Rightarrow>
               (Inr (), c\<lparr>supplemental := take (unat sz) buf @ drop (unat sz) (supplemental c),
                          ngroups := unat sz\<rparr>))"

definition sys_getgroups ::
    "cred_t \<Rightarrow> u64 \<Rightarrow> (u32 list \<Rightarrow> bool) \<Rightarrow> nat result" where
  "sys_getgroups c sz copy_out =
     (if sint sz < 0 then Inl EINVAL
      else if sz = 0 then Inr (ngroups c)
      else if unat sz < ngroups c then Inl EINVAL
      else if \<not> copy_out (take (ngroups c) (supplemental c)) then Inl EFAULT
      else Inr (ngroups c))"

text \<open>The calls of a process, in the order it makes them.\<close>

datatype cred_call =
    SetUid u64 | SetEuid u64 | SetGid u64 | SetEgid u64
  | SetReuid u64 u64 | SetRegid u64 u64 | SetGroups u64 u64

record cred_env =
  env_present :: bool
  env_ask :: agent
  env_seq :: u32
  env_pid :: u32
  env_copy :: "nat \<Rightarrow> u32 list option"

fun cred_call_run :: "cred_env \<Rightarrow> cred_t \<Rightarrow> cred_call \<Rightarrow> unit result \<times> cred_t" where
  "cred_call_run e c (SetUid u) = sys_setuid (env_present e) (env_ask e) (env_seq e) (env_pid e) c u"
| "cred_call_run e c (SetEuid u) = sys_seteuid (env_present e) (env_ask e) (env_seq e) (env_pid e) c u"
| "cred_call_run e c (SetGid g) = sys_setgid c g"
| "cred_call_run e c (SetEgid g) = sys_setegid c g"
| "cred_call_run e c (SetReuid r u) = sys_setreuid c r u"
| "cred_call_run e c (SetRegid r g) = sys_setregid c r g"
| "cred_call_run e c (SetGroups n p) = sys_setgroups c n p (env_copy e)"

text \<open>The sequence number, and so the agent's environment, may differ at every call.\<close>

fun cred_run :: "cred_t \<Rightarrow> (cred_env \<times> cred_call) list \<Rightarrow> cred_t" where
  "cred_run c [] = c"
| "cred_run c ((e, x) # xs) = cred_run (snd (cred_call_run e c x)) xs"

definition uid_slots :: "cred_t \<Rightarrow> u32 set" where
  "uid_slots c = {ruid c, euid c, suid c}"

definition gid_slots :: "cred_t \<Rightarrow> u32 set" where
  "gid_slots c = {rgid c, egid c, sgid c}"

text \<open>The uids an agent may hand out.\<close>

definition agent_grants :: "cred_env \<Rightarrow> u32 set \<Rightarrow> bool" where
  "agent_grants e G \<longleftrightarrow>
     (\<forall>req resp. env_ask e req = Some resp \<longrightarrow> rs_verdict resp = KSEC_VERDICT_ALLOW \<longrightarrow>
        rs_granted_euid resp \<in> G)"

section \<open>Lemmas\<close>

lemmas cred_op_defs = cred_setuid_def cred_seteuid_def cred_setgid_def cred_setegid_def
lemmas cred_sys_defs = sys_setuid_def sys_seteuid_def sys_setgid_def sys_setegid_def
  sys_setreuid_def sys_setregid_def sys_setgroups_def

text \<open>A failing call leaves the credentials as they were.\<close>

lemma cred_call_run_error: "cred_call_run e c x = (Inl err, c') \<Longrightarrow> c' = c"
  by (cases x) (auto simp: cred_sys_defs Let_def split: option.splits if_splits)

lemma cred_call_wf:
  assumes "cred_wf c" and "\<And>n buf. env_copy e n = Some buf \<Longrightarrow> length buf = n"
  shows "cred_wf (snd (cred_call_run e c x))"
  using assms
  by (cases x) (auto simp: cred_wf_def cred_sys_defs cred_op_defs Let_def split: option.splits)

text \<open>One call of an unprivileged process.\<close>

lemma cred_call_uid_slots:
  assumes "euid c \<noteq> 0" and "env_present e \<Longrightarrow> agent_grants e G"
  shows "uid_slots (snd (cred_call_run e c x)) \<subseteq> uid_slots c \<union> G"
  using assms
  by (cases x) (auto simp: uid_slots_def agent_grants_def cred_sys_defs cred_op_defs Let_def
      cred_is_root_def split: option.splits if_splits)

lemma cred_call_gid_slots:
  assumes "euid c \<noteq> 0"
  shows "gid_slots (snd (cred_call_run e c x)) \<subseteq> gid_slots c"
  using assms
  by (cases x) (auto simp: gid_slots_def cred_sys_defs cred_op_defs Let_def
      cred_is_root_def split: option.splits if_splits)

lemma cred_call_groups:
  assumes "euid c \<noteq> 0"
  shows "ngroups (snd (cred_call_run e c x)) = ngroups c \<and>
    supplemental (snd (cred_call_run e c x)) = supplemental c"
  using assms
  by (cases x) (auto simp: cred_sys_defs cred_op_defs Let_def cred_is_root_def
      split: option.splits if_splits)

lemma euid_in_slots [simp]: "euid c \<in> uid_slots c"
  by (simp add: uid_slots_def)

lemma cred_run_slots:
  assumes "0 \<notin> uid_slots c" and "0 \<notin> G"
    and "\<forall>(e, x) \<in> set xs. env_present e \<longrightarrow> agent_grants e G"
  shows "uid_slots (cred_run c xs) \<subseteq> uid_slots c \<union> G \<and>
    gid_slots (cred_run c xs) \<subseteq> gid_slots c \<and>
    ngroups (cred_run c xs) = ngroups c \<and> supplemental (cred_run c xs) = supplemental c"
  using assms
proof (induction c xs rule: cred_run.induct)
  case (1 c)
  then show ?case by simp
next
  case (2 c e x xs)
  let ?c' = "snd (cred_call_run e c x)"
  have ne: "euid c \<noteq> 0"
    using "2.prems"(1) euid_in_slots by metis
  have grants: "env_present e \<Longrightarrow> agent_grants e G"
    using "2.prems"(3) by simp
  have slots: "uid_slots ?c' \<subseteq> uid_slots c \<union> G"
    by (rule cred_call_uid_slots [OF ne grants])
  have "0 \<notin> uid_slots ?c'"
    using slots "2.prems"(1,2) by blast
  moreover have "\<forall>(e, x) \<in> set xs. env_present e \<longrightarrow> agent_grants e G"
    using "2.prems"(3) by simp
  ultimately show ?case
    using "2.IH" "2.prems"(2) slots cred_call_gid_slots [OF ne, of e x]
      cred_call_groups [OF ne, of e x]
    by auto
qed


section \<open>Properties\<close>

text \<open>C4: An unprivileged process (no uid slot is 0) stays so. Whatever uid and gid system calls
  it makes, in whatever order and with whatever agent answers, each of its three uids is one
  it started with or one the policy agent allowed, none of them becomes 0 unless the agent
  granted 0, and its gids and supplemental groups are among those it started with.\<close>

theorem cred_no_escalation:
  assumes "0 \<notin> uid_slots c" and "0 \<notin> G"
    and "\<forall>(e, x) \<in> set xs. env_present e \<longrightarrow> agent_grants e G"
  shows "uid_slots (cred_run c xs) \<subseteq> uid_slots c \<union> G \<and>
    \<not> cred_is_root (cred_run c xs) \<and>
    gid_slots (cred_run c xs) \<subseteq> gid_slots c \<and>
    supplemental (cred_run c xs) = supplemental c \<and> ngroups (cred_run c xs) = ngroups c"
proof -
  have sl: "uid_slots (cred_run c xs) \<subseteq> uid_slots c \<union> G"
    using cred_run_slots [OF assms] by simp
  then have "euid (cred_run c xs) \<in> uid_slots c \<union> G"
    using euid_in_slots by blast
  then have "\<not> cred_is_root (cred_run c xs)"
    using assms(1,2) by (auto simp: cred_is_root_def)
  with cred_run_slots [OF assms] show ?thesis
    by simp
qed

definition demo_cred :: cred_t where
  "demo_cred = \<lparr>ruid = 1000, euid = 1000, suid = 1001, rgid = 100, egid = 100, sgid = 100,
     supplemental = replicate 32 0, ngroups = 0\<rparr>"

definition demo_env :: cred_env where
  "demo_env = \<lparr>env_present = False, env_ask = (\<lambda>_. None), env_seq = 1, env_pid = 7,
     env_copy = (\<lambda>n. Some (replicate n 0))\<rparr>"

theorem cred_no_escalation_witness:
  "0 \<notin> uid_slots demo_cred \<and>
   cred_run demo_cred [(demo_env, SetUid 0), (demo_env, SetEuid 1001)] = demo_cred\<lparr>euid := 1001\<rparr> \<and>
   \<not> cred_is_root (cred_run demo_cred [(demo_env, SetUid 0), (demo_env, SetEuid 1001)])"
proof (intro conjI)
  show h: "0 \<notin> uid_slots demo_cred"
    by (simp add: uid_slots_def demo_cred_def)
  show "cred_run demo_cred [(demo_env, SetUid 0), (demo_env, SetEuid 1001)] =
      demo_cred\<lparr>euid := 1001\<rparr>"
    by (simp add: demo_cred_def demo_env_def cred_sys_defs cred_op_defs)
  show "\<not> cred_is_root (cred_run demo_cred [(demo_env, SetUid 0), (demo_env, SetEuid 1001)])"
    using cred_no_escalation [OF h, where G = "{}"
        and xs = "[(demo_env, SetUid 0), (demo_env, SetEuid 1001)]"]
    by (simp add: demo_env_def)
qed

end
