(* ===== verification/Security_Perm.thy ===== *)
theory Security_Perm
  imports Security_Cred
begin

text \<open>
  Access control on inodes: the ACL entries of \<^verbatim>\<open>kernel/security/acl.h\<close> and the permission
  checks of \<^verbatim>\<open>kernel/security/perm.c\<close>, compared with the POSIX owner/group/other rule.
\<close>

section \<open>ACL entries\<close>

abbreviation (input) ACL_PERM_READ :: u8 where "ACL_PERM_READ \<equiv> 4"
abbreviation (input) ACL_PERM_WRITE :: u8 where "ACL_PERM_WRITE \<equiv> 2"
abbreviation (input) ACL_PERM_EXEC :: u8 where "ACL_PERM_EXEC \<equiv> 1"

abbreviation (input) ACL_TAG_USER :: u8 where "ACL_TAG_USER \<equiv> 0"
abbreviation (input) ACL_TAG_GROUP :: u8 where "ACL_TAG_GROUP \<equiv> 1"
abbreviation (input) ACL_TAG_OTHER :: u8 where "ACL_TAG_OTHER \<equiv> 2"
abbreviation (input) ACL_WILDCARD :: u32 where "ACL_WILDCARD \<equiv> 0xFFFFFFFF"

record acl_entry_t =
  ae_tag :: u8
  ae_perms :: u8
  ae_qualifier :: u32

definition acl_from_mode :: "u32 \<Rightarrow> u32 \<Rightarrow> u16 \<Rightarrow> acl_entry_t list" where
  "acl_from_mode uid gid mode =
     [\<lparr>ae_tag = ACL_TAG_USER, ae_perms = ucast (drop_bit 6 mode AND 7), ae_qualifier = uid\<rparr>,
      \<lparr>ae_tag = ACL_TAG_GROUP, ae_perms = ucast (drop_bit 3 mode AND 7), ae_qualifier = gid\<rparr>,
      \<lparr>ae_tag = ACL_TAG_OTHER, ae_perms = ucast (mode AND 7), ae_qualifier = ACL_WILDCARD\<rparr>]"

text \<open>\<open>None\<close>: the tag is unknown and the loop continues.\<close>

definition acl_match :: "acl_entry_t \<Rightarrow> cred_t \<Rightarrow> bool option" where
  "acl_match e c =
     (if ae_tag e = ACL_TAG_USER
        then Some (ae_qualifier e = ACL_WILDCARD \<or> ae_qualifier e = euid c)
      else if ae_tag e = ACL_TAG_GROUP
        then Some (ae_qualifier e = ACL_WILDCARD \<or> cred_in_group c (ae_qualifier e))
      else if ae_tag e = ACL_TAG_OTHER then Some True
      else None)"

fun acl_check :: "acl_entry_t list \<Rightarrow> cred_t \<Rightarrow> u8 \<Rightarrow> bool" where
  "acl_check [] c need = False"
| "acl_check (e # es) c need =
     (if acl_match e c = Some True then ae_perms e AND need = need else acl_check es c need)"

section \<open>Permission checks\<close>

record inode_perm_t =
  ip_uid :: u32
  ip_gid :: u32
  ip_mode :: u16
  ip_inode_nr :: u32
  ip_dev :: u32
  ip_nosuid :: bool

definition vfs_check_perm ::
    "inode_perm_t option \<Rightarrow> cred_t option \<Rightarrow> u8 \<Rightarrow> unit result" where
  "vfs_check_perm ipo co need =
     (case (ipo, co) of
        (Some ip, Some c) \<Rightarrow>
          if cred_is_root c then
            (if need AND ACL_PERM_EXEC \<noteq> 0 then
               (let any_x = (drop_bit 6 (ip_mode ip) OR drop_bit 3 (ip_mode ip) OR ip_mode ip) AND 1
                in if any_x = 0 then Inl EACCES else Inr ())
             else Inr ())
          else if acl_check (acl_from_mode (ip_uid ip) (ip_gid ip) (ip_mode ip)) c need then Inr ()
          else Inl EACCES
      | _ \<Rightarrow> Inl EINVAL)"

abbreviation (input) S_ISUID :: u16 where "S_ISUID \<equiv> 0x800"

text \<open>The second component is \<open>*out_setuid_uid\<close>; it is untouched when an argument is NULL.\<close>

definition vfs_check_exec ::
    "inode_perm_t option \<Rightarrow> cred_t option \<Rightarrow> u32 \<Rightarrow> unit result \<times> u32" where
  "vfs_check_exec ipo co out =
     (case (ipo, co) of
        (Some ip, Some c) \<Rightarrow>
          (case vfs_check_perm ipo co ACL_PERM_EXEC of
             Inl e \<Rightarrow> (Inl e, 0xFFFFFFFF)
           | Inr _ \<Rightarrow>
               if ip_nosuid ip then (Inr (), 0xFFFFFFFF)
               else if ip_mode ip AND S_ISUID \<noteq> 0 \<and> ip_uid ip \<noteq> euid c
                 then (Inr (), ip_uid ip)
               else (Inr (), 0xFFFFFFFF))
      | _ \<Rightarrow> (Inl EINVAL, out))"

text \<open>
  The permission snapshot that \<^verbatim>\<open>sys_exec\<close> and \<^verbatim>\<open>elf_exec_from_ext2\<close> pass in: the mode is
  masked with \<open>0x1FF\<close> before the check.
\<close>

definition exec_inode_perm :: "u32 \<Rightarrow> u32 \<Rightarrow> u16 \<Rightarrow> u32 \<Rightarrow> inode_perm_t" where
  "exec_inode_perm i_uid i_gid i_mode ino =
     \<lparr>ip_uid = i_uid, ip_gid = i_gid, ip_mode = i_mode AND 0x1FF, ip_inode_nr = ino,
      ip_dev = 0, ip_nosuid = False\<rparr>"

section \<open>The POSIX rule\<close>

datatype perm_class = Owner | Group | Other

definition posix_class :: "inode_perm_t \<Rightarrow> cred_t \<Rightarrow> perm_class" where
  "posix_class ip c =
     (if ip_uid ip = euid c then Owner
      else if cred_in_group c (ip_gid ip) then Group
      else Other)"

primrec class_shift :: "perm_class \<Rightarrow> nat" where
  "class_shift Owner = 6"
| "class_shift Group = 3"
| "class_shift Other = 0"

text \<open>Bit \<open>k\<close> of a request is granted by the class's bit of the mode word.\<close>

definition posix_allows :: "inode_perm_t \<Rightarrow> cred_t \<Rightarrow> u8 \<Rightarrow> bool" where
  "posix_allows ip c need \<longleftrightarrow>
     (\<forall>k. bit need k \<longrightarrow> k < 3 \<and> bit (ip_mode ip) (class_shift (posix_class ip c) + k))"

section \<open>Lemmas\<close>

lemma bit_seven: "bit (7 :: 'a::len word) k \<longleftrightarrow> k < LENGTH('a) \<and> k < 3"
proof -
  have "bit (mask 3 :: 'a word) k \<longleftrightarrow> k < LENGTH('a) \<and> k < 3"
    by (simp only: bit_mask_iff possible_bit_word)
  then show ?thesis by (simp add: mask_eq_exp_minus_1)
qed

lemma mode_bits_mask:
  "ucast (drop_bit s m AND 7) AND need = need \<longleftrightarrow> (\<forall>k. bit need k \<longrightarrow> k < 3 \<and> bit m (s + k))"
  for m :: u16 and need :: u8
proof -
  have "bit (ucast (drop_bit s m AND 7) :: u8) k \<longleftrightarrow> k < 3 \<and> bit m (s + k)" for k
    by (simp only: bit_unsigned_iff bit_and_iff bit_drop_bit_eq o_def bit_seven) auto
  then show ?thesis
    unfolding and_eq_mask_sub mask_sub_bits by blast
qed

lemma acl_check_posix:
  assumes "uid \<noteq> ACL_WILDCARD" and "gid \<noteq> ACL_WILDCARD"
  shows "acl_check (acl_from_mode uid gid mode) c need \<longleftrightarrow>
    (if uid = euid c then ucast (drop_bit 6 mode AND 7) AND need = need
     else if cred_in_group c gid then ucast (drop_bit 3 mode AND 7) AND need = need
     else ucast (drop_bit 0 mode AND 7) AND need = need)"
  using assms by (simp add: acl_from_mode_def acl_match_def)

section \<open>Properties\<close>

text \<open>C26: For a process that is not root and an inode whose owner and group are real ids, the
  permission check decides exactly as POSIX says: it selects one class (owner before group
  before other) and allows the request iff that class's mode bits grant every requested bit.
  A denial is \<open>EACCES\<close>.\<close>

theorem vfs_check_perm_posix:
  assumes "\<not> cred_is_root c" and "ip_uid ip \<noteq> ACL_WILDCARD" and "ip_gid ip \<noteq> ACL_WILDCARD"
  shows "vfs_check_perm (Some ip) (Some c) need =
    (if posix_allows ip c need then Inr () else Inl EACCES)"
  using assms
  using mode_bits_mask [of 0 "ip_mode ip" need]
  by (simp add: vfs_check_perm_def acl_check_posix posix_allows_def posix_class_def mode_bits_mask)

definition demo_inode :: inode_perm_t where
  "demo_inode = \<lparr>ip_uid = 1000, ip_gid = 100, ip_mode = 0x1A0, ip_inode_nr = 12, ip_dev = 0,
     ip_nosuid = False\<rparr>"

theorem vfs_check_perm_posix_witness:
  "\<not> cred_is_root demo_cred \<and> ip_uid demo_inode \<noteq> ACL_WILDCARD \<and> ip_gid demo_inode \<noteq> ACL_WILDCARD \<and>
   vfs_check_perm (Some demo_inode) (Some demo_cred) ACL_PERM_WRITE =
     (if posix_allows demo_inode demo_cred ACL_PERM_WRITE then Inr () else Inl EACCES) \<and>
   vfs_check_perm (Some demo_inode) (Some demo_cred) ACL_PERM_WRITE = Inr () \<and>
   vfs_check_perm (Some demo_inode) (Some demo_cred) ACL_PERM_EXEC = Inl EACCES"
proof -
  have h: "\<not> cred_is_root demo_cred" "ip_uid demo_inode \<noteq> ACL_WILDCARD"
    "ip_gid demo_inode \<noteq> ACL_WILDCARD"
    by (simp_all add: cred_is_root_def demo_cred_def demo_inode_def)
  have "vfs_check_perm (Some demo_inode) (Some demo_cred) ACL_PERM_WRITE = Inr ()"
    "vfs_check_perm (Some demo_inode) (Some demo_cred) ACL_PERM_EXEC = Inl EACCES"
    by (simp_all add: vfs_check_perm_def acl_from_mode_def acl_match_def demo_cred_def
        demo_inode_def cred_is_root_def)
  with h vfs_check_perm_posix [OF h, of ACL_PERM_WRITE] show ?thesis
    by simp
qed

text \<open>The setuid bit never takes effect on exec. Both exec paths mask the inode's mode with
  \<open>0x1FF\<close>, which clears \<^verbatim>\<open>S_ISUID\<close>, before they call \<^verbatim>\<open>vfs_check_exec\<close>; so the escalation
  output is always the no-escalation value, whatever the inode and the caller.\<close>

theorem exec_setuid_never_detected:
  "snd (vfs_check_exec (Some (exec_inode_perm i_uid i_gid i_mode ino)) (Some c) out) = 0xFFFFFFFF"
proof -
  have "(i_mode AND 0x1FF) AND S_ISUID = 0"
    by (simp add: and.assoc)
  then show ?thesis
    by (simp add: vfs_check_exec_def exec_inode_perm_def split: sum.splits)
qed

end
