(* ===== verification/Security_Rights.thy ===== *)
theory Security_Rights
  imports MakaOS_Prelude
begin

text \<open>
  File-descriptor rights: \<^verbatim>\<open>kernel/security/rights.h\<close> and the checks that \<^verbatim>\<open>sys_read\<close>,
  \<^verbatim>\<open>sys_write\<close>, \<^verbatim>\<open>sys_restrict_fd\<close> and \<^verbatim>\<open>sys_sendfd\<close> make in \<^verbatim>\<open>kernel/syscall/syscall.c\<close>.
  Open files live in a store, so that descriptors made by \<^verbatim>\<open>dup\<close> or \<^verbatim>\<open>fork\<close> share the
  file and its rights.
\<close>

section \<open>The rights mask\<close>

abbreviation (input) RIGHT_READ :: u32 where "RIGHT_READ \<equiv> 1"
abbreviation (input) RIGHT_WRITE :: u32 where "RIGHT_WRITE \<equiv> 2"
abbreviation (input) RIGHT_EXEC :: u32 where "RIGHT_EXEC \<equiv> 4"
abbreviation (input) RIGHT_SEEK :: u32 where "RIGHT_SEEK \<equiv> 8"
abbreviation (input) RIGHT_POLL :: u32 where "RIGHT_POLL \<equiv> 16"
abbreviation (input) RIGHT_MMAP_R :: u32 where "RIGHT_MMAP_R \<equiv> 32"
abbreviation (input) RIGHT_MMAP_W :: u32 where "RIGHT_MMAP_W \<equiv> 64"
abbreviation (input) RIGHT_MMAP_X :: u32 where "RIGHT_MMAP_X \<equiv> 128"
abbreviation (input) RIGHT_IOCTL :: u32 where "RIGHT_IOCTL \<equiv> 256"
abbreviation (input) RIGHT_SEND_FD :: u32 where "RIGHT_SEND_FD \<equiv> 512"

definition rights_from_oflags :: "u32 \<Rightarrow> bool \<Rightarrow> u32" where
  "rights_from_oflags oflags exec_ok =
     (let r0 = RIGHT_POLL OR RIGHT_SEEK;
          acc = oflags AND 3;
          r1 = (if acc = 0 \<or> acc = 2 then r0 OR RIGHT_READ OR RIGHT_MMAP_R else r0);
          r2 = (if acc = 1 \<or> acc = 2 then r1 OR RIGHT_WRITE OR RIGHT_MMAP_W else r1);
          r3 = (if exec_ok then r2 OR RIGHT_EXEC OR RIGHT_MMAP_X else r2)
      in r3 OR RIGHT_IOCTL OR RIGHT_SEND_FD)"

definition rights_restrict :: "u32 \<Rightarrow> u32 \<Rightarrow> u32" where
  "rights_restrict current m = current AND m"

definition rights_check :: "u32 \<Rightarrow> u32 \<Rightarrow> bool" where
  "rights_check have need \<longleftrightarrow> have AND need = need"

section \<open>Descriptors and files\<close>

record open_file =
  f_rights :: u32
  f_has_write :: bool
  f_is_unix :: bool

record fd_state =
  fds :: "u64 \<Rightarrow> nat option"
  files :: "nat \<Rightarrow> open_file"

text \<open>What the descriptor calls do once their checks pass.\<close>

datatype fd_gate = Denied errno | Proceed nat

definition sys_write_gate :: "fd_state \<Rightarrow> u64 \<Rightarrow> fd_gate" where
  "sys_write_gate s fd =
     (case fds s fd of
        None \<Rightarrow> Denied EBADF
      | Some f \<Rightarrow>
          if \<not> f_has_write (files s f) then Denied EBADF
          else if f_rights (files s f) \<noteq> 0 \<and> \<not> rights_check (f_rights (files s f)) RIGHT_WRITE
            then Denied EACCES
          else Proceed f)"

definition sys_read_gate :: "fd_state \<Rightarrow> u64 \<Rightarrow> fd_gate" where
  "sys_read_gate s fd =
     (case fds s fd of
        None \<Rightarrow> Denied EBADF
      | Some f \<Rightarrow>
          if f_rights (files s f) \<noteq> 0 \<and> \<not> rights_check (f_rights (files s f)) RIGHT_READ
            then Denied EACCES
          else Proceed f)"

definition sys_restrict_fd :: "fd_state \<Rightarrow> u64 \<Rightarrow> u64 \<Rightarrow> unit result \<times> fd_state" where
  "sys_restrict_fd s fd m =
     (case fds s fd of
        None \<Rightarrow> (Inl EBADF, s)
      | Some f \<Rightarrow>
          (Inr (), s\<lparr>files := (files s)(f := (files s f)\<lparr>f_rights :=
                       rights_restrict (f_rights (files s f)) (ucast m)\<rparr>)\<rparr>))"

text \<open>
  \<^verbatim>\<open>sys_sendfd\<close> up to the transfer: \<open>Inr (f, r)\<close> is the call
  \<^verbatim>\<open>unix_sock_sendfd(sock, f, r)\<close>.
\<close>

definition sys_sendfd :: "fd_state \<Rightarrow> u64 \<Rightarrow> u64 \<Rightarrow> u64 \<Rightarrow> (nat \<times> u32) result" where
  "sys_sendfd s sock_fd target_fd new_rights =
     (case fds s sock_fd of
        None \<Rightarrow> Inl EBADF
      | Some sock \<Rightarrow>
          if \<not> f_is_unix (files s sock) then Inl ENOTSOCK
          else if \<not> rights_check (f_rights (files s sock)) RIGHT_SEND_FD then Inl EPERM
          else case fds s target_fd of
                 None \<Rightarrow> Inl EBADF
               | Some f \<Rightarrow>
                   if (ucast new_rights AND NOT (f_rights (files s f))) \<noteq> 0 then Inl EPERM
                   else Inr (f, ucast new_rights))"

fun restrict_run :: "fd_state \<Rightarrow> (u64 \<times> u64) list \<Rightarrow> fd_state" where
  "restrict_run s [] = s"
| "restrict_run s ((fd, m) # xs) = restrict_run (snd (sys_restrict_fd s fd m)) xs"

section \<open>Lemmas\<close>

lemma restrict_fds [simp]: "fds (snd (sys_restrict_fd s fd m)) = fds s"
  by (simp add: sys_restrict_fd_def split: option.splits)

lemma restrict_frame [simp]:
  "f_has_write (files (snd (sys_restrict_fd s fd m)) f) = f_has_write (files s f)"
  by (simp add: sys_restrict_fd_def split: option.splits)

lemma restrict_step:
  "mask_sub (f_rights (files (snd (sys_restrict_fd s fd m)) f)) (f_rights (files s f))"
  by (simp add: sys_restrict_fd_def rights_restrict_def split: option.splits)

lemma restrict_run_sub:
  "mask_sub (f_rights (files (restrict_run s xs) f)) (f_rights (files s f)) \<and>
   fds (restrict_run s xs) = fds s \<and>
   f_has_write (files (restrict_run s xs) f) = f_has_write (files s f)"
proof (induction s xs rule: restrict_run.induct)
  case (2 s fd m xs)
  then show ?case
    using mask_sub_trans [OF _ restrict_step [of s fd m f]] by auto
qed simp

lemma rights_check_mono: "mask_sub a b \<Longrightarrow> rights_check a need \<Longrightarrow> rights_check b need"
  by (auto simp: rights_check_def and_eq_mask_sub intro: mask_sub_trans)

section \<open>Properties\<close>

text \<open>\<^verbatim>\<open>sys_restrict_fd\<close> is monotone over any sequence of calls: no file's rights mask gains
  a bit, and as long as the mask of a file does not become empty, a write or read that was
  refused for lack of rights stays refused.\<close>

theorem restrict_fd_irrevocable:
  assumes "fds s fd = Some f" and "f_rights (files s f) \<noteq> 0"
    and "\<not> rights_check (f_rights (files s f)) RIGHT_WRITE"
    and "f_rights (files (restrict_run s xs) f) \<noteq> 0"
  shows "mask_sub (f_rights (files (restrict_run s xs) f)) (f_rights (files s f)) \<and>
    (\<exists>e. sys_write_gate (restrict_run s xs) fd = Denied e)"
proof -
  have "\<not> rights_check (f_rights (files (restrict_run s xs) f)) RIGHT_WRITE"
    using assms(3) restrict_run_sub [of s xs f] rights_check_mono by blast
  then show ?thesis
    using assms restrict_run_sub [of s xs f] by (simp add: sys_write_gate_def)
qed

definition demo_fds :: fd_state where
  "demo_fds = \<lparr>fds = (\<lambda>fd. if fd = 3 then Some 0 else None),
     files = (\<lambda>_. \<lparr>f_rights = 0x39, f_has_write = True, f_is_unix = False\<rparr>)\<rparr>"

theorem restrict_fd_irrevocable_witness:
  "fds demo_fds 3 = Some 0 \<and> f_rights (files demo_fds 0) \<noteq> 0 \<and>
   \<not> rights_check (f_rights (files demo_fds 0)) RIGHT_WRITE \<and>
   f_rights (files (restrict_run demo_fds [(3, 0x11)]) 0) \<noteq> 0 \<and>
   (\<exists>e. sys_write_gate (restrict_run demo_fds [(3, 0x11)]) 3 = Denied e)"
proof -
  have h: "fds demo_fds 3 = Some 0" "f_rights (files demo_fds 0) \<noteq> 0"
    "\<not> rights_check (f_rights (files demo_fds 0)) RIGHT_WRITE"
    "f_rights (files (restrict_run demo_fds [(3, 0x11)]) 0) \<noteq> 0"
    by (simp_all add: demo_fds_def rights_check_def sys_restrict_fd_def rights_restrict_def)
  with restrict_fd_irrevocable [OF h] show ?thesis
    by blast
qed

text \<open>The all-zero mask is not the weakest one. Every descriptor check treats rights \<open>0\<close> as
  unrestricted, so \<^verbatim>\<open>sys_restrict_fd(fd, 0)\<close> always succeeds on an open descriptor and makes
  both \<^verbatim>\<open>sys_read\<close> and \<^verbatim>\<open>sys_write\<close> pass their rights checks, also on a file whose
  rights forbade them before.\<close>

theorem restrict_fd_zero_unrestricts:
  assumes "fds s fd = Some f" and "f_has_write (files s f)"
  shows "fst (sys_restrict_fd s fd 0) = Inr () \<and>
    sys_write_gate (snd (sys_restrict_fd s fd 0)) fd = Proceed f \<and>
    sys_read_gate (snd (sys_restrict_fd s fd 0)) fd = Proceed f"
  using assms
  by (simp add: sys_restrict_fd_def sys_write_gate_def sys_read_gate_def rights_restrict_def)

theorem restrict_fd_zero_unrestricts_witness:
  "sys_write_gate demo_fds 3 = Denied EACCES \<and>
   sys_write_gate (snd (sys_restrict_fd demo_fds 3 0)) 3 = Proceed 0"
proof -
  have h: "fds demo_fds 3 = Some 0" "f_has_write (files demo_fds 0)"
    by (simp_all add: demo_fds_def)
  have "sys_write_gate demo_fds 3 = Denied EACCES"
    by (simp add: demo_fds_def sys_write_gate_def rights_check_def)
  with restrict_fd_zero_unrestricts [OF h] show ?thesis
    by simp
qed


definition demo_sock_fds :: fd_state where
  "demo_sock_fds = \<lparr>fds = (\<lambda>fd. if fd = 3 then Some 0 else if fd = 4 then Some 1 else None),
     files = (\<lambda>f. \<lparr>f_rights = (if f = 0 then 0x339 else 0x39), f_has_write = False,
                   f_is_unix = (f = 0)\<rparr>)\<rparr>"


end
