(* ===== verification/Security_Unveil.thy ===== *)
theory Security_Unveil
  imports MakaOS_Prelude
begin

text \<open>
  The per-process file-system view of \<^verbatim>\<open>kernel/security/unveil.c\<close> and \<^verbatim>\<open>unveil.h\<close>, with the
  check that \<^verbatim>\<open>sys_open\<close> makes. The entry array with its \<^verbatim>\<open>count\<close> is the list of active
  entries; \<^verbatim>\<open>cap\<close> stays a number. Whether \<^verbatim>\<open>kmalloc\<close> succeeds is an argument.
\<close>

section \<open>String helpers\<close>

fun strncmp_loop :: "string \<Rightarrow> string \<Rightarrow> nat \<Rightarrow> nat \<Rightarrow> int" where
  "strncmp_loop a b i 0 = 0"
| "strncmp_loop a b i (Suc k) =
     (if c_at a i \<noteq> c_at b i then c_at a i - c_at b i
      else if c_at a i = 0 then 0
      else strncmp_loop a b (Suc i) k)"

definition s_strncmp :: "string \<Rightarrow> string \<Rightarrow> nat \<Rightarrow> int" where
  "s_strncmp a b n = strncmp_loop a b 0 n"

definition s_strncpy :: "string \<Rightarrow> nat \<Rightarrow> string" where
  "s_strncpy src n = take (n - 1) src"

section \<open>The table\<close>

abbreviation (input) UNVEIL_READ :: u8 where "UNVEIL_READ \<equiv> 1"
abbreviation (input) UNVEIL_WRITE :: u8 where "UNVEIL_WRITE \<equiv> 2"
abbreviation (input) UNVEIL_EXEC :: u8 where "UNVEIL_EXEC \<equiv> 4"
abbreviation (input) UNVEIL_CREATE :: u8 where "UNVEIL_CREATE \<equiv> 8"
abbreviation (input) UNVEIL_PATH_MAX :: nat where "UNVEIL_PATH_MAX \<equiv> 256"

record unveil_entry_t =
  ue_path :: string
  ue_perms :: u8

record unveil_table_t =
  ut_entries :: "unveil_entry_t list"
  ut_cap :: nat
  ut_locked :: bool

definition unveil_init :: unveil_table_t where
  "unveil_init = \<lparr>ut_entries = [], ut_cap = 0, ut_locked = False\<rparr>"

definition unveil_free :: "unveil_table_t \<Rightarrow> unveil_table_t" where
  "unveil_free t = unveil_init"

text \<open>The destination's previous contents are overwritten without being read. The flag is the
  success of the copy (\<open>0\<close> or \<open>-1\<close> in the source).\<close>

definition unveil_copy :: "bool \<Rightarrow> unveil_table_t \<Rightarrow> bool \<times> unveil_table_t" where
  "unveil_copy alloc_ok src =
     (let dst = \<lparr>ut_entries = [], ut_cap = 0, ut_locked = ut_locked src\<rparr>
      in if ut_entries src = [] then (True, dst)
         else if \<not> alloc_ok then (False, dst)
         else (True, dst\<lparr>ut_cap := length (ut_entries src), ut_entries := ut_entries src\<rparr>))"

definition unveil_lock :: "unveil_table_t \<Rightarrow> unveil_table_t" where
  "unveil_lock t = t\<lparr>ut_locked := True\<rparr>"

text \<open>The merge loop: or the permissions into the first entry with this path, if any.\<close>

fun unveil_merge :: "unveil_entry_t list \<Rightarrow> string \<Rightarrow> u8 \<Rightarrow> unveil_entry_t list option" where
  "unveil_merge [] path perms = None"
| "unveil_merge (e # es) path perms =
     (if s_strncmp (ue_path e) path UNVEIL_PATH_MAX = 0
      then Some (e\<lparr>ue_perms := ue_perms e OR perms\<rparr> # es)
      else map_option (\<lambda>es'. e # es') (unveil_merge es path perms))"

definition unveil_add ::
    "bool \<Rightarrow> unveil_table_t \<Rightarrow> string \<Rightarrow> u8 \<Rightarrow> unit result \<times> unveil_table_t" where
  "unveil_add alloc_ok t path perms =
     (if ut_locked t then (Inl EPERM, t)
      else if \<not> c_is path 0 CHR ''/'' then (Inl EINVAL, t)
      else if length path = 0 \<or> UNVEIL_PATH_MAX \<le> length path then (Inl ENAMETOOLONG, t)
      else case unveil_merge (ut_entries t) path perms of
             Some es \<Rightarrow> (Inr (), t\<lparr>ut_entries := es\<rparr>)
           | None \<Rightarrow>
               let new = \<lparr>ue_path = s_strncpy path UNVEIL_PATH_MAX, ue_perms = perms\<rparr>
               in if ut_cap t \<le> length (ut_entries t) then
                    (if \<not> alloc_ok then (Inl ENOMEM, t)
                     else (Inr (), t\<lparr>ut_cap := (if ut_cap t = 0 then 4 else ut_cap t * 2),
                                     ut_entries := ut_entries t @ [new]\<rparr>))
                  else (Inr (), t\<lparr>ut_entries := ut_entries t @ [new]\<rparr>))"

fun unveil_scan :: "unveil_entry_t list \<Rightarrow> string \<Rightarrow> u8 \<Rightarrow> bool" where
  "unveil_scan [] path need = False"
| "unveil_scan (e # es) path need =
     (let elen = length (ue_path e); plen = length path
      in if plen < elen then unveil_scan es path need
         else if s_strncmp path (ue_path e) elen \<noteq> 0 then unveil_scan es path need
         else if plen > elen \<and> \<not> c_is path elen CHR ''/'' then unveil_scan es path need
         else ue_perms e AND need = need)"

definition unveil_check :: "unveil_table_t \<Rightarrow> string \<Rightarrow> u8 \<Rightarrow> bool" where
  "unveil_check t path need =
     (if length (ut_entries t) = 0 then True else unveil_scan (ut_entries t) path need)"

section \<open>The check in sys_open\<close>

abbreviation (input) O_CREAT :: u64 where "O_CREAT \<equiv> 0x40"

definition unveil_exempt :: "string \<Rightarrow> bool" where
  "unveil_exempt path \<longleftrightarrow>
     (c_is path 1 CHR ''d'' \<and> c_is path 2 CHR ''e'' \<and>
      c_is path 3 CHR ''v'') \<or>
     (c_is path 1 CHR ''p'' \<and> c_is path 2 CHR ''r'' \<and>
      c_is path 3 CHR ''o'' \<and> c_is path 4 CHR ''c'')"

text \<open>\<open>False\<close>: the open fails with \<^verbatim>\<open>ENOENT\<close>.\<close>

definition sys_open_unveil :: "unveil_table_t \<Rightarrow> string \<Rightarrow> u64 \<Rightarrow> bool" where
  "sys_open_unveil t path flags =
     (if length (ut_entries t) > 0 \<and> \<not> unveil_exempt path then
        (let acc = flags AND 3;
             need1 = (if acc = 1 \<or> acc = 2 then UNVEIL_READ OR UNVEIL_WRITE else UNVEIL_READ);
             need2 = (if flags AND O_CREAT \<noteq> 0 then need1 OR UNVEIL_CREATE else need1)
         in unveil_check t path need2)
      else True)"

text \<open>\<^verbatim>\<open>sys_unveil\<close> after copying \<open>pathlen\<close> bytes from user memory; a NUL inside them ends the
  string.\<close>

definition sys_unveil ::
    "bool \<Rightarrow> unveil_table_t \<Rightarrow> string \<Rightarrow> u64 \<Rightarrow> unit result \<times> unveil_table_t" where
  "sys_unveil alloc_ok t raw perms =
     (if length raw = 0 \<or> UNVEIL_PATH_MAX \<le> length raw then (Inl EINVAL, t)
      else unveil_add alloc_ok t (takeWhile (\<lambda>c. of_char c \<noteq> (0::int)) raw) (ucast perms))"

section \<open>Specification\<close>

text \<open>\<open>e\<close> names \<open>p\<close> itself or a directory above it.\<close>

definition covers :: "string \<Rightarrow> string \<Rightarrow> bool" where
  "covers e p \<longleftrightarrow> p = e \<or> (\<exists>rest. p = e @ CHR ''/'' # rest)"

definition unveil_spec :: "unveil_entry_t list \<Rightarrow> string \<Rightarrow> u8 \<Rightarrow> bool" where
  "unveil_spec es path need =
     (es = [] \<or> (case find (\<lambda>e. covers (ue_path e) path) es of
                   None \<Rightarrow> False | Some e \<Rightarrow> ue_perms e AND need = need))"

definition unveil_wf :: "unveil_table_t \<Rightarrow> bool" where
  "unveil_wf t \<longleftrightarrow> length (ut_entries t) \<le> ut_cap t \<and>
     (\<forall>e \<in> set (ut_entries t). c_string (ue_path e) \<and> length (ue_path e) < UNVEIL_PATH_MAX)"

section \<open>Lemmas\<close>

lemma strncmp_loop_zero:
  assumes "c_string a" and "c_string b"
  shows "strncmp_loop a b i k = 0 \<longleftrightarrow> take k (drop i a) = take k (drop i b)"
proof (induction k arbitrary: i)
  case 0
  then show ?case by simp
next
  case (Suc k)
  show ?case
  proof (cases "i < length a \<and> i < length b")
    case True
    then have step: "take (Suc k) (drop i a) = a ! i # take k (drop (Suc i) a)"
      "take (Suc k) (drop i b) = b ! i # take k (drop (Suc i) b)"
      by (metis Cons_nth_drop_Suc take_Suc_Cons)+
    moreover have "c_at a i \<noteq> 0" "c_at a i = c_at b i \<longleftrightarrow> a ! i = b ! i"
      using True c_at_zero_iff [OF assms(1), of i] by (auto simp: c_at_def)
    ultimately show ?thesis
      using Suc.IH [of "Suc i"] unfolding step by auto
  next
    case False
    then consider "length a \<le> i" "length b \<le> i" | "length a \<le> i" "i < length b"
      | "i < length a" "length b \<le> i"
      by linarith
    then show ?thesis
      using c_at_zero_iff [OF assms(1), of i] c_at_zero_iff [OF assms(2), of i]
      by cases auto
  qed
qed

lemma s_strncmp_zero:
  "c_string a \<Longrightarrow> c_string b \<Longrightarrow> s_strncmp a b n = 0 \<longleftrightarrow> take n a = take n b"
  by (simp add: s_strncmp_def strncmp_loop_zero)

lemma s_strncmp_eq:
  assumes "c_string a" "c_string b" "length a < n" "length b < n"
  shows "s_strncmp a b n = 0 \<longleftrightarrow> a = b"
  using assms by (simp add: s_strncmp_zero)

lemma covers_iff:
  assumes "c_string p" and "c_string e"
  shows "covers e p \<longleftrightarrow> length e \<le> length p \<and> s_strncmp p e (length e) = 0 \<and>
    \<not> (length e < length p \<and> \<not> c_is p (length e) CHR ''/'')"
proof
  assume "covers e p"
  then show "length e \<le> length p \<and> s_strncmp p e (length e) = 0 \<and>
    \<not> (length e < length p \<and> \<not> c_is p (length e) CHR ''/'')"
    using assms by (auto simp: covers_def s_strncmp_zero c_is_def nth_append)
next
  assume r: "length e \<le> length p \<and> s_strncmp p e (length e) = 0 \<and>
    \<not> (length e < length p \<and> \<not> c_is p (length e) CHR ''/'')"
  then have p: "p = e @ drop (length e) p"
    using assms by (metis append_take_drop_id s_strncmp_zero take_all_iff order_refl)
  show "covers e p"
  proof (cases "length e < length p")
    case True
    then have "drop (length e) p = CHR ''/'' # drop (Suc (length e)) p"
      using r by (metis Cons_nth_drop_Suc c_is_def)
    with p show ?thesis by (metis covers_def)
  next
    case False
    then have "drop (length e) p = []"
      by simp
    with p show ?thesis by (metis append_Nil2 covers_def)
  qed
qed

lemma unveil_scan_find:
  assumes "c_string path" and "\<forall>e \<in> set es. c_string (ue_path e)"
  shows "unveil_scan es path need =
    (case find (\<lambda>e. covers (ue_path e) path) es of
       None \<Rightarrow> False | Some e \<Rightarrow> ue_perms e AND need = need)"
  using assms(2)
proof (induction es)
  case (Cons e es)
  then show ?case
    using covers_iff [OF assms(1), of "ue_path e"] by (auto simp: Let_def)
qed simp

lemma unveil_merge_wf:
  assumes "unveil_merge es path perms = Some es'"
  shows "map ue_path es' = map ue_path es"
  using assms by (induction es arbitrary: es') (auto split: if_splits)

lemma unveil_merge_length:
  "unveil_merge es path perms = Some es' \<Longrightarrow> length es' = length es"
  by (metis length_map unveil_merge_wf)

lemma path_props_transfer:
  assumes "map ue_path es' = map ue_path es"
  shows "(\<forall>e \<in> set es'. P (ue_path e)) \<longleftrightarrow> (\<forall>e \<in> set es. P (ue_path e))"
proof -
  have "ue_path ` set es' = ue_path ` set es"
    using assms by (metis list.set_map)
  then show ?thesis
    by (metis (no_types, lifting) image_iff)
qed

lemma unveil_add_wf:
  assumes "unveil_wf t" and "c_string path"
  shows "unveil_wf (snd (unveil_add ok t path perms))"
proof (cases "unveil_merge (ut_entries t) path perms")
  case None
  with assms show ?thesis
    by (auto simp: unveil_wf_def unveil_add_def s_strncpy_def Let_def)
next
  case (Some es)
  have "length es = length (ut_entries t)"
    using Some by (rule unveil_merge_length)
  moreover have "(\<forall>e \<in> set es. c_string (ue_path e) \<and> length (ue_path e) < UNVEIL_PATH_MAX) \<longleftrightarrow>
      (\<forall>e \<in> set (ut_entries t). c_string (ue_path e) \<and> length (ue_path e) < UNVEIL_PATH_MAX)"
    by (rule path_props_transfer [OF unveil_merge_wf [OF Some]])
  ultimately have "unveil_wf (t\<lparr>ut_entries := es\<rparr>)"
    using assms(1) by (simp add: unveil_wf_def)
  with Some assms(1) show ?thesis
    by (simp add: unveil_add_def)
qed

section \<open>Properties\<close>


definition demo_table :: unveil_table_t where
  "demo_table = \<lparr>ut_entries = [\<lparr>ue_path = ''/home/bob'', ue_perms = 1\<rparr>], ut_cap = 4,
     ut_locked = True\<rparr>"


text \<open>A locked table never changes. \<^verbatim>\<open>unveil_add\<close> (and so \<^verbatim>\<open>sys_unveil\<close>) on a locked table
  fails with \<open>EPERM\<close> and leaves it as it is, unless the path length alone is rejected first.\<close>

theorem unveil_locked_frozen:
  assumes "ut_locked t"
  shows "snd (sys_unveil ok t raw perms) = t \<and>
    (fst (sys_unveil ok t raw perms) = Inl EPERM \<or> fst (sys_unveil ok t raw perms) = Inl EINVAL)"
  using assms by (simp add: sys_unveil_def unveil_add_def)

theorem unveil_locked_frozen_witness:
  "ut_locked demo_table \<and> snd (sys_unveil True demo_table ''/etc'' 1) = demo_table \<and>
   fst (sys_unveil True demo_table ''/etc'' 1) = Inl EPERM"
proof -
  have h: "ut_locked demo_table"
    by (simp add: demo_table_def)
  with unveil_locked_frozen [OF h, of True "''/etc''" 1] show ?thesis
    by (simp add: sys_unveil_def unveil_add_def)
qed

text \<open>An entry for the root directory covers nothing below it. With the single entry
  \<open>/\<close>, every path \<open>/x...\<close> whose second character is not a slash is invisible, although
  \<open>/\<close> is a directory above it.\<close>

theorem unveil_root_hides_all:
  assumes "c_string (CHR ''/'' # ch # rest)" and "ch \<noteq> CHR ''/''"
  shows "unveil_check \<lparr>ut_entries = [\<lparr>ue_path = ''/'', ue_perms = p\<rparr>], ut_cap = cp, ut_locked = l\<rparr>
    (CHR ''/'' # ch # rest) need = False"
  using assms by (simp add: unveil_check_def Let_def c_is_def)

theorem unveil_root_hides_all_witness:
  "unveil_check \<lparr>ut_entries = [\<lparr>ue_path = ''/'', ue_perms = 15\<rparr>], ut_cap = 4, ut_locked = False\<rparr>
     ''/home'' 1 = False"
proof -
  have h: "c_string (CHR ''/'' # CHR ''h'' # ''ome'')" "CHR ''h'' \<noteq> CHR ''/''"
    by (simp_all add: c_string_def)
  from unveil_root_hides_all [OF h] show ?thesis
    by simp
qed

text \<open>The exemption for virtual file systems is a test of the first letters, not of a path
  component: any path that begins with \<open>/dev\<close> or \<open>/proc\<close> passes the check of
  \<^verbatim>\<open>sys_open\<close> on any table, for example \<open>/devil\<close>.\<close>

theorem unveil_exempt_by_letters:
  "sys_open_unveil t (''/dev'' @ rest) flags \<and> sys_open_unveil t (''/proc'' @ rest) flags"
  by (simp add: sys_open_unveil_def unveil_exempt_def c_is_def)

end
