(* ===== verification/Security_Pledge.thy ===== *)
theory Security_Pledge
  imports MakaOS_Prelude
begin

text \<open>
  Syscall-group restriction: \<^verbatim>\<open>kernel/security/pledge.h\<close>, the group table of
  \<^verbatim>\<open>kernel/security/pledge.c\<close>, and the enforcement at the head of \<^verbatim>\<open>syscall_dispatch\<close>
  in \<^verbatim>\<open>kernel/syscall/syscall.c\<close>. The handler table behind the gate is an argument.
\<close>

section \<open>System call numbers and groups\<close>

abbreviation (input) SYS_WRITE :: u64 where "SYS_WRITE \<equiv> 0"
abbreviation (input) SYS_EXIT :: u64 where "SYS_EXIT \<equiv> 1"
abbreviation (input) SYS_READ :: u64 where "SYS_READ \<equiv> 2"
abbreviation (input) SYS_OPEN :: u64 where "SYS_OPEN \<equiv> 3"
abbreviation (input) SYS_CLOSE :: u64 where "SYS_CLOSE \<equiv> 4"
abbreviation (input) SYS_BRK :: u64 where "SYS_BRK \<equiv> 5"
abbreviation (input) SYS_KILL :: u64 where "SYS_KILL \<equiv> 6"
abbreviation (input) SYS_FORK :: u64 where "SYS_FORK \<equiv> 7"
abbreviation (input) SYS_EXEC :: u64 where "SYS_EXEC \<equiv> 8"
abbreviation (input) SYS_WAIT :: u64 where "SYS_WAIT \<equiv> 9"
abbreviation (input) SYS_GETPID :: u64 where "SYS_GETPID \<equiv> 10"
abbreviation (input) SYS_READDIR :: u64 where "SYS_READDIR \<equiv> 11"
abbreviation (input) SYS_SPAWN :: u64 where "SYS_SPAWN \<equiv> 12"
abbreviation (input) SYS_THREAD :: u64 where "SYS_THREAD \<equiv> 13"
abbreviation (input) SYS_CLOCK_NS :: u64 where "SYS_CLOCK_NS \<equiv> 14"
abbreviation (input) SYS_STAT :: u64 where "SYS_STAT \<equiv> 15"
abbreviation (input) SYS_UNLINK :: u64 where "SYS_UNLINK \<equiv> 16"
abbreviation (input) SYS_RENAME :: u64 where "SYS_RENAME \<equiv> 17"
abbreviation (input) SYS_GETCWD :: u64 where "SYS_GETCWD \<equiv> 18"
abbreviation (input) SYS_CHDIR :: u64 where "SYS_CHDIR \<equiv> 19"
abbreviation (input) SYS_MKDIR :: u64 where "SYS_MKDIR \<equiv> 20"
abbreviation (input) SYS_LSEEK :: u64 where "SYS_LSEEK \<equiv> 21"
abbreviation (input) SYS_GETPPID :: u64 where "SYS_GETPPID \<equiv> 22"
abbreviation (input) SYS_DUP :: u64 where "SYS_DUP \<equiv> 23"
abbreviation (input) SYS_DUP2 :: u64 where "SYS_DUP2 \<equiv> 24"
abbreviation (input) SYS_PIPE :: u64 where "SYS_PIPE \<equiv> 25"
abbreviation (input) SYS_SIGACTION :: u64 where "SYS_SIGACTION \<equiv> 26"
abbreviation (input) SYS_SIGPROCMASK :: u64 where "SYS_SIGPROCMASK \<equiv> 27"
abbreviation (input) SYS_SIGRETURN :: u64 where "SYS_SIGRETURN \<equiv> 28"
abbreviation (input) SYS_MMAP :: u64 where "SYS_MMAP \<equiv> 29"
abbreviation (input) SYS_MUNMAP :: u64 where "SYS_MUNMAP \<equiv> 30"
abbreviation (input) SYS_NANOSLEEP :: u64 where "SYS_NANOSLEEP \<equiv> 31"
abbreviation (input) SYS_GETTOD :: u64 where "SYS_GETTOD \<equiv> 32"
abbreviation (input) SYS_FB_BLIT :: u64 where "SYS_FB_BLIT \<equiv> 33"
abbreviation (input) SYS_FB_INFO :: u64 where "SYS_FB_INFO \<equiv> 34"
abbreviation (input) SYS_SOCKET :: u64 where "SYS_SOCKET \<equiv> 35"
abbreviation (input) SYS_BIND :: u64 where "SYS_BIND \<equiv> 36"
abbreviation (input) SYS_LISTEN :: u64 where "SYS_LISTEN \<equiv> 37"
abbreviation (input) SYS_ACCEPT :: u64 where "SYS_ACCEPT \<equiv> 38"
abbreviation (input) SYS_CONNECT :: u64 where "SYS_CONNECT \<equiv> 39"
abbreviation (input) SYS_SENDTO :: u64 where "SYS_SENDTO \<equiv> 40"
abbreviation (input) SYS_RECVFROM :: u64 where "SYS_RECVFROM \<equiv> 41"
abbreviation (input) SYS_SETSOCKOPT :: u64 where "SYS_SETSOCKOPT \<equiv> 42"
abbreviation (input) SYS_SHUTDOWN :: u64 where "SYS_SHUTDOWN \<equiv> 43"
abbreviation (input) SYS_FCNTL :: u64 where "SYS_FCNTL \<equiv> 44"
abbreviation (input) SYS_FSTAT :: u64 where "SYS_FSTAT \<equiv> 45"
abbreviation (input) SYS_ACCESS :: u64 where "SYS_ACCESS \<equiv> 46"
abbreviation (input) SYS_UNAME :: u64 where "SYS_UNAME \<equiv> 47"
abbreviation (input) SYS_UMASK :: u64 where "SYS_UMASK \<equiv> 48"
abbreviation (input) SYS_GETUID :: u64 where "SYS_GETUID \<equiv> 49"
abbreviation (input) SYS_GETEUID :: u64 where "SYS_GETEUID \<equiv> 50"
abbreviation (input) SYS_GETGID :: u64 where "SYS_GETGID \<equiv> 51"
abbreviation (input) SYS_GETEGID :: u64 where "SYS_GETEGID \<equiv> 52"
abbreviation (input) SYS_GETGROUPS :: u64 where "SYS_GETGROUPS \<equiv> 53"
abbreviation (input) SYS_SETPGID :: u64 where "SYS_SETPGID \<equiv> 54"
abbreviation (input) SYS_GETPGID :: u64 where "SYS_GETPGID \<equiv> 55"
abbreviation (input) SYS_GETPGRP :: u64 where "SYS_GETPGRP \<equiv> 56"
abbreviation (input) SYS_SETSID :: u64 where "SYS_SETSID \<equiv> 57"
abbreviation (input) SYS_GETSID :: u64 where "SYS_GETSID \<equiv> 58"
abbreviation (input) SYS_IOCTL :: u64 where "SYS_IOCTL \<equiv> 59"
abbreviation (input) SYS_SELECT :: u64 where "SYS_SELECT \<equiv> 60"
abbreviation (input) SYS_POLL :: u64 where "SYS_POLL \<equiv> 61"
abbreviation (input) SYS_READLINK :: u64 where "SYS_READLINK \<equiv> 62"
abbreviation (input) SYS_SYMLINK :: u64 where "SYS_SYMLINK \<equiv> 63"
abbreviation (input) SYS_LINK :: u64 where "SYS_LINK \<equiv> 64"
abbreviation (input) SYS_CHMOD :: u64 where "SYS_CHMOD \<equiv> 65"
abbreviation (input) SYS_FCHMOD :: u64 where "SYS_FCHMOD \<equiv> 66"
abbreviation (input) SYS_CHOWN :: u64 where "SYS_CHOWN \<equiv> 67"
abbreviation (input) SYS_FCHOWN :: u64 where "SYS_FCHOWN \<equiv> 68"
abbreviation (input) SYS_TRUNCATE :: u64 where "SYS_TRUNCATE \<equiv> 69"
abbreviation (input) SYS_FTRUNCATE :: u64 where "SYS_FTRUNCATE \<equiv> 70"
abbreviation (input) SYS_TIMES :: u64 where "SYS_TIMES \<equiv> 71"
abbreviation (input) SYS_GETRUSAGE :: u64 where "SYS_GETRUSAGE \<equiv> 72"
abbreviation (input) SYS_TCGETPGRP :: u64 where "SYS_TCGETPGRP \<equiv> 73"
abbreviation (input) SYS_TCSETPGRP :: u64 where "SYS_TCSETPGRP \<equiv> 74"
abbreviation (input) SYS_REBOOT :: u64 where "SYS_REBOOT \<equiv> 75"
abbreviation (input) SYS_SETUID :: u64 where "SYS_SETUID \<equiv> 76"
abbreviation (input) SYS_PLEDGE :: u64 where "SYS_PLEDGE \<equiv> 83"
abbreviation (input) SYS_UNVEIL :: u64 where "SYS_UNVEIL \<equiv> 84"
abbreviation (input) SYS_SENDFD :: u64 where "SYS_SENDFD \<equiv> 87"
abbreviation (input) SYS_RECVFD :: u64 where "SYS_RECVFD \<equiv> 88"
abbreviation (input) SYS_SHM_OPEN :: u64 where "SYS_SHM_OPEN \<equiv> 90"
abbreviation (input) SYS_SHM_UNLINK :: u64 where "SYS_SHM_UNLINK \<equiv> 91"
abbreviation (input) SYS_FB_MAP :: u64 where "SYS_FB_MAP \<equiv> 92"
abbreviation (input) SYS_EPOLL_CREATE :: u64 where "SYS_EPOLL_CREATE \<equiv> 97"
abbreviation (input) SYS_EPOLL_CTL :: u64 where "SYS_EPOLL_CTL \<equiv> 98"
abbreviation (input) SYS_EPOLL_WAIT :: u64 where "SYS_EPOLL_WAIT \<equiv> 99"
abbreviation (input) SYS_IO_URING_SETUP :: u64 where "SYS_IO_URING_SETUP \<equiv> 101"
abbreviation (input) SYS_IO_URING_ENTER :: u64 where "SYS_IO_URING_ENTER \<equiv> 102"

abbreviation (input) PLEDGE_STDIO :: u32 where "PLEDGE_STDIO \<equiv> 0x1"
abbreviation (input) PLEDGE_RPATH :: u32 where "PLEDGE_RPATH \<equiv> 0x2"
abbreviation (input) PLEDGE_WPATH :: u32 where "PLEDGE_WPATH \<equiv> 0x4"
abbreviation (input) PLEDGE_CPATH :: u32 where "PLEDGE_CPATH \<equiv> 0x8"
abbreviation (input) PLEDGE_EXEC :: u32 where "PLEDGE_EXEC \<equiv> 0x10"
abbreviation (input) PLEDGE_PROC :: u32 where "PLEDGE_PROC \<equiv> 0x20"
abbreviation (input) PLEDGE_INET :: u32 where "PLEDGE_INET \<equiv> 0x40"
abbreviation (input) PLEDGE_UNIX :: u32 where "PLEDGE_UNIX \<equiv> 0x80"
abbreviation (input) PLEDGE_SIGNAL :: u32 where "PLEDGE_SIGNAL \<equiv> 0x100"
abbreviation (input) PLEDGE_THREAD :: u32 where "PLEDGE_THREAD \<equiv> 0x200"
abbreviation (input) PLEDGE_PROT_EXEC :: u32 where "PLEDGE_PROT_EXEC \<equiv> 0x400"
abbreviation (input) PLEDGE_SETUID :: u32 where "PLEDGE_SETUID \<equiv> 0x800"
abbreviation (input) PLEDGE_CHOWN :: u32 where "PLEDGE_CHOWN \<equiv> 0x1000"
abbreviation (input) PLEDGE_CHMOD :: u32 where "PLEDGE_CHMOD \<equiv> 0x2000"
abbreviation (input) PLEDGE_TTY :: u32 where "PLEDGE_TTY \<equiv> 0x4000"
abbreviation (input) PLEDGE_IOCTL :: u32 where "PLEDGE_IOCTL \<equiv> 0x8000"
abbreviation (input) PLEDGE_SENDFD :: u32 where "PLEDGE_SENDFD \<equiv> 0x10000"
abbreviation (input) PLEDGE_KSEC :: u32 where "PLEDGE_KSEC \<equiv> 0x20000"
abbreviation (input) PLEDGE_SHM :: u32 where "PLEDGE_SHM \<equiv> 0x40000"
abbreviation (input) PLEDGE_FRAMEBUF :: u32 where "PLEDGE_FRAMEBUF \<equiv> 0x80000"
abbreviation (input) PLEDGE_ALL :: u32 where "PLEDGE_ALL \<equiv> 0xFFFFFFFF"

definition pledge_restrict :: "u32 \<Rightarrow> u32 \<Rightarrow> u32" where
  "pledge_restrict current m = current AND m"

definition pledge_allowed :: "u32 \<Rightarrow> u32 \<Rightarrow> bool" where
  "pledge_allowed m g \<longleftrightarrow> m AND g \<noteq> 0"

text \<open>
  The switch works on \<^verbatim>\<open>(uint32_t)nr\<close>; \<open>n\<close> below is that truncation, widened back.
\<close>

definition pledge_group_for_syscall :: "u64 \<Rightarrow> u32" where
  "pledge_group_for_syscall nr =
     (let n = (ucast (ucast nr :: u32) :: u64)
      in if n \<in> {SYS_GETPID, SYS_GETPPID, SYS_CLOCK_NS, SYS_GETTOD, SYS_SIGRETURN,
           SYS_GETPGRP, SYS_GETSID, SYS_GETPGID} then 0
         else if n \<in> {SYS_READ, SYS_WRITE, SYS_CLOSE, SYS_FSTAT, SYS_LSEEK, SYS_DUP,
           SYS_DUP2, SYS_FCNTL, SYS_POLL, SYS_SELECT, SYS_EPOLL_CREATE,
           SYS_EPOLL_CTL, SYS_EPOLL_WAIT, SYS_NANOSLEEP, SYS_UNAME, SYS_UMASK,
           SYS_GETUID, SYS_GETEUID, SYS_GETGID, SYS_GETEGID, SYS_GETGROUPS,
           SYS_TIMES, SYS_GETRUSAGE} then PLEDGE_STDIO
         else if n \<in> {SYS_STAT, SYS_ACCESS, SYS_READDIR, SYS_READLINK, SYS_GETCWD} then PLEDGE_RPATH
         else if n \<in> {SYS_OPEN} then 0
         else if n \<in> {SYS_MKDIR, SYS_UNLINK, SYS_RENAME, SYS_SYMLINK, SYS_LINK,
           SYS_TRUNCATE, SYS_FTRUNCATE} then PLEDGE_CPATH
         else if n \<in> {SYS_EXEC, SYS_SPAWN} then PLEDGE_EXEC
         else if n \<in> {SYS_FORK, SYS_WAIT, SYS_KILL, SYS_SETPGID, SYS_SETSID, SYS_TCGETPGRP,
           SYS_TCSETPGRP} then PLEDGE_PROC
         else if n \<in> {SYS_SOCKET, SYS_BIND, SYS_LISTEN, SYS_ACCEPT, SYS_CONNECT,
           SYS_SENDTO, SYS_RECVFROM, SYS_SETSOCKOPT, SYS_SHUTDOWN} then PLEDGE_INET
         else if n \<in> {SYS_SIGACTION, SYS_SIGPROCMASK} then PLEDGE_SIGNAL
         else if n \<in> {SYS_THREAD} then PLEDGE_THREAD
         else if n \<in> {SYS_MMAP, SYS_MUNMAP} then 0
         else if n \<in> {SYS_CHMOD, SYS_FCHMOD} then PLEDGE_CHMOD
         else if n \<in> {SYS_CHOWN, SYS_FCHOWN} then PLEDGE_CHOWN
         else if n \<in> {SYS_IOCTL} then 0
         else if n \<in> {SYS_SHM_OPEN, SYS_SHM_UNLINK} then PLEDGE_SHM
         else if n \<in> {SYS_FB_BLIT, SYS_FB_INFO, SYS_FB_MAP} then PLEDGE_FRAMEBUF
         else if n \<in> {SYS_CHDIR} then PLEDGE_RPATH
         else if n \<in> {SYS_REBOOT} then 0
         else 0)"

section \<open>Dispatch\<close>

text \<open>
  The checks of \<^verbatim>\<open>syscall_dispatch\<close> in order; \<open>False\<close> means that \<^verbatim>\<open>SIGKILL\<close> is sent and no
  handler runs.
\<close>

definition pledge_gate :: "u32 \<Rightarrow> u64 \<Rightarrow> u64 \<Rightarrow> u64 \<Rightarrow> u64 \<Rightarrow> bool" where
  "pledge_gate m nr a1 a2 a3 =
     (if m \<noteq> PLEDGE_ALL then
        (let need = pledge_group_for_syscall nr
         in if need \<noteq> 0 \<and> \<not> pledge_allowed m need then False
            else if nr = SYS_OPEN \<and>
              (let acc = a2 AND 3; creat = (a2 AND 0x40 \<noteq> 0);
                   need_open = (if acc = 0 \<and> \<not> creat then PLEDGE_RPATH
                                else if creat then PLEDGE_CPATH else PLEDGE_WPATH)
               in \<not> pledge_allowed m need_open) then False
            else if nr = SYS_MMAP \<and> a3 AND 4 \<noteq> 0 \<and> \<not> pledge_allowed m PLEDGE_PROT_EXEC
              then False
            else if nr = SYS_SOCKET \<and>
              \<not> pledge_allowed m (if (ucast a1 :: u32) = 1 then PLEDGE_UNIX else PLEDGE_INET)
              then False
            else if nr = SYS_IOCTL \<and>
              \<not> pledge_allowed m (if a2 \<ge> 0x5400 \<and> a2 \<le> 0x54FF then PLEDGE_TTY else PLEDGE_IOCTL)
              then False
            else True)
      else True)"

datatype 'h dispatch = Kill | Nosys | Run 'h

text \<open>\<open>table\<close> is \<^verbatim>\<open>s_syscall_table\<close>, \<open>n\<close> its number of slots.\<close>

definition syscall_dispatch ::
    "nat \<Rightarrow> (nat \<Rightarrow> 'h option) \<Rightarrow> u32 \<Rightarrow> u64 \<Rightarrow> u64 \<Rightarrow> u64 \<Rightarrow> u64 \<Rightarrow> 'h dispatch" where
  "syscall_dispatch n table m nr a1 a2 a3 =
     (if \<not> pledge_gate m nr a1 a2 a3 then Kill
      else if unat nr < n then
        (case table (unat nr) of Some h \<Rightarrow> Run h | None \<Rightarrow> Nosys)
      else Nosys)"

definition sys_pledge :: "u32 \<Rightarrow> u64 \<Rightarrow> u32" where
  "sys_pledge current m = pledge_restrict current (ucast m)"

fun pledge_run :: "u32 \<Rightarrow> u64 list \<Rightarrow> u32" where
  "pledge_run m [] = m"
| "pledge_run m (x # xs) = pledge_run (sys_pledge m x) xs"

section \<open>Lemmas\<close>

lemma pledge_allowed_mono:
  assumes "mask_sub m m'" and "pledge_allowed m g"
  shows "pledge_allowed m' g"
proof -
  have "mask_sub (m AND g) (m' AND g)"
    using assms(1) by (auto simp: mask_sub_bits bit_and_iff)
  then show ?thesis
    using assms(2) by (auto simp: pledge_allowed_def mask_sub_def)
qed

lemma pledge_gate_iff:
  "pledge_gate m nr a1 a2 a3 \<longleftrightarrow> m = PLEDGE_ALL \<or>
     ((pledge_group_for_syscall nr \<noteq> 0 \<longrightarrow> pledge_allowed m (pledge_group_for_syscall nr)) \<and>
      (nr = SYS_OPEN \<longrightarrow> pledge_allowed m
         (if a2 AND 3 = 0 \<and> a2 AND 0x40 = 0 then PLEDGE_RPATH
          else if a2 AND 0x40 \<noteq> 0 then PLEDGE_CPATH else PLEDGE_WPATH)) \<and>
      (nr = SYS_MMAP \<longrightarrow> a3 AND 4 \<noteq> 0 \<longrightarrow> pledge_allowed m PLEDGE_PROT_EXEC) \<and>
      (nr = SYS_SOCKET \<longrightarrow>
         pledge_allowed m (if (ucast a1 :: u32) = 1 then PLEDGE_UNIX else PLEDGE_INET)) \<and>
      (nr = SYS_IOCTL \<longrightarrow>
         pledge_allowed m (if a2 \<ge> 0x5400 \<and> a2 \<le> 0x54FF then PLEDGE_TTY else PLEDGE_IOCTL)))"
  unfolding pledge_gate_def Let_def by (auto split: if_splits)

lemma pledge_run_sub: "mask_sub (pledge_run m xs) m"
proof (induction xs arbitrary: m)
  case (Cons x xs)
  have "mask_sub (sys_pledge m x) m"
    by (simp add: sys_pledge_def pledge_restrict_def)
  then show ?case
    using mask_sub_trans [OF Cons.IH] by simp
qed simp

lemma pledge_gate_mono:
  assumes "mask_sub m m'" and "pledge_gate m nr a1 a2 a3"
  shows "pledge_gate m' nr a1 a2 a3"
proof (cases "m = PLEDGE_ALL")
  case True
  have "mask_sub m' m"
    unfolding True mask_sub_def by (rule and_all_ones32)
  then have "m' = m"
    using assms(1) by (metis mask_sub_antisym)
  with True show ?thesis
    by (simp add: pledge_gate_def)
next
  case False
  then show ?thesis
    using assms(2) pledge_allowed_mono [OF assms(1)] unfolding pledge_gate_iff by blast
qed

section \<open>Properties\<close>

text \<open>C30: Pledges are irrevocable. After any further \<^verbatim>\<open>pledge\<close> calls the mask has only lost bits,
  and a system call (with given arguments) that the gate killed before stays killed.\<close>

theorem pledge_irrevocable:
  "mask_sub (pledge_run m xs) m \<and>
   (syscall_dispatch n table m nr a1 a2 a3 = Kill \<longrightarrow>
      syscall_dispatch n table (pledge_run m xs) nr a1 a2 a3 = Kill)"
  using pledge_run_sub [of m xs] pledge_gate_mono [of "pledge_run m xs" m nr a1 a2 a3]
  by (auto simp: syscall_dispatch_def split: option.splits)

theorem pledge_irrevocable_witness:
  "syscall_dispatch 117 (\<lambda>_. Some ()) 1 SYS_FORK 0 0 0 = Kill \<and>
   syscall_dispatch 117 (\<lambda>_. Some ()) (pledge_run 1 [0xFFFFFFFF]) SYS_FORK 0 0 0 = Kill"
proof -
  have h: "syscall_dispatch 117 (\<lambda>_. Some ()) 1 SYS_FORK 0 0 0 = Kill"
    by (simp add: syscall_dispatch_def pledge_gate_def pledge_group_for_syscall_def
        pledge_allowed_def)
  with pledge_irrevocable [of 1 "[0xFFFFFFFF]" 117 "\<lambda>_. Some ()" SYS_FORK 0 0 0] show ?thesis
    by blast
qed

text \<open>No handler of a pledged process runs without its group. If dispatch reaches a handler,
  the number indexes the table, and the group the table of \<^verbatim>\<open>pledge.c\<close> assigns to that
  number (the 32-bit truncation included) is zero or in the mask.\<close>

theorem dispatch_respects_pledge:
  assumes "syscall_dispatch n table m nr a1 a2 a3 = Run h" and "m \<noteq> PLEDGE_ALL"
  shows "unat nr < n \<and> table (unat nr) = Some h \<and>
    (pledge_group_for_syscall nr = 0 \<or> pledge_allowed m (pledge_group_for_syscall nr))"
  using assms
  by (auto simp: syscall_dispatch_def pledge_gate_iff split: if_splits option.splits)

theorem dispatch_respects_pledge_witness:
  "syscall_dispatch 117 (\<lambda>i. Some i) 1 SYS_READ 0 0 0 = Run 2 \<and>
   (pledge_group_for_syscall SYS_READ = 0 \<or> pledge_allowed 1 (pledge_group_for_syscall SYS_READ))"
proof -
  have h: "syscall_dispatch 117 (\<lambda>i. Some i) 1 SYS_READ 0 0 0 = Run 2" "(1::u32) \<noteq> PLEDGE_ALL"
    by (simp_all add: syscall_dispatch_def pledge_gate_def pledge_group_for_syscall_def
        pledge_allowed_def)
  with dispatch_respects_pledge [OF h] show ?thesis
    by blast
qed

text \<open>A process that pledged away everything still passes the gate for the calls that
  \<^verbatim>\<open>pledge.h\<close> assigns to the groups SETUID, SENDFD and KSEC, and for \<^verbatim>\<open>io_uring_enter\<close>,
  whose operations open and read files: the group table has no entry for them.\<close>

theorem pledge_ungated_calls:
  "nr \<in> {76, 77, 78, 79, 80, 81, 82, SYS_SENDFD, SYS_RECVFD, 89, SYS_IO_URING_SETUP,
     SYS_IO_URING_ENTER} \<Longrightarrow> pledge_gate 0 nr a1 a2 a3"
  by (elim insertE emptyE) (simp_all add: pledge_gate_def pledge_group_for_syscall_def)

theorem pledge_ungated_calls_witness: "pledge_gate 0 SYS_IO_URING_ENTER 5 1 0"
  by (rule pledge_ungated_calls) simp

text \<open>The group table puts \<^verbatim>\<open>socket\<close> under INET before the address family is looked at, so
  opening an AF_UNIX socket needs both groups; the UNIX group alone is not enough.\<close>

theorem pledge_unix_socket_needs_inet:
  "pledge_gate m SYS_SOCKET 1 a2 a3 \<longleftrightarrow>
     m = PLEDGE_ALL \<or> (pledge_allowed m PLEDGE_INET \<and> pledge_allowed m PLEDGE_UNIX)"
  by (simp add: pledge_gate_iff pledge_group_for_syscall_def)

end
