(* ===== verification/Security_Process.thy ===== *)
theory Security_Process
  imports Security_Cred Security_Pledge Security_Unveil
begin

text \<open>
  How the security state of a task is handed on: \<^verbatim>\<open>fork\<close> (\<^verbatim>\<open>kernel/proc/process.c\<close>), thread
  creation, \<^verbatim>\<open>exec\<close> and \<^verbatim>\<open>spawn\<close> (\<^verbatim>\<open>kernel/syscall/syscall.c\<close>, \<^verbatim>\<open>kernel/proc/elf.c\<close>). Only the
  four fields of \<^verbatim>\<open>task_t\<close> that carry authority are kept. A new task structure is the argument
  \<open>slot\<close> (its memory is not cleared); success of \<^verbatim>\<open>kmalloc\<close> and of the user-memory checks are
  arguments too.
\<close>

section \<open>Inheritance\<close>

record task_sec =
  ts_cred :: cred_t
  ts_pledge :: u32
  ts_unveil :: unveil_table_t
  ts_umask :: u16

definition fork_sec :: "bool \<Rightarrow> task_sec \<Rightarrow> task_sec \<Rightarrow> task_sec" where
  "fork_sec alloc_ok slot parent =
     slot\<lparr>ts_umask := ts_umask parent,
          ts_cred := cred_copy (ts_cred slot) (ts_cred parent),
          ts_pledge := ts_pledge parent,
          ts_unveil := snd (unveil_copy alloc_ok (ts_unveil parent))\<rparr>"

definition thread_sec :: "bool \<Rightarrow> task_sec \<Rightarrow> task_sec \<Rightarrow> task_sec" where
  "thread_sec alloc_ok slot parent =
     slot\<lparr>ts_umask := ts_umask parent,
          ts_cred := ts_cred parent,
          ts_pledge := ts_pledge parent,
          ts_unveil := snd (unveil_copy alloc_ok (ts_unveil parent))\<rparr>"

text \<open>\<^verbatim>\<open>elf_load_with_argv\<close>; \<open>parent\<close> is \<open>None\<close> when there is no current process.\<close>

definition elf_load_sec :: "task_sec \<Rightarrow> task_sec option \<Rightarrow> task_sec" where
  "elf_load_sec slot parent =
     slot\<lparr>ts_umask := 18,
          ts_cred := (case parent of
             Some p \<Rightarrow> cred_copy (ts_cred slot) (ts_cred p)
           | None \<Rightarrow> cred_init_root (ts_cred slot)),
          ts_pledge := PLEDGE_ALL,
          ts_unveil := unveil_init\<rparr>"

section \<open>Spawn attributes\<close>

abbreviation (input) SPAWN_ATTR_CRED :: u32 where "SPAWN_ATTR_CRED \<equiv> 1"
abbreviation (input) SPAWN_ATTR_UMASK :: u32 where "SPAWN_ATTR_UMASK \<equiv> 2"
abbreviation (input) SPAWN_ATTR_PLEDGE :: u32 where "SPAWN_ATTR_PLEDGE \<equiv> 4"
abbreviation (input) SPAWN_ATTR_UNVEIL :: u32 where "SPAWN_ATTR_UNVEIL \<equiv> 8"

text \<open>The entry array and its count are the list \<open>sa_unveil\<close>; \<open>[]\<close> stands for a zero count or a
  null pointer.\<close>

record spawn_attr_t =
  sa_flags :: u32
  sa_uid :: u32
  sa_gid :: u32
  sa_umask :: u32
  sa_pledge_mask :: u32
  sa_unveil :: "(string \<times> u8) list"

fun unveil_add_all ::
    "bool list \<Rightarrow> unveil_table_t \<Rightarrow> (string \<times> u8) list \<Rightarrow> unveil_table_t" where
  "unveil_add_all oks t [] = t"
| "unveil_add_all oks t ((p, m) # es) =
     unveil_add_all (tl oks) (snd (unveil_add (oks \<noteq> [] \<and> hd oks) t p m)) es"

definition spawn_cred :: "spawn_attr_t \<Rightarrow> task_sec \<Rightarrow> task_sec" where
  "spawn_cred a child =
     (if sa_flags a AND SPAWN_ATTR_CRED \<noteq> 0
      then child\<lparr>ts_cred := (ts_cred child)\<lparr>ruid := sa_uid a, euid := sa_uid a, suid := sa_uid a,
                                        rgid := sa_gid a, egid := sa_gid a, sgid := sa_gid a\<rparr>\<rparr>
      else child)"

definition spawn_umask :: "spawn_attr_t \<Rightarrow> task_sec \<Rightarrow> task_sec" where
  "spawn_umask a child =
     (if sa_flags a AND SPAWN_ATTR_UMASK \<noteq> 0
      then child\<lparr>ts_umask := ucast (sa_umask a AND 511)\<rparr> else child)"

definition spawn_pledge :: "task_sec \<Rightarrow> spawn_attr_t \<Rightarrow> task_sec \<Rightarrow> task_sec" where
  "spawn_pledge parent a child =
     (if sa_flags a AND SPAWN_ATTR_PLEDGE \<noteq> 0
      then child\<lparr>ts_pledge := pledge_restrict (ts_pledge parent) (sa_pledge_mask a)\<rparr>
      else child)"

text \<open>\<open>copied\<close>: the array is readable user memory and the kernel buffer for it was allocated.\<close>

definition spawn_unveil :: "bool \<Rightarrow> bool list \<Rightarrow> spawn_attr_t \<Rightarrow> task_sec \<Rightarrow> task_sec" where
  "spawn_unveil copied oks a child =
     (if sa_flags a AND SPAWN_ATTR_UNVEIL \<noteq> 0 \<and> sa_unveil a \<noteq> [] then
        (if \<not> copied then child
         else child\<lparr>ts_unveil := unveil_lock (unveil_add_all oks unveil_init (sa_unveil a))\<rparr>)
      else child)"

definition apply_spawn_attr ::
    "bool \<Rightarrow> bool \<Rightarrow> bool list \<Rightarrow> task_sec \<Rightarrow> spawn_attr_t option \<Rightarrow> task_sec \<Rightarrow> task_sec" where
  "apply_spawn_attr attr_ok copied oks parent attr child =
     (case attr of
        None \<Rightarrow> child
      | Some a \<Rightarrow>
          if \<not> attr_ok then child
          else spawn_unveil copied oks a (spawn_pledge parent a (spawn_umask a (spawn_cred a child))))"

definition spawn_sec ::
    "bool \<Rightarrow> bool \<Rightarrow> bool list \<Rightarrow> task_sec \<Rightarrow> task_sec \<Rightarrow> spawn_attr_t option \<Rightarrow> task_sec" where
  "spawn_sec attr_ok copied oks slot parent attr =
     apply_spawn_attr attr_ok copied oks parent attr (elf_load_sec slot (Some parent))"

section \<open>Lineages\<close>

text \<open>
  One step of a lineage: a system call of the task itself, or the passage to a child. \<open>exec\<close>
  changes none of the fields. Spawning is kept apart.
\<close>

inductive sec_step :: "task_sec \<Rightarrow> task_sec \<Rightarrow> bool" where
  sec_pledge: "sec_step t (t\<lparr>ts_pledge := sys_pledge (ts_pledge t) m\<rparr>)"
| sec_unveil: "sec_step t (t\<lparr>ts_unveil := snd (sys_unveil ok (ts_unveil t) raw perms)\<rparr>)"
| sec_lock: "sec_step t (t\<lparr>ts_unveil := unveil_lock (ts_unveil t)\<rparr>)"
| sec_cred: "sec_step t (t\<lparr>ts_cred := c\<rparr>)"
| sec_fork: "sec_step t (fork_sec True slot t)"
| sec_thread: "sec_step t (thread_sec True slot t)"

inductive_cases sec_stepE: "sec_step t t'"

inductive lineage :: "task_sec \<Rightarrow> task_sec \<Rightarrow> bool" where
  lineage_refl: "lineage t t"
| lineage_step: "lineage t u \<Longrightarrow> sec_step u v \<Longrightarrow> lineage t v"

section \<open>Lemmas\<close>

lemma unveil_copy_entries:
  "ut_entries (snd (unveil_copy True t)) = ut_entries t"
  "ut_locked (snd (unveil_copy ok t)) = ut_locked t"
  by (auto simp: unveil_copy_def Let_def)

lemma unveil_add_locked: "ut_locked t \<Longrightarrow> snd (unveil_add ok t p m) = t"
  by (simp add: unveil_add_def)

lemma sys_unveil_locked: "ut_locked t \<Longrightarrow> snd (sys_unveil ok t raw perms) = t"
  by (simp add: sys_unveil_def unveil_add_locked)

lemma sec_step_pledge: "sec_step t u \<Longrightarrow> mask_sub (ts_pledge u) (ts_pledge t)"
  by (erule sec_stepE)
    (simp_all add: sys_pledge_def pledge_restrict_def fork_sec_def thread_sec_def)

lemma sec_step_unveil:
  assumes "sec_step t u" and "ut_locked (ts_unveil t)"
  shows "ut_locked (ts_unveil u) \<and> ut_entries (ts_unveil u) = ut_entries (ts_unveil t)"
  using assms
  by (cases rule: sec_step.cases)
    (simp_all add: sys_unveil_locked unveil_lock_def fork_sec_def thread_sec_def
      unveil_copy_entries)

lemma lineage_pledge: "lineage t u \<Longrightarrow> mask_sub (ts_pledge u) (ts_pledge t)"
  by (induction rule: lineage.induct) (auto intro: mask_sub_trans sec_step_pledge)

lemma lineage_unveil:
  "lineage t u \<Longrightarrow> ut_locked (ts_unveil t) \<Longrightarrow>
     ut_locked (ts_unveil u) \<and> ut_entries (ts_unveil u) = ut_entries (ts_unveil t)"
  by (induction rule: lineage.induct) (auto dest: sec_step_unveil)

lemma unveil_check_entries:
  "ut_entries t = ut_entries t' \<Longrightarrow> unveil_check t p n = unveil_check t' p n"
  by (simp add: unveil_check_def)

section \<open>Properties\<close>


definition demo_task :: task_sec where
  "demo_task = \<lparr>ts_cred = \<lparr>ruid = 1000, euid = 1000, suid = 1000, rgid = 1000, egid = 1000,
     sgid = 1000, supplemental = replicate 32 0, ngroups = 0\<rparr>, ts_pledge = 0x31,
     ts_unveil = demo_table, ts_umask = 18\<rparr>"



text \<open>\<^verbatim>\<open>SPAWN_ATTR_CRED\<close> is applied with no privilege check: any task obtains a child with the
  real, effective and saved uid it names, root included.\<close>

theorem spawn_attr_cred_unchecked:
  "let child = spawn_sec True copied oks slot parent
        (Some \<lparr>sa_flags = SPAWN_ATTR_CRED, sa_uid = u, sa_gid = g, sa_umask = 0,
               sa_pledge_mask = 0, sa_unveil = []\<rparr>)
   in ruid (ts_cred child) = u \<and> euid (ts_cred child) = u \<and> suid (ts_cred child) = u \<and>
      (cred_is_root (ts_cred child) \<longleftrightarrow> u = 0)"
  by (simp add: spawn_sec_def apply_spawn_attr_def spawn_cred_def spawn_umask_def spawn_pledge_def
      spawn_unveil_def elf_load_sec_def cred_is_root_def)

text \<open>A fork whose table copy fails to allocate goes on with an empty table: the child of a
  task with a locked view sees every path, and cannot add entries.\<close>

theorem fork_oom_unveils_all:
  assumes "ut_entries (ts_unveil parent) \<noteq> []" and "ut_locked (ts_unveil parent)"
  shows "unveil_check (ts_unveil (fork_sec False slot parent)) path need \<and>
    snd (sys_unveil ok (ts_unveil (fork_sec False slot parent)) raw perms) =
      ts_unveil (fork_sec False slot parent)"
  using assms
  by (simp add: fork_sec_def unveil_copy_def Let_def unveil_check_def sys_unveil_locked)

theorem fork_oom_unveils_all_witness:
  "\<not> unveil_check (ts_unveil demo_task) ''/etc'' 1 \<and>
   unveil_check (ts_unveil (fork_sec False demo_task demo_task)) ''/etc'' 1"
proof -
  have h: "ut_entries (ts_unveil demo_task) \<noteq> []" "ut_locked (ts_unveil demo_task)"
    by (simp_all add: demo_task_def demo_table_def)
  have "\<not> unveil_check (ts_unveil demo_task) ''/etc'' 1"
    by code_simp
  with fork_oom_unveils_all [OF h] show ?thesis
    by blast
qed

end
