(* ===== verification/Fifo_Spec.thy ===== *)
theory Fifo_Spec
  imports MakaOS_Prelude
begin

text \<open>
  The contract of a bounded byte queue, and the arithmetic of power-of-two ring buffers that
  meets it. The pipe buffer, the terminal read buffer and the pty master buffer of the kernel are
  three rings with different bookkeeping; each interprets the locale \<open>bounded_fifo\<close> in its own
  theory.
\<close>

section \<open>The contract\<close>

datatype 'a fifo_op = Push 'a | Pop

text \<open>Runs of operations: the popped elements and the final state.\<close>

fun fifo_run ::
    "('s \<Rightarrow> 'a \<Rightarrow> 's) \<Rightarrow> ('s \<Rightarrow> 'a \<times> 's) \<Rightarrow> 's \<Rightarrow> 'a fifo_op list \<Rightarrow> 'a list \<times> 's" where
  "fifo_run push pop s [] = ([], s)"
| "fifo_run push pop s (Push x # xs) = fifo_run push pop (push s x) xs"
| "fifo_run push pop s (Pop # xs) =
     (let (x, s') = pop s; (ys, s'') = fifo_run push pop s' xs in (x # ys, s''))"

fun pushed :: "'a fifo_op list \<Rightarrow> 'a list" where
  "pushed [] = []"
| "pushed (Push x # xs) = x # pushed xs"
| "pushed (Pop # xs) = pushed xs"

text \<open>Legal at fill level \<open>n\<close> of a queue with room for \<open>cap\<close> elements.\<close>

fun legal :: "nat \<Rightarrow> nat \<Rightarrow> 'a fifo_op list \<Rightarrow> bool" where
  "legal cap n [] = True"
| "legal cap n (Push x # xs) = (n < cap \<and> legal cap (Suc n) xs)"
| "legal cap n (Pop # xs) = (0 < n \<and> legal cap (n - 1) xs)"

locale bounded_fifo =
  fixes push :: "'s \<Rightarrow> 'a \<Rightarrow> 's"
    and pop :: "'s \<Rightarrow> 'a \<times> 's"
    and cap :: nat
    and contents :: "'s \<Rightarrow> 'a list"
    and inv :: "'s \<Rightarrow> bool"
  assumes bound: "inv s \<Longrightarrow> length (contents s) \<le> cap"
    and push_inv: "inv s \<Longrightarrow> length (contents s) < cap \<Longrightarrow> inv (push s x)"
    and push_contents:
      "inv s \<Longrightarrow> length (contents s) < cap \<Longrightarrow> contents (push s x) = contents s @ [x]"
    and pop_inv: "inv s \<Longrightarrow> contents s \<noteq> [] \<Longrightarrow> inv (snd (pop s))"
    and pop_contents:
      "inv s \<Longrightarrow> contents s \<noteq> [] \<Longrightarrow> contents s = fst (pop s) # contents (snd (pop s))"
begin

text \<open>First in, first out: what came out and what is left is what was there and what went in.\<close>

lemma run_fifo:
  assumes "inv s" and "legal cap (length (contents s)) ops"
  shows "inv (snd (fifo_run push pop s ops)) \<and>
    fst (fifo_run push pop s ops) @ contents (snd (fifo_run push pop s ops)) =
      contents s @ pushed ops"
  using assms
proof (induction ops arbitrary: s)
  case Nil
  then show ?case by simp
next
  case (Cons op ops)
  show ?case
  proof (cases op)
    case (Push x)
    then show ?thesis
      using Cons push_inv [of s x] push_contents [of s x] by simp
  next
    case Pop
    then have ne: "contents s \<noteq> []"
      using Cons.prems(2) by auto
    have c: "contents s = fst (pop s) # contents (snd (pop s))"
      using pop_contents [OF Cons.prems(1) ne] .
    then have "length (contents s) - 1 = length (contents (snd (pop s)))"
      by (metis length_Cons diff_Suc_1)
    then show ?thesis
      using Cons.IH [OF pop_inv [OF Cons.prems(1) ne]] Cons.prems(2) Pop c
      by (auto simp: case_prod_unfold Let_def)
  qed
qed

lemma run_pushes:
  assumes "inv s" and "length (contents s) + length xs \<le> cap"
  shows "inv (foldl push s xs) \<and> contents (foldl push s xs) = contents s @ xs"
  using assms
proof (induction xs arbitrary: s)
  case (Cons x xs)
  then show ?case
    using push_inv [of s x] push_contents [of s x] by simp
qed simp

end

section \<open>Ring buffers\<close>

text \<open>The \<open>n\<close> elements of the ring of size \<open>N\<close> that start at index \<open>h\<close>.\<close>

definition ring_contents :: "nat \<Rightarrow> 'a list \<Rightarrow> nat \<Rightarrow> nat \<Rightarrow> 'a list" where
  "ring_contents N buf h n = map (\<lambda>k. buf ! ((h + k) mod N)) [0..<n]"

lemma length_ring_contents [simp]: "length (ring_contents N buf h n) = n"
  by (simp add: ring_contents_def)

lemma ring_contents_0 [simp]: "ring_contents N buf h 0 = []"
  by (simp add: ring_contents_def)

lemma ring_contents_eq_Nil [simp]: "ring_contents N buf h n = [] \<longleftrightarrow> n = 0"
  by (simp add: ring_contents_def)

lemma mod_shift_neq:
  assumes "k < n" and "n < (N :: nat)"
  shows "(h + k) mod N \<noteq> (h + n) mod N"
proof
  assume "(h + k) mod N = (h + n) mod N"
  then have "N dvd (h + n) - (h + k)"
    using assms(1) by (intro mod_eq_dvd_iff_nat [THEN iffD1]) simp_all
  then have "N \<le> n - k"
    using assms(1) by (intro dvd_imp_le) simp_all
  with assms show False
    by linarith
qed

lemma ring_update_outside:
  assumes "n < N" and "t = (h + n) mod N"
  shows "ring_contents N (buf[t := x]) h n = ring_contents N buf h n"
proof -
  have "buf[t := x] ! ((h + k) mod N) = buf ! ((h + k) mod N)" if "k < n" for k
    using mod_shift_neq [OF that assms(1), of h] assms(2) by simp
  then show ?thesis
    by (simp add: ring_contents_def)
qed

lemma ring_push:
  assumes "length buf = N" and "n < N" and "t = (h + n) mod N"
  shows "ring_contents N (buf[t := x]) h (Suc n) = ring_contents N buf h n @ [x]"
proof -
  have "t < length buf"
    using assms by simp
  then have "buf[t := x] ! ((h + n) mod N) = x"
    using assms(3) by simp
  then show ?thesis
    using ring_update_outside [OF assms(2,3), of buf x] by (simp add: ring_contents_def)
qed

lemma ring_pop:
  assumes "0 < n" and "h < N"
  shows "ring_contents N buf h n = buf ! h # ring_contents N buf ((h + 1) mod N) (n - 1)"
proof (rule nth_equalityI)
  show "length (ring_contents N buf h n) =
      length (buf ! h # ring_contents N buf ((h + 1) mod N) (n - 1))"
    using assms by simp
next
  fix i
  assume "i < length (ring_contents N buf h n)"
  then have i: "i < n" by simp
  show "ring_contents N buf h n ! i =
      (buf ! h # ring_contents N buf ((h + 1) mod N) (n - 1)) ! i"
  proof (cases i)
    case 0
    then show ?thesis
      using assms by (simp add: ring_contents_def)
  next
    case (Suc j)
    have "(Suc h mod N + j) mod N = Suc (h + j) mod N"
      by (metis mod_add_left_eq add_Suc)
    with Suc show ?thesis
      using i by (simp add: ring_contents_def nth_upt less_diff_conv)
  qed
qed

lemma ring_index_pop:
  assumes "0 < (c :: nat)"
  shows "((h + 1) mod N + (c - 1)) mod N = (h + c) mod N"
proof -
  have "((h + 1) mod N + (c - 1)) mod N = (h + 1 + (c - 1)) mod N"
    by (rule mod_add_left_eq)
  with assms show ?thesis
    by simp
qed

text \<open>Rings without a counter: the fill level between head \<open>h\<close> and tail \<open>t\<close>. One slot stays free.\<close>

definition ring_fill :: "nat \<Rightarrow> nat \<Rightarrow> nat \<Rightarrow> nat" where
  "ring_fill N h t = (t + N - h) mod N"

lemma ring_fill_cases:
  assumes "h < N" and "t < N"
  shows "ring_fill N h t = (if h \<le> t then t - h else t + N - h)"
  using assms by (auto simp: ring_fill_def mod_if)

lemma ring_step_cases: "(i :: nat) < N \<Longrightarrow> (i + 1) mod N = (if i + 1 = N then 0 else i + 1)"
  by (cases "i + 1 = N") simp_all

lemma ring_fill_facts:
  assumes "h < N" and "t < N"
  shows "ring_fill N h t < N" and "(h + ring_fill N h t) mod N = t"
    and "ring_fill N h t = 0 \<longleftrightarrow> h = t"
    and "(t + 1) mod N \<noteq> h \<longleftrightarrow> ring_fill N h t < N - 1"
    and "(t + 1) mod N \<noteq> h \<Longrightarrow> ring_fill N h ((t + 1) mod N) = Suc (ring_fill N h t)"
    and "h \<noteq> t \<Longrightarrow> ring_fill N ((h + 1) mod N) t = ring_fill N h t - 1"
proof -
  have m: "(i + 1) mod N < N" for i
    using assms by simp
  note simps = ring_fill_cases [OF assms] ring_fill_cases [OF assms(1) m]
    ring_fill_cases [OF m assms(2)] ring_step_cases [OF assms(1)] ring_step_cases [OF assms(2)]
  show "ring_fill N h t < N"
    using assms by (auto simp: simps)
  show "(h + ring_fill N h t) mod N = t"
    using assms by (auto simp: simps mod_if)
  show "ring_fill N h t = 0 \<longleftrightarrow> h = t"
    using assms by (auto simp: simps)
  show "(t + 1) mod N \<noteq> h \<longleftrightarrow> ring_fill N h t < N - 1"
    using assms unfolding simps by auto
  show "(t + 1) mod N \<noteq> h \<Longrightarrow> ring_fill N h ((t + 1) mod N) = Suc (ring_fill N h t)"
    using assms ring_fill_cases [OF assms(1), of "if t + 1 = N then 0 else t + 1"]
    unfolding simps by (auto split: if_splits)
  show "h \<noteq> t \<Longrightarrow> ring_fill N ((h + 1) mod N) t = ring_fill N h t - 1"
    using assms ring_fill_cases [OF _ assms(2), of "if h + 1 = N then 0 else h + 1"]
    unfolding simps by (auto split: if_splits)
qed

text \<open>Stepping an index by the mask of a power of two.\<close>

lemma unat_and_mask:
  "unat ((w :: 'a::len word) AND mask k) = unat w mod 2 ^ k"
  by (simp add: take_bit_eq_mask [symmetric] unsigned_take_bit_eq take_bit_nat_def)

lemma unat_ring_step:
  assumes "unat (i :: u32) < 2 ^ k" and "k < 32" and "m = mask k"
  shows "unat ((i + 1) AND m) = (unat i + 1) mod 2 ^ k"
proof -
  have "(2 :: nat) ^ k < 2 ^ 32"
    using assms(2) by (rule power_strict_increasing) simp
  then have "unat (i + 1) = unat i + 1"
    using assms(1) by (intro unat_add_lem [THEN iffD1, THEN trans]) simp_all
  then show ?thesis
    by (simp add: assms(3) unat_and_mask)
qed

end
