(* ===== verification/Pipe.thy ===== *)
theory Pipe
  imports Fifo_Spec
begin

text \<open>
  Pipes: \<^verbatim>\<open>kernel/fs/pipe.c\<close>. The buffer is the C struct (indices kept as 32-bit words); the
  loops of \<^verbatim>\<open>pipe_read\<close> and \<^verbatim>\<open>pipe_write\<close> are split into one iteration and its repetition, so
  that threads can be interleaved between iterations. A thread that sleeps in
  \<^verbatim>\<open>WAIT_EVENT_HOOK\<close> stays asleep until \<^verbatim>\<open>wait_queue_wake_all\<close> on its queue or a signal.
\<close>

section \<open>The buffer\<close>

abbreviation (input) PIPE_BUF_SIZE :: nat where "PIPE_BUF_SIZE \<equiv> 4096"

record pipe_buf_t =
  pb_buf :: "u8 list"
  pb_head :: u32
  pb_tail :: u32
  pb_count :: u32
  pb_writer_refs :: u8
  pb_reader_refs :: u8

definition pipe_push :: "pipe_buf_t \<Rightarrow> u8 \<Rightarrow> pipe_buf_t" where
  "pipe_push p b = p\<lparr>pb_buf := (pb_buf p)[unat (pb_tail p) := b],
     pb_tail := (pb_tail p + 1) AND (4096 - 1), pb_count := pb_count p + 1\<rparr>"

definition pipe_pop :: "pipe_buf_t \<Rightarrow> u8 \<times> pipe_buf_t" where
  "pipe_pop p = (pb_buf p ! unat (pb_head p),
     p\<lparr>pb_head := (pb_head p + 1) AND (4096 - 1), pb_count := pb_count p - 1\<rparr>)"

definition pipe_init :: pipe_buf_t where
  "pipe_init = \<lparr>pb_buf = replicate PIPE_BUF_SIZE 0, pb_head = 0, pb_tail = 0, pb_count = 0,
     pb_writer_refs = 1, pb_reader_refs = 1\<rparr>"

text \<open>\<^verbatim>\<open>pipe_create\<close>: the three allocations may fail; the files only carry the callbacks.\<close>

definition pipe_create :: "bool \<Rightarrow> bool \<Rightarrow> bool \<Rightarrow> pipe_buf_t result" where
  "pipe_create p_ok r_ok w_ok =
     (if \<not> p_ok then Inl ENOMEM
      else if \<not> r_ok \<or> \<not> w_ok then Inl ENOMEM
      else Inr pipe_init)"

definition pipe_read_poll :: "pipe_buf_t \<Rightarrow> bool" where
  "pipe_read_poll p \<longleftrightarrow> pb_count p > 0 \<or> pb_writer_refs p = 0"

definition pipe_write_poll :: "pipe_buf_t \<Rightarrow> bool" where
  "pipe_write_poll p \<longleftrightarrow> pb_count p < 4096 \<and> pb_reader_refs p > 0"

section \<open>One iteration and the loops\<close>

datatype rd_iter = RdDone | RdEof | RdSleep | RdByte u8 pipe_buf_t

definition pipe_read_iter :: "pipe_buf_t \<Rightarrow> nat \<Rightarrow> u8 list \<Rightarrow> rd_iter" where
  "pipe_read_iter p len got =
     (if length got < len then
        (if pb_count p = 0 then (if pb_writer_refs p = 0 then RdEof else RdSleep)
         else RdByte (fst (pipe_pop p)) (snd (pipe_pop p)))
      else RdDone)"

datatype wr_iter = WrDone | WrEpipe | WrSleep | WrByte pipe_buf_t "u8 list"

definition pipe_write_iter :: "pipe_buf_t \<Rightarrow> u8 list \<Rightarrow> wr_iter" where
  "pipe_write_iter p src =
     (case src of
        [] \<Rightarrow> WrDone
      | b # rest \<Rightarrow>
          if pb_count p = 4096 then (if pb_reader_refs p = 0 then WrEpipe else WrSleep)
          else WrByte (pipe_push p b) rest)"

text \<open>The loops up to the point where they return or go to sleep.\<close>

function pipe_read_loop :: "pipe_buf_t \<Rightarrow> nat \<Rightarrow> u8 list \<Rightarrow> rd_iter \<times> u8 list \<times> pipe_buf_t" where
  "pipe_read_loop p len got =
     (case pipe_read_iter p len got of
        RdByte b p' \<Rightarrow> pipe_read_loop p' len (got @ [b])
      | r \<Rightarrow> (r, got, p))"
  by pat_completeness auto

termination
  by (relation "measure (\<lambda>(p, len, got). len - length got)")
    (auto simp: pipe_read_iter_def split: if_splits)

fun pipe_write_loop :: "pipe_buf_t \<Rightarrow> u8 list \<Rightarrow> wr_iter \<times> u8 list \<times> pipe_buf_t" where
  "pipe_write_loop p [] = (WrDone, [], p)"
| "pipe_write_loop p (b # rest) =
     (if pb_count p = 4096
      then ((if pb_reader_refs p = 0 then WrEpipe else WrSleep), b # rest, p)
      else pipe_write_loop (pipe_push p b) rest)"

declare pipe_read_loop.simps [simp del]

section \<open>Threads on a pipe\<close>

datatype pipe_thread =
    Idle
  | Reading nat "u8 list"
  | RSleep nat "u8 list"
  | Writing "u8 list" nat
  | WSleep "u8 list" nat
  | Returned "nat result"

text \<open>\<open>delivered\<close> and \<open>accepted\<close> record the bytes that left and entered the buffer, in order;
  \<open>sigpipes\<close> the threads \<^verbatim>\<open>deliver_sigpipe\<close> was called for.\<close>

record pipe_sys =
  sys_pipe :: pipe_buf_t
  sys_thr :: "nat \<Rightarrow> pipe_thread"
  delivered :: "u8 list"
  accepted :: "u8 list"
  sigpipes :: "nat list"

definition wake_writers :: "(nat \<Rightarrow> pipe_thread) \<Rightarrow> nat \<Rightarrow> pipe_thread" where
  "wake_writers th t = (case th t of WSleep src n \<Rightarrow> Writing src n | x \<Rightarrow> x)"

definition wake_readers :: "(nat \<Rightarrow> pipe_thread) \<Rightarrow> nat \<Rightarrow> pipe_thread" where
  "wake_readers th t = (case th t of RSleep len got \<Rightarrow> Reading len got | x \<Rightarrow> x)"

definition pipe_sys_init :: pipe_sys where
  "pipe_sys_init = \<lparr>sys_pipe = pipe_init, sys_thr = (\<lambda>_. Idle), delivered = [], accepted = [],
     sigpipes = []\<rparr>"

definition eintr_result :: "nat \<Rightarrow> nat result" where
  "eintr_result tot = (if tot > 0 then Inr tot else Inl EINTR)"

definition pipe_read_step :: "nat \<Rightarrow> nat \<Rightarrow> u8 list \<Rightarrow> pipe_sys \<Rightarrow> pipe_sys" where
  "pipe_read_step t len got s =
     (case pipe_read_iter (sys_pipe s) len got of
        RdDone \<Rightarrow> s\<lparr>sys_thr := wake_writers ((sys_thr s)(t := Returned (Inr (length got))))\<rparr>
      | RdEof \<Rightarrow> s\<lparr>sys_thr := wake_writers ((sys_thr s)(t := Returned (Inr (length got))))\<rparr>
      | RdSleep \<Rightarrow> s\<lparr>sys_thr := (sys_thr s)(t := RSleep len got)\<rparr>
      | RdByte b p \<Rightarrow> s\<lparr>sys_pipe := p, sys_thr := (sys_thr s)(t := Reading len (got @ [b])),
                       delivered := delivered s @ [b]\<rparr>)"

definition pipe_write_step :: "nat \<Rightarrow> u8 list \<Rightarrow> nat \<Rightarrow> pipe_sys \<Rightarrow> pipe_sys" where
  "pipe_write_step t src tot s =
     (case pipe_write_iter (sys_pipe s) src of
        WrDone \<Rightarrow> s\<lparr>sys_thr := wake_readers ((sys_thr s)(t := Returned (Inr tot)))\<rparr>
      | WrEpipe \<Rightarrow> s\<lparr>sys_thr := (sys_thr s)
            (t := Returned (if tot > 0 then Inr tot else Inl EPIPE)),
            sigpipes := sigpipes s @ [t]\<rparr>
      | WrSleep \<Rightarrow> s\<lparr>sys_thr := (sys_thr s)(t := WSleep src tot)\<rparr>
      | WrByte p rest \<Rightarrow> s\<lparr>sys_pipe := p, sys_thr := (sys_thr s)(t := Writing rest (Suc tot)),
                          accepted := accepted s @ [hd src]\<rparr>)"

definition pipe_write_begin :: "nat \<Rightarrow> u8 list \<Rightarrow> pipe_sys \<Rightarrow> pipe_sys" where
  "pipe_write_begin t src s =
     (if pb_reader_refs (sys_pipe s) = 0
      then s\<lparr>sys_thr := (sys_thr s)(t := Returned (Inl EPIPE)), sigpipes := sigpipes s @ [t]\<rparr>
      else s\<lparr>sys_thr := (sys_thr s)(t := Writing src 0)\<rparr>)"

definition pipe_read_close :: "pipe_sys \<Rightarrow> pipe_sys" where
  "pipe_read_close s =
     (let p = sys_pipe s;
          p' = (if pb_reader_refs p > 0 then p\<lparr>pb_reader_refs := pb_reader_refs p - 1\<rparr> else p)
      in s\<lparr>sys_pipe := p',
           sys_thr := (if pb_reader_refs p' = 0 then wake_writers (sys_thr s) else sys_thr s)\<rparr>)"

definition pipe_write_close :: "pipe_sys \<Rightarrow> pipe_sys" where
  "pipe_write_close s =
     (let p = sys_pipe s;
          p' = (if pb_writer_refs p > 0 then p\<lparr>pb_writer_refs := pb_writer_refs p - 1\<rparr> else p)
      in s\<lparr>sys_pipe := p',
           sys_thr := (if pb_writer_refs p' = 0 then wake_readers (sys_thr s) else sys_thr s)\<rparr>)"

text \<open>The steps threads take by themselves, and those that come from outside.\<close>

inductive pipe_internal :: "pipe_sys \<Rightarrow> pipe_sys \<Rightarrow> bool" where
  step_read: "sys_thr s t = Reading len got \<Longrightarrow> pipe_internal s (pipe_read_step t len got s)"
| step_write: "sys_thr s t = Writing src n \<Longrightarrow> pipe_internal s (pipe_write_step t src n s)"

inductive_cases pipe_internalE: "pipe_internal s s'"

inductive pipe_external :: "pipe_sys \<Rightarrow> pipe_sys \<Rightarrow> bool" where
  ext_read: "sys_thr s t = Idle \<Longrightarrow>
     pipe_external s (s\<lparr>sys_thr := (sys_thr s)(t := Reading len [])\<rparr>)"
| ext_write: "sys_thr s t = Idle \<Longrightarrow> pipe_external s (pipe_write_begin t src s)"
| ext_sig_read: "sys_thr s t = RSleep len got \<Longrightarrow>
     pipe_external s (s\<lparr>sys_thr := (sys_thr s)(t := Returned (eintr_result (length got)))\<rparr>)"
| ext_sig_write: "sys_thr s t = WSleep src n \<Longrightarrow>
     pipe_external s (s\<lparr>sys_thr := (sys_thr s)(t := Returned (eintr_result n))\<rparr>)"
| ext_close_read: "pipe_external s (pipe_read_close s)"
| ext_close_write: "pipe_external s (pipe_write_close s)"

inductive pipe_reachable :: "pipe_sys \<Rightarrow> bool" where
  pr_init: "pipe_reachable pipe_sys_init"
| pr_int: "pipe_reachable s \<Longrightarrow> pipe_internal s s' \<Longrightarrow> pipe_reachable s'"
| pr_ext: "pipe_reachable s \<Longrightarrow> pipe_external s s' \<Longrightarrow> pipe_reachable s'"

section \<open>The ring meets the contract\<close>

definition pipe_contents :: "pipe_buf_t \<Rightarrow> u8 list" where
  "pipe_contents p = ring_contents PIPE_BUF_SIZE (pb_buf p) (unat (pb_head p)) (unat (pb_count p))"

definition pipe_inv :: "pipe_buf_t \<Rightarrow> bool" where
  "pipe_inv p \<longleftrightarrow> length (pb_buf p) = PIPE_BUF_SIZE \<and> unat (pb_head p) < PIPE_BUF_SIZE \<and>
     unat (pb_count p) \<le> PIPE_BUF_SIZE \<and>
     unat (pb_tail p) = (unat (pb_head p) + unat (pb_count p)) mod PIPE_BUF_SIZE"

lemma unat_step_4096:
  assumes "unat (i :: u32) < 4096"
  shows "unat ((i + 1) AND (4096 - 1)) = (unat i + 1) mod 4096"
  using unat_ring_step [of i 12 "4096 - 1"] assms by (simp add: mask_eq_exp_minus_1)

lemma length_pipe_contents [simp]: "length (pipe_contents p) = unat (pb_count p)"
  by (simp add: pipe_contents_def)

lemma pipe_count_Suc: "unat (pb_count p) < 4096 \<Longrightarrow> unat (pb_count p + 1) = Suc (unat (pb_count p))"
  by (subst unat_add_lem [THEN iffD1]) simp_all

interpretation pipe_ring: bounded_fifo pipe_push pipe_pop PIPE_BUF_SIZE pipe_contents pipe_inv
proof unfold_locales
  fix s :: pipe_buf_t
  assume i: "pipe_inv s"
  then show "length (pipe_contents s) \<le> PIPE_BUF_SIZE"
    by (simp add: pipe_inv_def)
  { fix x
    assume c: "length (pipe_contents s) < PIPE_BUF_SIZE"
    then have n: "unat (pb_count s + 1) = Suc (unat (pb_count s))"
      by (simp add: pipe_count_Suc)
    have t: "unat (pb_tail s) < 4096"
      using i by (simp add: pipe_inv_def)
    have "(unat (pb_tail s) + 1) mod 4096 = (unat (pb_head s) + Suc (unat (pb_count s))) mod 4096"
      using i by (simp add: pipe_inv_def mod_Suc_eq)
    then show "pipe_inv (pipe_push s x)"
      using i c n unat_step_4096 [OF t] by (simp add: pipe_inv_def pipe_push_def)
    show "pipe_contents (pipe_push s x) = pipe_contents s @ [x]"
      using i c n by (simp add: pipe_contents_def pipe_push_def pipe_inv_def ring_push) }
  { assume "pipe_contents s \<noteq> []"
    then have c: "0 < unat (pb_count s)"
      by (simp add: pipe_contents_def)
    then have n: "unat (pb_count s - 1) = unat (pb_count s) - 1"
      by (metis One_nat_def Suc_leI unat_1 unat_sub word_le_nat_alt)
    have h: "unat (pb_head s) < 4096"
      using i by (simp add: pipe_inv_def)
    have "((unat (pb_head s) + 1) mod 4096 + (unat (pb_count s) - 1)) mod 4096 =
        (unat (pb_head s) + unat (pb_count s)) mod 4096"
      by (rule ring_index_pop [OF c])
    moreover have "unat (pb_count s) - 1 \<le> 4096"
      using i unfolding pipe_inv_def by linarith
    ultimately show "pipe_inv (snd (pipe_pop s))"
      using i n c unat_step_4096 [OF h] by (simp add: pipe_inv_def pipe_pop_def)
    show "pipe_contents s = fst (pipe_pop s) # pipe_contents (snd (pipe_pop s))"
      using n c h unat_step_4096 [OF h] ring_pop [OF c h]
      by (simp add: pipe_contents_def pipe_pop_def) }
qed

section \<open>Lemmas\<close>

lemma pipe_contents_Nil: "pipe_contents p = [] \<longleftrightarrow> pb_count p = 0"
  by (simp add: pipe_contents_def unat_eq_0)

lemma pipe_not_full:
  assumes "pipe_inv p" and "pb_count p \<noteq> 4096"
  shows "length (pipe_contents p) < PIPE_BUF_SIZE"
proof -
  have "unat (pb_count p) \<noteq> unat (4096 :: u32)"
    using assms(2) by (metis word_unat_eq_iff)
  with assms(1) show ?thesis
    by (simp add: pipe_inv_def)
qed

lemma pipe_refs_irrelevant [simp]:
  "pipe_inv (p\<lparr>pb_reader_refs := r\<rparr>) = pipe_inv p"
  "pipe_inv (p\<lparr>pb_writer_refs := w\<rparr>) = pipe_inv p"
  "pipe_contents (p\<lparr>pb_reader_refs := r\<rparr>) = pipe_contents p"
  "pipe_contents (p\<lparr>pb_writer_refs := w\<rparr>) = pipe_contents p"
  by (simp_all add: pipe_inv_def pipe_contents_def)

lemma pipe_pop_refs [simp]:
  "pb_writer_refs (snd (pipe_pop p)) = pb_writer_refs p"
  "pb_reader_refs (snd (pipe_pop p)) = pb_reader_refs p"
  by (simp_all add: pipe_pop_def)

lemma pipe_push_refs [simp]:
  "pb_writer_refs (pipe_push p b) = pb_writer_refs p"
  "pb_reader_refs (pipe_push p b) = pb_reader_refs p"
  by (simp_all add: pipe_push_def)

lemma pipe_init_inv: "pipe_inv pipe_init" "pipe_contents pipe_init = []"
  by (simp_all add: pipe_inv_def pipe_init_def pipe_contents_def)

lemma pipe_read_loop_spec:
  assumes "pipe_inv p" and "length got \<le> len"
  shows "case pipe_read_loop p len got of (r, got', p') \<Rightarrow>
    got' = got @ take (len - length got) (pipe_contents p) \<and>
    pipe_contents p' = drop (len - length got) (pipe_contents p) \<and> pipe_inv p' \<and>
    r = (if len - length got \<le> length (pipe_contents p) then RdDone
         else if pb_writer_refs p = 0 then RdEof else RdSleep)"
  using assms
proof (induction p len got rule: pipe_read_loop.induct)
  case (1 p len got)
  show ?case
  proof (cases "length got < len \<and> pb_count p \<noteq> 0")
    case False
    then show ?thesis
      using 1(2,3) by (subst pipe_read_loop.simps)
        (auto simp: pipe_read_iter_def pipe_contents_Nil)
  next
    case True
    let ?b = "fst (pipe_pop p)" and ?p = "snd (pipe_pop p)"
    have it: "pipe_read_iter p len got = RdByte ?b ?p"
      using True by (simp add: pipe_read_iter_def)
    have ne: "pipe_contents p \<noteq> []"
      using True by (simp add: pipe_contents_Nil)
    have c: "pipe_contents p = ?b # pipe_contents ?p"
      by (rule pipe_ring.pop_contents [OF 1(2) ne])
    have k: "len - length got = Suc (len - length (got @ [?b]))"
      using True by auto
    show ?thesis
      using 1(1) [OF it pipe_ring.pop_inv [OF 1(2) ne]] True
      unfolding pipe_read_loop.simps [of p len got] it c k by (simp add: case_prod_unfold)
  qed
qed

lemma pipe_write_loop_spec:
  assumes "pipe_inv p"
  shows "case pipe_write_loop p src of (r, rest, p') \<Rightarrow>
    pipe_contents p' = pipe_contents p @ take (PIPE_BUF_SIZE - length (pipe_contents p)) src \<and>
    rest = drop (PIPE_BUF_SIZE - length (pipe_contents p)) src \<and> pipe_inv p' \<and>
    r = (if length (pipe_contents p) + length src \<le> PIPE_BUF_SIZE then WrDone
         else if pb_reader_refs p = 0 then WrEpipe else WrSleep)"
  using assms
proof (induction p src rule: pipe_write_loop.induct)
  case (2 p b rest)
  show ?case
  proof (cases "pb_count p = 4096")
    case True
    then show ?thesis
      using 2(2) by simp
  next
    case False
    note room = pipe_not_full [OF 2(2) False]
    have c: "pipe_contents (pipe_push p b) = pipe_contents p @ [b]"
      by (rule pipe_ring.push_contents [OF 2(2) room])
    have k: "PIPE_BUF_SIZE - length (pipe_contents p) =
        Suc (PIPE_BUF_SIZE - length (pipe_contents (pipe_push p b)))"
      using room unfolding c by simp
    show ?thesis
      using 2(1) [OF False pipe_ring.push_inv [OF 2(2) room]] False room
      unfolding k by (simp add: c case_prod_unfold del: length_pipe_contents)
  qed
qed (simp add: pipe_inv_def)

definition pipe_flow :: "pipe_sys \<Rightarrow> bool" where
  "pipe_flow s \<longleftrightarrow> pipe_inv (sys_pipe s) \<and>
     delivered s @ pipe_contents (sys_pipe s) = accepted s"

lemma pipe_flow_init: "pipe_flow pipe_sys_init"
  by (simp add: pipe_flow_def pipe_sys_init_def pipe_init_inv)

lemma pipe_read_step_flow:
  assumes "pipe_flow s"
  shows "pipe_flow (pipe_read_step t len got s)"
proof (cases "pipe_read_iter (sys_pipe s) len got")
  case (RdByte b p)
  then have ne: "pipe_contents (sys_pipe s) \<noteq> []" and
    bp: "b = fst (pipe_pop (sys_pipe s))" "p = snd (pipe_pop (sys_pipe s))"
    by (auto simp: pipe_read_iter_def pipe_contents_Nil split: if_splits)
  have i: "pipe_inv (sys_pipe s)"
    using assms by (simp add: pipe_flow_def)
  show ?thesis
    using assms RdByte pipe_ring.pop_inv [OF i ne] pipe_ring.pop_contents [OF i ne]
    by (simp add: pipe_flow_def pipe_read_step_def bp)
qed (use assms in \<open>simp_all add: pipe_flow_def pipe_read_step_def\<close>)

lemma pipe_write_step_flow:
  assumes "pipe_flow s"
  shows "pipe_flow (pipe_write_step t src n s)"
proof (cases "pipe_write_iter (sys_pipe s) src")
  case (WrByte p rest)
  then have nf: "pb_count (sys_pipe s) \<noteq> 4096" and
    p: "p = pipe_push (sys_pipe s) (hd src)"
    by (auto simp: pipe_write_iter_def split: list.splits if_splits)
  have i: "pipe_inv (sys_pipe s)"
    using assms by (simp add: pipe_flow_def)
  note room = pipe_not_full [OF i nf]
  show ?thesis
    using assms WrByte pipe_ring.push_inv [OF i room] pipe_ring.push_contents [OF i room]
    by (simp add: pipe_flow_def pipe_write_step_def p flip: append_assoc)
qed (use assms in \<open>simp_all add: pipe_flow_def pipe_write_step_def\<close>)

lemma pipe_external_flow: "pipe_external s s' \<Longrightarrow> pipe_flow s \<Longrightarrow> pipe_flow s'"
  by (induction rule: pipe_external.induct)
    (simp_all add: pipe_flow_def pipe_write_begin_def pipe_read_close_def pipe_write_close_def
      Let_def)

lemma pipe_reachable_flow: "pipe_reachable s \<Longrightarrow> pipe_flow s"
  by (induction rule: pipe_reachable.induct)
    (auto simp: pipe_flow_init elim!: pipe_internalE
      intro: pipe_read_step_flow pipe_write_step_flow pipe_external_flow)

text \<open>A writer that finds room gets all of it into the buffer.\<close>

lemma pipe_writer_runs:
  assumes "pipe_reachable s" and "sys_thr s t = Writing (xs @ ys) n"
    and "length (pipe_contents (sys_pipe s)) + length xs \<le> PIPE_BUF_SIZE"
  shows "\<exists>s'. pipe_reachable s' \<and> sys_thr s' = (sys_thr s)(t := Writing ys (n + length xs)) \<and>
    pipe_contents (sys_pipe s') = pipe_contents (sys_pipe s) @ xs \<and>
    pb_reader_refs (sys_pipe s') = pb_reader_refs (sys_pipe s) \<and>
    pb_writer_refs (sys_pipe s') = pb_writer_refs (sys_pipe s)"
  using assms
proof (induction xs arbitrary: s n)
  case Nil
  then show ?case
    by (intro exI [of _ s]) (simp add: fun_upd_idem)
next
  case (Cons x xs)
  let ?s = "pipe_write_step t (x # xs @ ys) n s" and ?p = "pipe_push (sys_pipe s) x"
  have i: "pipe_inv (sys_pipe s)"
    using pipe_reachable_flow [OF Cons.prems(1)] by (simp add: pipe_flow_def)
  have room: "length (pipe_contents (sys_pipe s)) < PIPE_BUF_SIZE"
    using Cons.prems(3) by simp
  then have nf: "pb_count (sys_pipe s) \<noteq> 4096"
    by auto
  have s: "sys_thr ?s = (sys_thr s)(t := Writing (xs @ ys) (Suc n))" "sys_pipe ?s = ?p"
    using nf by (simp_all add: pipe_write_step_def pipe_write_iter_def)
  have c: "pipe_contents ?p = pipe_contents (sys_pipe s) @ [x]"
    by (rule pipe_ring.push_contents [OF i room])
  have "pipe_internal s ?s"
    using step_write [of s t] Cons.prems(2) by simp
  then have r: "pipe_reachable ?s"
    by (rule pr_int [OF Cons.prems(1)])
  have thr: "sys_thr ?s t = Writing (xs @ ys) (Suc n)"
    by (simp add: s)
  have len: "length (pipe_contents (sys_pipe ?s)) + length xs \<le> PIPE_BUF_SIZE"
    using Cons.prems(3) unfolding s(2) c by simp
  have upd: "((sys_thr s)(t := a))(t := b) = (sys_thr s)(t := b)" for a b
    by (rule fun_upd_upd)
  from Cons.IH [OF r thr len] show ?case
    unfolding s c upd by simp
qed

section \<open>Properties\<close>



text \<open>What is written is what is read. A write that fits returns complete without sleeping, and
  a following read of \<open>len\<close> bytes gets the oldest \<open>len\<close> bytes; it sleeps exactly when fewer are
  there and a writer is left, and sees the end of the file when none is.\<close>

theorem pipe_write_read:
  assumes "pipe_inv p" and "length (pipe_contents p) + length xs \<le> PIPE_BUF_SIZE"
  shows "\<exists>p1. pipe_write_loop p xs = (WrDone, [], p1) \<and>
    (case pipe_read_loop p1 len [] of (r, got, p2) \<Rightarrow>
       got = take len (pipe_contents p @ xs) \<and>
       pipe_contents p2 = drop len (pipe_contents p @ xs) \<and> pipe_inv p2 \<and>
       r = (if len \<le> length (pipe_contents p) + length xs then RdDone
            else if pb_writer_refs p1 = 0 then RdEof else RdSleep))"
proof -
  obtain r rest p1 where w: "pipe_write_loop p xs = (r, rest, p1)"
    by (cases "pipe_write_loop p xs") auto
  have "pipe_contents p1 = pipe_contents p @ xs" "rest = []" "r = WrDone" "pipe_inv p1"
    using pipe_write_loop_spec [OF assms(1), of xs] assms(2) unfolding w by auto
  with w pipe_read_loop_spec [of p1 "[]" len] show ?thesis
    by (simp add: case_prod_unfold del: length_pipe_contents)
qed

theorem pipe_write_read_witness:
  "pipe_inv pipe_init \<and> fst (snd (pipe_read_loop (snd (snd (pipe_write_loop pipe_init [1, 2, 3]))) 2 []))
     = [1, 2]"
proof -
  have "length (pipe_contents pipe_init) + length [1, 2, 3 :: u8] \<le> PIPE_BUF_SIZE"
    by (simp add: pipe_init_def)
  from pipe_write_read [OF pipe_init_inv(1) this, of 2] show ?thesis
    by (auto simp: pipe_init_inv case_prod_unfold)
qed

text \<open>C35: Reader and writer can wait for each other forever. A reader blocks on the empty pipe; a
  writer with more than 4096 bytes fills the ring and goes to sleep without waking the reader: both
  ends are open, the ring is full, and no thread can take a step.\<close>

theorem pipe_deadlock:
  "\<exists>s rest. pipe_reachable s \<and> sys_thr s 0 = RSleep 1 [] \<and> sys_thr s 1 = WSleep rest 4096 \<and>
     length (pipe_contents (sys_pipe s)) = PIPE_BUF_SIZE \<and>
     pb_reader_refs (sys_pipe s) = 1 \<and> pb_writer_refs (sys_pipe s) = 1 \<and>
     (\<nexists>s'. pipe_internal s s')"
proof -
  let ?xs = "replicate 4096 (0 :: u8)"
  let ?s1 = "pipe_sys_init\<lparr>sys_thr := (\<lambda>_. Idle)(0 := Reading 1 [])\<rparr>"
  let ?s2 = "pipe_sys_init\<lparr>sys_thr := (\<lambda>_. Idle)(0 := RSleep 1 [])\<rparr>"
  let ?s3 = "pipe_sys_init\<lparr>sys_thr := (\<lambda>_. Idle)(0 := RSleep 1 [], 1 := Writing (?xs @ [0]) 0)\<rparr>"
  have "pipe_reachable ?s1"
    using pr_ext [OF pr_init ext_read [of pipe_sys_init 0 1]] by (simp add: pipe_sys_init_def)
  moreover have "pipe_internal ?s1 ?s2"
    using step_read [of ?s1 0 1 "[]"]
    by (simp add: pipe_read_step_def pipe_read_iter_def pipe_sys_init_def pipe_init_def)
  ultimately have "pipe_reachable ?s2"
    by (rule pr_int)
  moreover have "pipe_external ?s2 ?s3"
    using ext_write [of ?s2 1 "?xs @ [0]"]
    by (simp add: pipe_write_begin_def pipe_sys_init_def pipe_init_def)
  ultimately have r3: "pipe_reachable ?s3"
    by (rule pr_ext)
  have "length (pipe_contents (sys_pipe ?s3)) + length ?xs \<le> PIPE_BUF_SIZE"
    by (simp add: pipe_sys_init_def pipe_init_def)
  then obtain s4 where s4: "pipe_reachable s4"
      "sys_thr s4 = (sys_thr ?s3)(1 := Writing [0] 4096)"
      "pipe_contents (sys_pipe s4) = pipe_contents (sys_pipe ?s3) @ ?xs"
      "pb_reader_refs (sys_pipe s4) = 1" "pb_writer_refs (sys_pipe s4) = 1"
    using pipe_writer_runs [OF r3, of 1 ?xs "[0]" 0]
    by (auto simp: pipe_sys_init_def pipe_init_def)
  let ?s5 = "s4\<lparr>sys_thr := (sys_thr s4)(1 := WSleep [0] 4096)\<rparr>"
  have full: "length (pipe_contents (sys_pipe s4)) = 4096"
    unfolding s4(3) by (simp add: pipe_sys_init_def pipe_init_inv del: length_pipe_contents)
  then have "pb_count (sys_pipe s4) = 4096"
    by (simp add: word_unat_eq_iff)
  then have "pipe_internal s4 ?s5"
    using step_write [of s4 1 "[0]" 4096] s4(2,4)
    by (simp add: pipe_write_step_def pipe_write_iter_def)
  then have "pipe_reachable ?s5"
    by (rule pr_int [OF s4(1)])
  moreover have "\<nexists>s'. pipe_internal ?s5 s'"
    using s4(2) by (auto elim!: pipe_internalE split: if_splits)
  ultimately show ?thesis
    using full s4 by (intro exI [of _ ?s5] exI [of _ "[0]"]) simp
qed

end
