(* ===== verification/Tty.thy ===== *)
theory Tty
  imports Fifo_Spec
begin

text \<open>
  Terminals: the N_TTY line discipline, the read buffer and the file operations of
  \<^verbatim>\<open>kernel/drivers/tty/tty.c\<close>. The effects that leave the terminal are collected in the state, in
  order: bytes given to \<^verbatim>\<open>write_char\<close>/\<^verbatim>\<open>write_buf\<close> (\<open>t_out\<close>), signals sent to process groups
  (\<open>t_sigs\<close>) and the number of wake-ups of the wait queue (\<open>t_wakes\<close>).
\<close>

section \<open>State\<close>

abbreviation (input) ICRNL :: u32 where "ICRNL \<equiv> 0x100"
abbreviation (input) IXON :: u32 where "IXON \<equiv> 0x400"
abbreviation (input) OPOST :: u32 where "OPOST \<equiv> 1"
abbreviation (input) ONLCR :: u32 where "ONLCR \<equiv> 4"
abbreviation (input) ISIG :: u32 where "ISIG \<equiv> 1"
abbreviation (input) ICANON :: u32 where "ICANON \<equiv> 2"
abbreviation (input) ECHO :: u32 where "ECHO \<equiv> 8"
abbreviation (input) NOFLSH :: u32 where "NOFLSH \<equiv> 0x80"
abbreviation (input) TOSTOP :: u32 where "TOSTOP \<equiv> 0x100"
abbreviation (input) VINTR :: nat where "VINTR \<equiv> 0"
abbreviation (input) VQUIT :: nat where "VQUIT \<equiv> 1"
abbreviation (input) VERASE :: nat where "VERASE \<equiv> 2"
abbreviation (input) VKILL :: nat where "VKILL \<equiv> 3"
abbreviation (input) VEOF :: nat where "VEOF \<equiv> 4"
abbreviation (input) VMIN :: nat where "VMIN \<equiv> 6"
abbreviation (input) VSUSP :: nat where "VSUSP \<equiv> 10"
abbreviation (input) VEOL :: nat where "VEOL \<equiv> 11"
abbreviation (input) VEOL2 :: nat where "VEOL2 \<equiv> 16"
abbreviation (input) SIGINT :: nat where "SIGINT \<equiv> 2"
abbreviation (input) SIGQUIT :: nat where "SIGQUIT \<equiv> 3"
abbreviation (input) SIGTSTP :: nat where "SIGTSTP \<equiv> 20"
abbreviation (input) TTY_READ_BUF_SIZE :: nat where "TTY_READ_BUF_SIZE \<equiv> 4096"
abbreviation (input) TTY_LINE_BUF_SIZE :: nat where "TTY_LINE_BUF_SIZE \<equiv> 4096"

record termios_t =
  c_iflag :: u32
  c_oflag :: u32
  c_cflag :: u32
  c_lflag :: u32
  c_cc :: "u8 list"

record tty_t =
  termios :: termios_t
  fg_pgid :: u32
  session :: u32
  read_buf :: "u8 list"
  rd_head :: u32
  rd_tail :: u32
  line_buf :: "u8 list"
  line_len :: nat
  esc_state :: nat
  t_out :: "u8 list"
  t_sigs :: "(u32 \<times> nat) list"
  t_wakes :: nat

definition tty_init :: tty_t where
  "tty_init = \<lparr>termios = \<lparr>c_iflag = ICRNL OR IXON, c_oflag = OPOST OR ONLCR,
       c_cflag = 0x30 OR 0x80 OR 0x800,
       c_lflag = 1 OR 2 OR 8 OR 0x10 OR 0x20 OR 0x200 OR 0x800 OR 0x8000,
       c_cc = [3, 28, 127, 21, 4, 0, 1, 0, 17, 19, 26, 0, 18, 15, 23, 22, 0, 0, 0]\<rparr>,
     fg_pgid = 1, session = 1, read_buf = replicate TTY_READ_BUF_SIZE 0, rd_head = 0, rd_tail = 0,
     line_buf = replicate TTY_LINE_BUF_SIZE 0, line_len = 0, esc_state = 0,
     t_out = [], t_sigs = [], t_wakes = 0\<rparr>"

section \<open>The read buffer\<close>

definition rb_next :: "u32 \<Rightarrow> u32 \<Rightarrow> u32" where
  "rb_next i sz = (i + 1) AND (sz - 1)"

definition rb_empty :: "u32 \<Rightarrow> u32 \<Rightarrow> bool" where
  "rb_empty head tail \<longleftrightarrow> head = tail"

definition rb_full :: "u32 \<Rightarrow> u32 \<Rightarrow> u32 \<Rightarrow> bool" where
  "rb_full head tail sz \<longleftrightarrow> rb_next tail sz = head"

definition rd_push :: "tty_t \<Rightarrow> u8 \<Rightarrow> tty_t" where
  "rd_push t c =
     (if rb_full (rd_head t) (rd_tail t) 4096 then t
      else t\<lparr>read_buf := (read_buf t)[unat (rd_tail t) := c], rd_tail := rb_next (rd_tail t) 4096\<rparr>)"

definition rd_pop :: "tty_t \<Rightarrow> (u8 \<times> tty_t) option" where
  "rd_pop t =
     (if rb_empty (rd_head t) (rd_tail t) then None
      else Some (read_buf t ! unat (rd_head t), t\<lparr>rd_head := rb_next (rd_head t) 4096\<rparr>))"

section \<open>Line discipline\<close>

definition wake_tty :: "tty_t \<Rightarrow> tty_t" where
  "wake_tty t = t\<lparr>t_wakes := Suc (t_wakes t)\<rparr>"

definition tty_echo :: "tty_t \<Rightarrow> u8 \<Rightarrow> tty_t" where
  "tty_echo t c = t\<lparr>t_out := t_out t @ [c]\<rparr>"

definition echoes :: "tty_t \<Rightarrow> bool" where
  "echoes t \<longleftrightarrow> c_lflag (termios t) AND ECHO \<noteq> 0"

definition ldisc_erase_char :: "tty_t \<Rightarrow> tty_t" where
  "ldisc_erase_char t =
     (if line_len t = 0 then t
      else let t1 = t\<lparr>line_len := line_len t - 1\<rparr>
           in if echoes t then tty_echo (tty_echo (tty_echo t1 8) 32) 8 else t1)"

definition ldisc_flush_line :: "tty_t \<Rightarrow> tty_t" where
  "ldisc_flush_line t =
     wake_tty ((foldl rd_push t (take (line_len t) (line_buf t)))\<lparr>line_len := 0\<rparr>)"

function ldisc_kill_line :: "tty_t \<Rightarrow> tty_t" where
  "ldisc_kill_line t = (if line_len t > 0 then ldisc_kill_line (ldisc_erase_char t) else t)"
  by pat_completeness auto

termination
  by (relation "measure line_len")
    (auto simp: ldisc_erase_char_def Let_def tty_echo_def)

declare ldisc_kill_line.simps [simp del]

definition tty_flush_input :: "tty_t \<Rightarrow> tty_t" where
  "tty_flush_input t = t\<lparr>rd_head := 0, rd_tail := 0, line_len := 0\<rparr>"

definition signal_send_pgrp :: "u32 \<Rightarrow> nat \<Rightarrow> tty_t \<Rightarrow> tty_t" where
  "signal_send_pgrp pgid sig t = t\<lparr>t_sigs := t_sigs t @ [(pgid, sig)]\<rparr>"

definition tty_signal :: "nat \<Rightarrow> tty_t \<Rightarrow> tty_t" where
  "tty_signal sig t =
     (let t1 = (if fg_pgid t \<noteq> 0 then signal_send_pgrp (fg_pgid t) sig t else t)
      in if c_lflag (termios t) AND NOFLSH = 0 then tty_flush_input t1 else t1)"

definition ldisc_store :: "tty_t \<Rightarrow> u8 \<Rightarrow> tty_t" where
  "ldisc_store t c =
     (if line_len t < TTY_LINE_BUF_SIZE - 1 then
        (let t1 = (if echoes t then tty_echo t c else t)
         in t1\<lparr>line_buf := (line_buf t)[line_len t := c], line_len := Suc (line_len t)\<rparr>)
      else t)"

definition cc_of :: "tty_t \<Rightarrow> nat \<Rightarrow> u8" where
  "cc_of t i = c_cc (termios t) ! i"

function tty_input_char :: "tty_t \<Rightarrow> u8 \<Rightarrow> tty_t" where
  "tty_input_char t c =
     (let lflag = c_lflag (termios t); icrnl = (c_iflag (termios t) AND ICRNL \<noteq> 0)
      in if c = 0 then t
         else if lflag AND ISIG \<noteq> 0 \<and> c = cc_of t VINTR then tty_signal SIGINT t
         else if lflag AND ISIG \<noteq> 0 \<and> c = cc_of t VSUSP then tty_signal SIGTSTP t
         else if lflag AND ISIG \<noteq> 0 \<and> c = cc_of t VQUIT then tty_signal SIGQUIT t
         else if lflag AND ICANON \<noteq> 0 then
           (if c = 0x1B then t\<lparr>esc_state := 1\<rparr>
            else if esc_state t = 1 then t\<lparr>esc_state := (if c = 0x5B \<or> c = 0x4F then 2 else 0)\<rparr>
            else if esc_state t = 2 then (if c \<ge> 0x40 \<and> c \<le> 0x7E then t\<lparr>esc_state := 0\<rparr> else t)
            else if c = cc_of t VERASE \<or> c = 8 then ldisc_erase_char t
            else if c = cc_of t VKILL then
              (let t1 = ldisc_kill_line t in if lflag AND ECHO \<noteq> 0 then tty_echo t1 10 else t1)
            else if c = cc_of t VEOF then ldisc_flush_line t
            else if c = 10 \<or> c = cc_of t VEOL \<or> c = cc_of t VEOL2 then
              ldisc_flush_line (ldisc_store t 10)
            else if c = 13 \<and> icrnl then tty_input_char t 10
            else ldisc_store t c)
         else
           (let c' = (if c = 13 \<and> icrnl then 10 else c);
                t1 = (if lflag AND ECHO \<noteq> 0 then tty_echo t c' else t)
            in wake_tty (rd_push t1 c')))"
  by pat_completeness auto

termination
  by (relation "measure (\<lambda>(t, c). if c = 13 then 1 else 0)") auto

declare tty_input_char.simps [simp del]

text \<open>Extended keys of \<^verbatim>\<open>tty_on_kbd_event\<close>: the escape sequence they inject.\<close>

definition key_seq :: "u16 \<Rightarrow> u8 list option" where
  "key_seq k =
     (if k = 103 then Some [27, 91, 65] else if k = 108 then Some [27, 91, 66]
      else if k = 106 then Some [27, 91, 67] else if k = 105 then Some [27, 91, 68]
      else if k = 102 then Some [27, 91, 72] else if k = 107 then Some [27, 91, 70]
      else if k = 104 then Some [27, 91, 53, 126] else if k = 109 then Some [27, 91, 54, 126]
      else if k = 111 then Some [27, 91, 51, 126]
      else if k = 59 then Some [27, 91, 49, 49, 126] else if k = 60 then Some [27, 91, 49, 50, 126]
      else if k = 61 then Some [27, 91, 49, 51, 126] else if k = 62 then Some [27, 91, 49, 52, 126]
      else if k = 63 then Some [27, 91, 49, 53, 126] else if k = 64 then Some [27, 91, 49, 55, 126]
      else if k = 65 then Some [27, 91, 49, 56, 126] else if k = 66 then Some [27, 91, 49, 57, 126]
      else if k = 67 then Some [27, 91, 50, 48, 126] else if k = 68 then Some [27, 91, 50, 49, 126]
      else if k = 87 then Some [27, 91, 50, 51, 126] else if k = 88 then Some [27, 91, 50, 52, 126]
      else None)"

record kbd_event_t =
  keycode :: u16
  pressed :: bool
  ascii :: u8

definition tty_on_kbd_event :: "kbd_event_t \<Rightarrow> tty_t \<Rightarrow> tty_t" where
  "tty_on_kbd_event ev t =
     (if \<not> pressed ev then t
      else case (if keycode ev \<noteq> 0 then key_seq (keycode ev) else None) of
             Some sq \<Rightarrow> foldl tty_input_char t sq
           | None \<Rightarrow> if ascii ev \<noteq> 0 then tty_input_char t (ascii ev) else t)"

section \<open>File operations\<close>

text \<open>The identity of the calling task that job control looks at.\<close>

record caller =
  ca_sid :: u32
  ca_pgid :: u32

datatype tty_io = IoBackground nat | IoBlocked | IoRead "u8 list" | IoWritten nat

definition tty_background :: "caller \<Rightarrow> tty_t \<Rightarrow> bool" where
  "tty_background ca t \<longleftrightarrow> fg_pgid t \<noteq> 0 \<and> ca_sid ca = session t \<and> ca_pgid ca \<noteq> fg_pgid t"

text \<open>The drain loop with \<open>k\<close> bytes of room left in the user buffer.\<close>

fun rd_drain :: "nat \<Rightarrow> nat \<Rightarrow> tty_t \<Rightarrow> u8 list \<Rightarrow> u8 list \<times> tty_t" where
  "rd_drain 0 vmin t got = (got, t)"
| "rd_drain (Suc k) vmin t got =
     (case rd_pop t of
        None \<Rightarrow> (got, t)
      | Some (c, t') \<Rightarrow>
          let got' = got @ [c]
          in if c_lflag (termios t) AND ICANON \<noteq> 0 \<and> c = 10 then (got', t')
             else if c_lflag (termios t) AND ICANON = 0 \<and> length got' \<ge> vmin then (got', t')
             else rd_drain k vmin t' got')"

definition tty_vfs_read :: "caller \<Rightarrow> tty_t \<Rightarrow> nat \<Rightarrow> tty_io \<times> tty_t" where
  "tty_vfs_read ca t len =
     (if len = 0 then (IoRead [], t)
      else if tty_background ca t then (IoBackground 21, t)
      else if rb_empty (rd_head t) (rd_tail t) then (IoBlocked, t)
      else let vmin0 = (if c_lflag (termios t) AND ICANON \<noteq> 0 then 1 else unat (cc_of t VMIN));
               vmin = (if vmin0 = 0 then 1 else vmin0);
               (got, t') = rd_drain len vmin t []
           in (IoRead got, t'))"

text \<open>Output post-processing, and the batched console writer, which emits runs between newlines.\<close>

definition onlcr :: "tty_t \<Rightarrow> bool" where
  "onlcr t \<longleftrightarrow> c_oflag (termios t) AND OPOST \<noteq> 0 \<and> c_oflag (termios t) AND ONLCR \<noteq> 0"

fun write_chars :: "bool \<Rightarrow> u8 list \<Rightarrow> u8 list" where
  "write_chars cr [] = []"
| "write_chars cr (c # cs) = (if cr \<and> c = 10 then 13 # c # write_chars cr cs
                              else c # write_chars cr cs)"

function console_runs :: "u8 list \<Rightarrow> nat \<Rightarrow> nat \<Rightarrow> u8 list" where
  "console_runs buf run_start i =
     (if i < length buf then
        (if buf ! i = 10 then
           (if i > run_start then take (i - run_start) (drop run_start buf) else []) @ [13, 10] @
             console_runs buf (i + 1) (i + 1)
         else console_runs buf run_start (i + 1))
      else if run_start < length buf then drop run_start buf else [])"
  by pat_completeness auto

termination
  by (relation "measure (\<lambda>(buf, r, i). length buf - i)") auto

declare console_runs.simps [simp del]

definition console_write_buf :: "tty_t \<Rightarrow> u8 list \<Rightarrow> u8 list" where
  "console_write_buf t buf = (if onlcr t then console_runs buf 0 0 else buf)"

definition tty_vfs_write :: "caller \<Rightarrow> tty_t \<Rightarrow> u8 list \<Rightarrow> tty_io \<times> tty_t" where
  "tty_vfs_write ca t src =
     (if tty_background ca t \<and> c_lflag (termios t) AND TOSTOP \<noteq> 0 then (IoBackground 22, t)
      else (IoWritten (length src), t\<lparr>t_out := t_out t @ console_write_buf t src\<rparr>))"

definition tty_vfs_poll :: "tty_t \<Rightarrow> bool \<Rightarrow> bool" where
  "tty_vfs_poll t pollin = (if pollin then \<not> rb_empty (rd_head t) (rd_tail t) else True)"

definition tty_set_ctty :: "caller \<Rightarrow> tty_t \<Rightarrow> tty_t" where
  "tty_set_ctty ca t = t\<lparr>session := ca_sid ca, fg_pgid := ca_pgid ca\<rparr>"

text \<open>\<^verbatim>\<open>tty_get_ctty\<close>: the console first, then the pty slaves in list order.\<close>

definition tty_get_ctty :: "caller \<Rightarrow> tty_t \<Rightarrow> tty_t list \<Rightarrow> tty_t option" where
  "tty_get_ctty ca tty0 slaves =
     (if session tty0 = ca_sid ca then Some tty0 else find (\<lambda>t. session t = ca_sid ca) slaves)"

section \<open>The read buffer meets the contract\<close>

definition tty_contents :: "tty_t \<Rightarrow> u8 list" where
  "tty_contents t = ring_contents TTY_READ_BUF_SIZE (read_buf t) (unat (rd_head t))
     (ring_fill TTY_READ_BUF_SIZE (unat (rd_head t)) (unat (rd_tail t)))"

definition tty_inv :: "tty_t \<Rightarrow> bool" where
  "tty_inv t \<longleftrightarrow> length (read_buf t) = TTY_READ_BUF_SIZE \<and>
     unat (rd_head t) < TTY_READ_BUF_SIZE \<and> unat (rd_tail t) < TTY_READ_BUF_SIZE \<and>
     length (line_buf t) = TTY_LINE_BUF_SIZE \<and> line_len t < TTY_LINE_BUF_SIZE"

definition rd_take :: "tty_t \<Rightarrow> u8 \<times> tty_t" where
  "rd_take t = (case rd_pop t of Some r \<Rightarrow> r | None \<Rightarrow> (0, t))"

lemma unat_rb_next:
  assumes "unat i < 4096"
  shows "unat (rb_next i 4096) = (unat i + 1) mod 4096"
  using unat_ring_step [of i 12 "4096 - 1"] assms by (simp add: rb_next_def mask_eq_exp_minus_1)

lemma tty_invD:
  assumes "tty_inv t"
  shows "unat (rd_head t) < 4096" "unat (rd_tail t) < 4096" "length (read_buf t) = 4096"
  using assms by (simp_all add: tty_inv_def)

lemma rb_full_iff:
  assumes "tty_inv t"
  shows "rb_full (rd_head t) (rd_tail t) 4096 \<longleftrightarrow> length (tty_contents t) = 4095"
proof -
  note h = tty_invD(1,2) [OF assms]
  have "rb_full (rd_head t) (rd_tail t) 4096 \<longleftrightarrow> (unat (rd_tail t) + 1) mod 4096 = unat (rd_head t)"
    using unat_rb_next [OF h(2)] by (simp add: rb_full_def word_unat_eq_iff)
  then show ?thesis
    using ring_fill_facts(1,4) [OF h] by (simp add: tty_contents_def) linarith
qed

lemma rb_empty_iff:
  assumes "tty_inv t"
  shows "rb_empty (rd_head t) (rd_tail t) \<longleftrightarrow> tty_contents t = []"
  using ring_fill_facts(3) [OF tty_invD(1,2) [OF assms]]
  by (simp add: rb_empty_def tty_contents_def word_unat_eq_iff)

interpretation tty_ring: bounded_fifo rd_push rd_take 4095 tty_contents tty_inv
proof unfold_locales
  fix t :: tty_t
  assume i: "tty_inv t"
  note h = tty_invD [OF i]
  note fill = ring_fill_facts [OF h(1,2)]
  show "length (tty_contents t) \<le> 4095"
    using fill(1) by (simp add: tty_contents_def)
  { fix x
    assume c: "length (tty_contents t) < 4095"
    then have nf: "\<not> rb_full (rd_head t) (rd_tail t) 4096"
      by (simp add: rb_full_iff [OF i])
    have nx: "(unat (rd_tail t) + 1) mod 4096 \<noteq> unat (rd_head t)"
      using c fill(4) by (simp add: tty_contents_def)
    show "tty_inv (rd_push t x)"
      using i nf unat_rb_next [OF h(2)] by (simp add: rd_push_def tty_inv_def)
    show "tty_contents (rd_push t x) = tty_contents t @ [x]"
      using nf unat_rb_next [OF h(2)] fill(5) [OF nx] fill(2) c h(3)
        ring_push [of "read_buf t" 4096 "ring_fill 4096 (unat (rd_head t)) (unat (rd_tail t))"
          "unat (rd_tail t)" "unat (rd_head t)" x]
      by (simp add: rd_push_def tty_contents_def) }
  { assume ne: "tty_contents t \<noteq> []"
    then have e: "\<not> rb_empty (rd_head t) (rd_tail t)"
      by (simp add: rb_empty_iff [OF i])
    then have n: "unat (rd_head t) \<noteq> unat (rd_tail t)"
      by (simp add: rb_empty_def word_unat_eq_iff)
    have pos: "0 < ring_fill 4096 (unat (rd_head t)) (unat (rd_tail t))"
      using fill(3) n by simp
    show "tty_inv (snd (rd_take t))"
      using i e unat_rb_next [OF h(1)] by (simp add: rd_take_def rd_pop_def tty_inv_def)
    show "tty_contents t = fst (rd_take t) # tty_contents (snd (rd_take t))"
      using e unat_rb_next [OF h(1)] fill(6) [OF n] ring_pop [OF pos h(1)]
      by (simp add: rd_take_def rd_pop_def tty_contents_def) }
qed

section \<open>Canonical mode as a line editor\<close>

text \<open>The specification: the line being edited and the text handed to readers.\<close>

type_synonym canon = "u8 list \<times> u8 list"

definition canon_step :: "termios_t \<Rightarrow> canon \<Rightarrow> u8 \<Rightarrow> canon" where
  "canon_step tm s c =
     (if c = c_cc tm ! VERASE \<or> c = 8 then (butlast (fst s), snd s)
      else if c = c_cc tm ! VKILL then ([], snd s)
      else if c = c_cc tm ! VEOF then ([], snd s @ fst s)
      else if c = 10 \<or> c = c_cc tm ! VEOL \<or> c = c_cc tm ! VEOL2 \<or>
              c = 13 \<and> c_iflag tm AND ICRNL \<noteq> 0
        then ([], snd s @ fst s @ [10])
      else (fst s @ [c], snd s))"

definition canon_abs :: "tty_t \<Rightarrow> canon" where
  "canon_abs t = (take (line_len t) (line_buf t), tty_contents t)"

text \<open>Characters the editor sees, and settings under which a newline is only a newline.\<close>

definition text_char :: "termios_t \<Rightarrow> u8 \<Rightarrow> bool" where
  "text_char tm c \<longleftrightarrow> c \<noteq> 0 \<and> c \<noteq> 0x1B \<and>
     c \<notin> {c_cc tm ! VINTR, c_cc tm ! VSUSP, c_cc tm ! VQUIT}"

definition canonical :: "termios_t \<Rightarrow> bool" where
  "canonical tm \<longleftrightarrow> c_lflag tm AND ICANON \<noteq> 0 \<and>
     10 \<notin> {c_cc tm ! VINTR, c_cc tm ! VSUSP, c_cc tm ! VQUIT, c_cc tm ! VERASE, c_cc tm ! VKILL,
            c_cc tm ! VEOF}"

section \<open>Lemmas\<close>

lemma rd_push_frame [simp]:
  "termios (rd_push t c) = termios t" "line_buf (rd_push t c) = line_buf t"
  "line_len (rd_push t c) = line_len t" "esc_state (rd_push t c) = esc_state t"
  by (simp_all add: rd_push_def)

lemma foldl_rd_push_frame [simp]:
  "termios (foldl rd_push t xs) = termios t \<and> line_buf (foldl rd_push t xs) = line_buf t \<and>
   line_len (foldl rd_push t xs) = line_len t \<and> esc_state (foldl rd_push t xs) = esc_state t"
  by (induction xs arbitrary: t) simp_all

lemma tty_frame_simps [simp]:
  "tty_contents (t\<lparr>line_len := n\<rparr>) = tty_contents t"
  "tty_contents (t\<lparr>line_buf := lb\<rparr>) = tty_contents t"
  "tty_contents (t\<lparr>t_out := xs\<rparr>) = tty_contents t"
  "tty_contents (t\<lparr>t_wakes := w\<rparr>) = tty_contents t"
  "tty_contents (t\<lparr>esc_state := e\<rparr>) = tty_contents t"
  by (simp_all add: tty_contents_def)

lemma tty_inv_simps [simp]:
  "tty_inv (t\<lparr>t_out := xs\<rparr>) = tty_inv t"
  "tty_inv (t\<lparr>t_wakes := w\<rparr>) = tty_inv t"
  "tty_inv (t\<lparr>esc_state := e\<rparr>) = tty_inv t"
  by (simp_all add: tty_inv_def)

text \<open>The editor's view of a state: buffers well formed, settings and escape state as given.\<close>

definition edits :: "termios_t \<Rightarrow> tty_t \<Rightarrow> canon \<Rightarrow> bool" where
  "edits tm t s \<longleftrightarrow> tty_inv t \<and> termios t = tm \<and> esc_state t = 0 \<and> canon_abs t = s"

lemma editsD:
  assumes "edits tm t s"
  shows "length (fst s) = line_len t" "snd s = tty_contents t" "fst s = take (line_len t) (line_buf t)"
  using assms by (auto simp: edits_def canon_abs_def tty_inv_def)

lemma erase_edits:
  assumes "edits tm t s"
  shows "edits tm (ldisc_erase_char t) (butlast (fst s), snd s)"
proof -
  have "line_len t \<le> length (line_buf t)"
    using assms by (simp add: edits_def tty_inv_def)
  then have "butlast (take (line_len t) (line_buf t)) = take (line_len t - 1) (line_buf t)"
    by (simp add: butlast_take)
  with assms show ?thesis
    by (auto simp: edits_def ldisc_erase_char_def Let_def tty_echo_def canon_abs_def tty_inv_def
        tty_contents_def)
qed

lemma kill_edits:
  assumes "edits tm t s"
  shows "edits tm (ldisc_kill_line t) ([], snd s)"
  using assms
proof (induction t arbitrary: s rule: ldisc_kill_line.induct)
  case (1 t)
  show ?case
  proof (cases "line_len t > 0")
    case True
    from 1(1) [OF True erase_edits [OF 1(2)]] show ?thesis
      by (simp add: ldisc_kill_line.simps [of t] True)
  next
    case False
    with 1(2) show ?thesis
      by (simp add: ldisc_kill_line.simps [of t] edits_def canon_abs_def)
         (metis snd_conv)
  qed
qed

lemma echo_edits: "edits tm t s \<Longrightarrow> edits tm (tty_echo t c) s"
  by (simp add: edits_def tty_echo_def canon_abs_def)

lemma store_edits:
  assumes "edits tm t s" and "line_len t < 4095"
  shows "edits tm (ldisc_store t c) (fst s @ [c], snd s)"
proof -
  have "line_len t < length (line_buf t)"
    using assms by (simp add: edits_def tty_inv_def)
  then have "take (Suc (line_len t)) ((line_buf t)[line_len t := c]) =
      take (line_len t) (line_buf t) @ [c]"
    by (simp add: take_Suc_conv_app_nth)
  with assms show ?thesis
    by (auto simp: edits_def ldisc_store_def Let_def tty_echo_def canon_abs_def tty_inv_def
        tty_contents_def)
qed

lemma flush_edits:
  assumes "edits tm t s" and "length (fst s) + length (snd s) \<le> 4095"
  shows "edits tm (ldisc_flush_line t) ([], snd s @ fst s)"
proof -
  let ?xs = "take (line_len t) (line_buf t)"
  have i: "tty_inv t"
    using assms(1) by (simp add: edits_def)
  have "length (tty_contents t) + length ?xs \<le> 4095"
    using assms(2) editsD [OF assms(1)] by simp
  note run = tty_ring.run_pushes [OF i this]
  then have "tty_inv ((foldl rd_push t ?xs)\<lparr>line_len := 0\<rparr>)"
    by (auto simp: tty_inv_def)
  then show ?thesis
    using run assms(1) editsD [OF assms(1)]
    by (simp add: edits_def ldisc_flush_line_def wake_tty_def canon_abs_def)
qed

lemma newline_edits:
  assumes "edits tm t s" and "canonical tm" and "length (fst s) + length (snd s) < 4095"
  shows "edits tm (tty_input_char t 10) ([], snd s @ fst s @ [10])"
proof -
  have t: "termios t = tm" "esc_state t = 0"
    using assms(1) by (simp_all add: edits_def)
  have "edits tm (ldisc_store t 10) (fst s @ [10], snd s)"
    using store_edits [OF assms(1)] assms(3) editsD [OF assms(1)] by simp
  from flush_edits [OF this] assms(3)
  have "edits tm (ldisc_flush_line (ldisc_store t 10)) ([], snd s @ fst s @ [10])"
    by simp
  then show ?thesis
    using assms(2) t by (simp add: tty_input_char.simps canonical_def cc_of_def)
qed

lemma input_edits:
  assumes "edits tm t s" and "canonical tm" and "text_char tm c"
    and "length (fst s) + length (snd s) < 4095"
  shows "edits tm (tty_input_char t c) (canon_step tm s c)"
proof -
  have t: "termios t = tm" "esc_state t = 0"
    using assms(1) by (simp_all add: edits_def)
  have r: "line_len t < 4095"
    using assms(4) editsD [OF assms(1)] by simp
  have f: "length (fst s) + length (snd s) \<le> 4095"
    using assms(4) by simp
  have k: "edits tm (if c_lflag tm AND ECHO \<noteq> 0 then tty_echo (ldisc_kill_line t) 10
      else ldisc_kill_line t) ([], snd s)"
    using kill_edits [OF assms(1)] echo_edits by simp
  have nl: "edits tm (ldisc_flush_line (ldisc_store t 10)) ([], snd s @ fst s @ [10])"
    using newline_edits [OF assms(1,2,4)] assms(2) t
    by (simp add: tty_input_char.simps [of t 10] canonical_def cc_of_def)
  show ?thesis
    using assms(2,3) t erase_edits [OF assms(1)] k flush_edits [OF assms(1) f] nl
      newline_edits [OF assms(1,2,4)] store_edits [OF assms(1) r, of c]
    by (auto simp: tty_input_char.simps [of t c] canonical_def text_char_def cc_of_def
        canon_step_def Let_def)
qed

lemma canon_step_size:
  "length (fst (canon_step tm s c)) + length (snd (canon_step tm s c)) \<le>
     Suc (length (fst s) + length (snd s))"
  by (auto simp: canon_step_def)

lemma inputs_edit:
  assumes "edits tm t s" and "canonical tm" and "\<forall>c \<in> set cs. text_char tm c"
    and "length (fst s) + length (snd s) + length cs \<le> 4095"
  shows "edits tm (foldl tty_input_char t cs) (foldl (canon_step tm) s cs)"
  using assms(1,3,4)
proof (induction cs arbitrary: t s)
  case (Cons c cs)
  have "edits tm (tty_input_char t c) (canon_step tm s c)"
    using input_edits [OF Cons.prems(1) assms(2)] Cons.prems(2,3) by simp
  then show ?case
    using Cons.IH [of "tty_input_char t c" "canon_step tm s c"] Cons.prems(2,3)
      canon_step_size [of tm s c] by simp
qed simp

lemma foldl_rd_push_pgid: "fg_pgid (foldl rd_push t xs) = fg_pgid t"
  by (induction xs arbitrary: t) (simp_all add: rd_push_def)

lemma kill_pgid: "fg_pgid (ldisc_kill_line t) = fg_pgid t"
  by (induction t rule: ldisc_kill_line.induct)
    (subst ldisc_kill_line.simps, simp add: ldisc_erase_char_def Let_def tty_echo_def)

lemma input_pgid: "fg_pgid (tty_input_char t c) = fg_pgid t"
  by (induction t c rule: tty_input_char.induct)
    (subst tty_input_char.simps, simp add: Let_def tty_signal_def signal_send_pgrp_def
      tty_flush_input_def ldisc_erase_char_def kill_pgid tty_echo_def ldisc_flush_line_def
      foldl_rd_push_pgid ldisc_store_def wake_tty_def rd_push_def)

text \<open>Up to and including the first newline.\<close>

fun first_line :: "u8 list \<Rightarrow> u8 list" where
  "first_line [] = []"
| "first_line (c # cs) = (if c = 10 then [c] else c # first_line cs)"

lemma rd_drain_canonical:
  assumes "tty_inv t" and "c_lflag (termios t) AND ICANON \<noteq> 0"
  shows "fst (rd_drain k vmin t got) = got @ take k (first_line (tty_contents t)) \<and>
    tty_contents (snd (rd_drain k vmin t got)) =
      drop (length (take k (first_line (tty_contents t)))) (tty_contents t)"
  using assms
proof (induction k vmin t got rule: rd_drain.induct)
  case (2 k vmin t got)
  show ?case
  proof (cases "tty_contents t = []")
    case True
    then have "rd_pop t = None"
      by (simp add: rd_pop_def rb_empty_iff [OF 2(2)])
    with True show ?thesis
      by simp
  next
    case False
    have "\<not> rb_empty (rd_head t) (rd_tail t)"
      by (simp add: rb_empty_iff [OF 2(2)] False)
    then have pop: "rd_pop t = Some (rd_take t)" and tm: "termios (snd (rd_take t)) = termios t"
      by (simp_all add: rd_take_def rd_pop_def)
    note c = tty_ring.pop_contents [OF 2(2) False]
    note inv = tty_ring.pop_inv [OF 2(2) False]
    show ?thesis
    proof (cases "fst (rd_take t) = 10")
      case True
      then show ?thesis
        using 2(3) by (subst (1 2 3) c) (simp add: pop case_prod_unfold)
    next
      case nl: False
      have "(fst (rd_take t), snd (rd_take t)) = rd_take t"
        by simp
      from 2(1) [OF pop this refl _ _ inv] nl 2(3) tm
      show ?thesis
        by (subst (1 2 3) c) (simp add: pop case_prod_unfold nl)
    qed
  qed
qed simp

lemma console_runs_eq:
  assumes "run_start \<le> i" and "i \<le> length buf"
    and "\<forall>k. run_start \<le> k \<and> k < i \<longrightarrow> buf ! k \<noteq> 10"
  shows "console_runs buf run_start i = take (i - run_start) (drop run_start buf) @
    write_chars True (drop i buf)"
  using assms
proof (induction buf run_start i rule: console_runs.induct)
  case (1 buf r i)
  show ?case
  proof (cases "i < length buf")
    case False
    with 1(4) 1(3) show ?thesis
      by (subst console_runs.simps) auto
  next
    case True
    then have d: "drop i buf = buf ! i # drop (Suc i) buf"
      by (simp add: Cons_nth_drop_Suc)
    show ?thesis
    proof (cases "buf ! i = 10")
      case nl: True
      have "console_runs buf (i + 1) (i + 1) = write_chars True (drop (Suc i) buf)"
        using 1(1) [OF True nl] True by (auto dest: leD)
      then show ?thesis
        using True 1(3) nl by (subst console_runs.simps) (auto simp: d)
    next
      case False
      have "take (Suc i - r) (drop r buf) = take (i - r) (drop r buf) @ [buf ! i]"
        using True 1(3) by (simp add: Suc_diff_le take_Suc_conv_app_nth)
      moreover have "\<forall>k. r \<le> k \<and> k < i + 1 \<longrightarrow> buf ! k \<noteq> 10"
        using 1(5) False by (metis less_Suc_eq Suc_eq_plus1)
      ultimately show ?thesis
        using 1(2) [OF True False] True 1(3) False
        by (subst console_runs.simps) (simp add: d)
    qed
  qed
qed

section \<open>Properties\<close>

text \<open>C11: In canonical mode the line discipline is a line editor. For settings in which newline has
  no second meaning, any sequence of text characters (erase, kill, end-of-file and carriage return
  included) that fits the buffers leaves exactly the edited line and the finished text that the
  specification computes; a read then returns the first finished line, cut to the caller's
  length, and removes it.\<close>

theorem tty_canonical_editor:
  assumes "edits tm t s" and "canonical tm" and "\<forall>c \<in> set cs. text_char tm c"
    and "length (fst s) + length (snd s) + length cs \<le> 4095"
    and "u = foldl tty_input_char t cs" and "r = foldl (canon_step tm) s cs"
    and "snd r \<noteq> []" and "0 < len" and "\<not> tty_background ca u"
  shows "canon_abs u = r \<and>
    (\<exists>u'. tty_vfs_read ca u len = (IoRead (take len (first_line (snd r))), u') \<and>
       tty_contents u' = drop (length (take len (first_line (snd r)))) (snd r))"
proof -
  have e: "edits tm u r"
    unfolding assms(5,6) by (rule inputs_edit [OF assms(1-4)])
  then have u: "tty_inv u" "canon_abs u = r" "c_lflag (termios u) AND ICANON \<noteq> 0"
      "tty_contents u = snd r"
    using assms(2) editsD(2) [OF e] by (simp_all add: edits_def canonical_def)
  then have "\<not> rb_empty (rd_head u) (rd_tail u)"
    using assms(7) by (simp add: rb_empty_iff)
  with u rd_drain_canonical [OF u(1,3), of len 1 "[]"] assms(8,9) show ?thesis
    by (auto simp: tty_vfs_read_def case_prod_unfold)
qed

theorem tty_canonical_editor_witness:
  "tty_vfs_read \<lparr>ca_sid = 1, ca_pgid = 1\<rparr> (foldl tty_input_char tty_init [108, 120, 127, 115, 13]) 80 =
     (IoRead [108, 115, 10],
      snd (tty_vfs_read \<lparr>ca_sid = 1, ca_pgid = 1\<rparr>
        (foldl tty_input_char tty_init [108, 120, 127, 115, 13]) 80))"
proof -
  let ?tm = "termios tty_init" and ?cs = "[108, 120, 127, 115, 13] :: u8 list"
  let ?u = "foldl tty_input_char tty_init ?cs" and ?r = "foldl (canon_step ?tm) ([], []) ?cs"
  have e: "edits ?tm tty_init ([], [])"
    by (simp add: edits_def tty_inv_def canon_abs_def tty_init_def tty_contents_def ring_fill_def)
  have c: "canonical ?tm" "\<forall>c \<in> set ?cs. text_char ?tm c"
    by (simp_all add: canonical_def text_char_def tty_init_def)
  have r: "?r = ([], [108, 115, 10])"
    by (simp add: canon_step_def tty_init_def)
  have "fg_pgid ?u = 1"
    by (simp add: input_pgid) (simp add: tty_init_def)
  then have b: "\<not> tty_background \<lparr>ca_sid = 1, ca_pgid = 1\<rparr> ?u"
    by (simp add: tty_background_def)
  from tty_canonical_editor [OF e c _ refl refl _ _ b, of 80] show ?thesis
    unfolding r by auto
qed

text \<open>The end-of-file character does not end a file. Typed on an empty line of a canonical
  terminal with nothing to read, it leaves the read buffer empty, so a read by the foreground
  process blocks exactly as before; the comment in the source says that the empty flush signals
  the end of the file.\<close>

theorem tty_eof_never_read:
  assumes "edits tm t ([], [])" and "canonical tm" and "text_char tm (c_cc tm ! VEOF)"
    and "c_cc tm ! VEOF \<notin> {8, c_cc tm ! VERASE, c_cc tm ! VKILL}" and "0 < len"
    and "\<not> tty_background ca (tty_input_char t (c_cc tm ! VEOF))"
  shows "tty_vfs_read ca (tty_input_char t (c_cc tm ! VEOF)) len =
    (IoBlocked, tty_input_char t (c_cc tm ! VEOF))"
proof -
  let ?u = "tty_input_char t (c_cc tm ! VEOF)"
  have "canon_step tm ([], []) (c_cc tm ! VEOF) = ([], [])"
    using assms(4) by (simp add: canon_step_def)
  then have e: "edits tm ?u ([], [])"
    using input_edits [OF assms(1-3)] by simp
  then have "rb_empty (rd_head ?u) (rd_tail ?u)"
    using editsD(2) [OF e] by (simp add: edits_def rb_empty_iff)
  with assms(5,6) show ?thesis
    by (simp add: tty_vfs_read_def)
qed

theorem tty_eof_never_read_witness:
  "fst (tty_vfs_read \<lparr>ca_sid = 1, ca_pgid = 1\<rparr> (tty_input_char tty_init 4) 10) = IoBlocked"
proof -
  let ?tm = "termios tty_init"
  have cc: "c_cc ?tm ! VEOF = 4" "c_cc ?tm ! VERASE = 127" "c_cc ?tm ! VKILL = 21"
    by (simp_all add: tty_init_def)
  have e: "edits ?tm tty_init ([], [])"
    by (simp add: edits_def tty_inv_def canon_abs_def tty_init_def tty_contents_def ring_fill_def)
  have c: "canonical ?tm" "text_char ?tm (c_cc ?tm ! VEOF)"
    by (simp_all add: canonical_def text_char_def tty_init_def)
  have "fg_pgid (tty_input_char tty_init 4) = 1"
    by (simp add: input_pgid) (simp add: tty_init_def)
  then have b: "\<not> tty_background \<lparr>ca_sid = 1, ca_pgid = 1\<rparr> (tty_input_char tty_init (c_cc ?tm ! VEOF))"
    by (simp add: tty_background_def cc)
  from tty_eof_never_read [OF e c _ _ b, of 10] show ?thesis
    by (simp add: cc)
qed

text \<open>The batched console writer, which emits runs between newlines, produces byte for byte what
  the per-character path of \<^verbatim>\<open>tty_vfs_write\<close> produces.\<close>

theorem console_write_buf_eq: "console_write_buf t buf = write_chars (onlcr t) buf"
proof -
  have "write_chars False buf = buf"
    by (induction buf) simp_all
  then show ?thesis
    using console_runs_eq [of 0 0 buf] by (simp add: console_write_buf_def)
qed

end
