(* ===== verification/Pty.thy ===== *)
theory Pty
  imports Tty
begin

text \<open>
  Pseudo-terminals: \<^verbatim>\<open>kernel/drivers/tty/pty.c\<close>. The slave is a terminal of theory \<open>Tty\<close> whose
  output goes into the master ring; file handles are numbers, and \<open>freed\<close> records the slave
  handles that were given to \<^verbatim>\<open>kfree\<close>. A blocking call is split at its sleeping points.
\<close>

section \<open>State\<close>

abbreviation (input) PTY_MASTER_BUF :: nat where "PTY_MASTER_BUF \<equiv> 65536"

record pty_t =
  slave :: tty_t
  master_buf :: "u8 list"
  m_head :: u32
  m_tail :: u32
  master_open :: bool
  slave_open_count :: int
  pty_index :: nat
  slave_file :: "nat option"
  slave_claimed :: bool

definition mb_next :: "u32 \<Rightarrow> u32" where
  "mb_next i = (i + 1) AND (65536 - 1)"

definition mb_empty :: "pty_t \<Rightarrow> bool" where
  "mb_empty p \<longleftrightarrow> m_head p = m_tail p"

definition mb_full :: "pty_t \<Rightarrow> bool" where
  "mb_full p \<longleftrightarrow> mb_next (m_head p) = m_tail p"

definition mb_put :: "pty_t \<Rightarrow> u8 \<Rightarrow> pty_t" where
  "mb_put p c = p\<lparr>master_buf := (master_buf p)[unat (m_head p) := c], m_head := mb_next (m_head p)\<rparr>"

definition mb_get :: "pty_t \<Rightarrow> u8 \<times> pty_t" where
  "mb_get p = (master_buf p ! unat (m_tail p), p\<lparr>m_tail := mb_next (m_tail p)\<rparr>)"

section \<open>Slave output\<close>

definition pty_slave_write_char :: "pty_t \<Rightarrow> u8 \<Rightarrow> pty_t" where
  "pty_slave_write_char p c =
     (if \<not> master_open p then p else if \<not> mb_full p then mb_put p c else p)"

definition pty_master_push_byte :: "pty_t \<Rightarrow> u8 \<Rightarrow> pty_t option" where
  "pty_master_push_byte p c = (if mb_full p then None else Some (mb_put p c))"

text \<open>The inner loop of \<^verbatim>\<open>pty_slave_write_buf\<close>: the bytes left over, and whether any was pushed.\<close>

fun pty_push_phase :: "bool \<Rightarrow> pty_t \<Rightarrow> u8 list \<Rightarrow> bool \<Rightarrow> pty_t \<times> u8 list \<times> bool" where
  "pty_push_phase cr p [] any = (p, [], any)"
| "pty_push_phase cr p (c # cs) any =
     (if cr \<and> c = 10 then
        (case pty_master_push_byte p 13 of
           None \<Rightarrow> (p, c # cs, any)
         | Some p1 \<Rightarrow>
             case pty_master_push_byte p1 10 of
               None \<Rightarrow> (p1\<lparr>m_head := (m_head p1 - 1) AND (65536 - 1)\<rparr>, c # cs, any)
             | Some p2 \<Rightarrow> pty_push_phase cr p2 cs True)
      else
        (case pty_master_push_byte p c of
           None \<Rightarrow> (p, c # cs, any)
         | Some p1 \<Rightarrow> pty_push_phase cr p1 cs True))"

datatype pty_wr = PwDone | PwGone | PwSleep | PwRetry

text \<open>One round of the outer loop: push, wake the master, then return, give up, sleep, or go round
  again at once because the wait condition already holds.\<close>

definition pty_slave_write_round :: "pty_t \<Rightarrow> u8 list \<Rightarrow> pty_wr \<times> u8 list \<times> pty_t" where
  "pty_slave_write_round p buf =
     (let (p', rest, any) = pty_push_phase (onlcr (slave p)) p buf False
      in ((if rest = [] then PwDone
           else if \<not> master_open p' then PwGone
           else if mb_full p' then PwSleep else PwRetry), rest, p'))"

definition pty_slave_write :: "caller \<Rightarrow> pty_t \<Rightarrow> u8 list \<Rightarrow> (pty_wr \<times> u8 list \<times> pty_t) result" where
  "pty_slave_write ca p buf =
     (if \<not> master_open p then Inl EIO
      else if tty_background ca (slave p) \<and> c_lflag (termios (slave p)) AND TOSTOP \<noteq> 0
        then Inl EINTR
      else if buf = [] then Inr (PwDone, [], p)
      else Inr (pty_slave_write_round p buf))"

section \<open>The master side\<close>

fun mb_drain :: "nat \<Rightarrow> pty_t \<Rightarrow> u8 list \<Rightarrow> u8 list \<times> pty_t" where
  "mb_drain 0 p got = (got, p)"
| "mb_drain (Suc k) p got =
     (if mb_empty p then (got, p)
      else mb_drain k (snd (mb_get p)) (got @ [fst (mb_get p)]))"

datatype pty_rd = PrRead "u8 list" | PrEof | PrAgain | PrSleep

definition pty_master_read :: "pty_t \<Rightarrow> bool \<Rightarrow> nat \<Rightarrow> pty_rd \<times> pty_t" where
  "pty_master_read p nonblock len =
     (if len = 0 then (PrRead [], p)
      else if mb_empty p \<and> nonblock then (if slave_open_count p = 0 then (PrEof, p) else (PrAgain, p))
      else if mb_empty p \<and> slave_open_count p = 0 then (PrEof, p)
      else if mb_empty p then (PrSleep, p)
      else let (got, p') = mb_drain len p [] in (PrRead got, p'))"

text \<open>Input goes through the slave's line discipline; what that echoes goes into the ring.\<close>

definition pty_input :: "pty_t \<Rightarrow> u8 \<Rightarrow> pty_t" where
  "pty_input p c =
     (let t = tty_input_char ((slave p)\<lparr>t_out := []\<rparr>) c
      in foldl pty_slave_write_char (p\<lparr>slave := t\<lparr>t_out := t_out (slave p)\<rparr>\<rparr>) (t_out t))"

definition pty_master_write :: "pty_t \<Rightarrow> u8 list \<Rightarrow> nat \<times> pty_t" where
  "pty_master_write p buf = (length buf, foldl pty_input p buf)"

definition pty_master_poll :: "pty_t \<Rightarrow> bool \<times> bool" where
  "pty_master_poll p = (\<not> mb_empty p, True)"

section \<open>The slave side\<close>

definition pty_slave_read :: "caller \<Rightarrow> pty_t \<Rightarrow> nat \<Rightarrow> (tty_io \<times> pty_t) result" where
  "pty_slave_read ca p len =
     (if len = 0 then Inr (IoRead [], p)
      else if \<not> master_open p then Inl EIO
      else if tty_background ca (slave p) then Inl EINTR
      else if rb_empty (rd_head (slave p)) (rd_tail (slave p)) then Inr (IoBlocked, p)
      else let t = slave p;
               vmin0 = (if c_lflag (termios t) AND ICANON \<noteq> 0 then 1 else unat (cc_of t VMIN));
               vmin = (if vmin0 = 0 then 1 else vmin0);
               (got, t') = rd_drain len vmin t []
           in Inr (IoRead got, p\<lparr>slave := t'\<rparr>))"

definition pty_slave_poll :: "pty_t \<Rightarrow> bool \<times> bool" where
  "pty_slave_poll p = (\<not> rb_empty (rd_head (slave p)) (rd_tail (slave p)), True)"

section \<open>The list of ptys\<close>

record pty_sys =
  pty_list :: "pty_t list"
  next_pty_index :: nat
  next_file :: nat
  freed :: "nat set"

definition pty_sys_init :: pty_sys where
  "pty_sys_init = \<lparr>pty_list = [], next_pty_index = 0, next_file = 0, freed = {}\<rparr>"

definition pty_fresh :: "nat \<Rightarrow> pty_t" where
  "pty_fresh idx = \<lparr>slave = tty_init\<lparr>fg_pgid := 0, session := 0\<rparr>,
     master_buf = replicate PTY_MASTER_BUF 0, m_head = 0, m_tail = 0, master_open = True,
     slave_open_count = 1, pty_index = idx, slave_file = None, slave_claimed = False\<rparr>"

text \<open>\<^verbatim>\<open>pty_alloc\<close>: \<open>early_ok\<close> covers the two allocations made before the pty is linked into the list,
  \<open>late_ok\<close> the four after it (on failure the pty is unlinked and freed again). The result is the
  slave's file handle.\<close>

definition pty_alloc :: "bool \<Rightarrow> bool \<Rightarrow> pty_sys \<Rightarrow> nat result \<times> pty_sys" where
  "pty_alloc early_ok late_ok s =
     (if \<not> early_ok then (Inl ENOMEM, s)
      else let s1 = s\<lparr>next_pty_index := Suc (next_pty_index s)\<rparr>
           in if \<not> late_ok then (Inl ENOMEM, s1)
              else (Inr (next_file s), s1\<lparr>pty_list := pty_fresh (next_pty_index s) # pty_list s,
                                         next_file := Suc (next_file s)\<rparr>))"

definition pty_open_master :: "bool \<Rightarrow> bool \<Rightarrow> pty_sys \<Rightarrow> unit result \<times> pty_sys" where
  "pty_open_master early_ok late_ok s =
     (case pty_alloc early_ok late_ok s of
        (Inl e, s') \<Rightarrow> (Inl e, s')
      | (Inr sf, s') \<Rightarrow>
          (Inr (), s'\<lparr>pty_list := (case pty_list s' of [] \<Rightarrow> []
             | p # ps \<Rightarrow> p\<lparr>slave_file := Some sf, slave_claimed := False\<rparr> # ps)\<rparr>))"

fun pty_open_slave_by_index :: "pty_t list \<Rightarrow> nat \<Rightarrow> nat option \<times> pty_t list" where
  "pty_open_slave_by_index [] n = (None, [])"
| "pty_open_slave_by_index (p # ps) n =
     (if pty_index p \<noteq> n then
        (let (r, ps') = pty_open_slave_by_index ps n in (r, p # ps'))
      else (slave_file p, p\<lparr>slave_claimed := slave_claimed p \<or> slave_file p \<noteq> None\<rparr> # ps))"

text \<open>\<^verbatim>\<open>pty_slave_close\<close> on handle \<open>f\<close> of pty \<open>n\<close>: the handle is freed, the pty when both sides are
  closed.\<close>

definition pty_slave_close :: "nat \<Rightarrow> nat \<Rightarrow> pty_sys \<Rightarrow> pty_sys" where
  "pty_slave_close f n s =
     (let ps = map (\<lambda>p. if pty_index p = n then p\<lparr>slave_open_count := slave_open_count p - 1\<rparr> else p)
                   (pty_list s)
      in s\<lparr>pty_list := filter (\<lambda>p. \<not> (pty_index p = n \<and> slave_open_count p = 0 \<and>
                                     \<not> master_open p)) ps,
           freed := insert f (freed s)\<rparr>)"

definition pty_drop_parked :: "nat \<Rightarrow> pty_sys \<Rightarrow> pty_sys" where
  "pty_drop_parked n s =
     (case find (\<lambda>p. pty_index p = n) (pty_list s) of
        Some p \<Rightarrow>
          (case slave_file p of
             Some f \<Rightarrow>
               if \<not> slave_claimed p then
                 pty_slave_close f n (s\<lparr>pty_list :=
                   map (\<lambda>p. if pty_index p = n then p\<lparr>slave_file := None\<rparr> else p) (pty_list s)\<rparr>)
               else s
           | None \<Rightarrow> s)
      | None \<Rightarrow> s)"

definition pty_master_close :: "nat \<Rightarrow> pty_sys \<Rightarrow> pty_sys" where
  "pty_master_close n s =
     (let s1 = pty_drop_parked n s;
          ps = map (\<lambda>p. if pty_index p = n then p\<lparr>master_open := False\<rparr> else p) (pty_list s1)
      in s1\<lparr>pty_list := filter (\<lambda>p. \<not> (pty_index p = n \<and> slave_open_count p = 0)) ps\<rparr>)"

section \<open>The ring meets the contract\<close>

definition mb_contents :: "pty_t \<Rightarrow> u8 list" where
  "mb_contents p = ring_contents PTY_MASTER_BUF (master_buf p) (unat (m_tail p))
     (ring_fill PTY_MASTER_BUF (unat (m_tail p)) (unat (m_head p)))"

definition mb_inv :: "pty_t \<Rightarrow> bool" where
  "mb_inv p \<longleftrightarrow> length (master_buf p) = PTY_MASTER_BUF \<and>
     unat (m_head p) < PTY_MASTER_BUF \<and> unat (m_tail p) < PTY_MASTER_BUF"

lemma unat_mb_next:
  assumes "unat i < 65536"
  shows "unat (mb_next i) = (unat i + 1) mod 65536"
  using unat_ring_step [of i 16 "65536 - 1"] assms by (simp add: mb_next_def mask_eq_exp_minus_1)

lemma mb_invD:
  assumes "mb_inv p"
  shows "unat (m_tail p) < 65536" "unat (m_head p) < 65536" "length (master_buf p) = 65536"
  using assms by (simp_all add: mb_inv_def)

lemma mb_full_iff:
  assumes "mb_inv p"
  shows "mb_full p \<longleftrightarrow> length (mb_contents p) = 65535"
proof -
  note h = mb_invD [OF assms]
  have "mb_full p \<longleftrightarrow> (unat (m_head p) + 1) mod 65536 = unat (m_tail p)"
    using unat_mb_next [OF h(2)] by (simp add: mb_full_def word_unat_eq_iff)
  then show ?thesis
    using ring_fill_facts(1,4) [OF h(1,2)] by (simp add: mb_contents_def) linarith
qed

lemma mb_empty_iff:
  assumes "mb_inv p"
  shows "mb_empty p \<longleftrightarrow> mb_contents p = []"
  using ring_fill_facts(3) [OF mb_invD(1,2) [OF assms]]
  by (auto simp: mb_empty_def mb_contents_def word_unat_eq_iff)

interpretation master_ring: bounded_fifo mb_put mb_get 65535 mb_contents mb_inv
proof unfold_locales
  fix p :: pty_t
  assume i: "mb_inv p"
  note h = mb_invD [OF i]
  note fill = ring_fill_facts [OF h(1,2)]
  show "length (mb_contents p) \<le> 65535"
    using fill(1) by (simp add: mb_contents_def)
  { fix x
    assume c: "length (mb_contents p) < 65535"
    then have nx: "(unat (m_head p) + 1) mod 65536 \<noteq> unat (m_tail p)"
      using fill(4) by (simp add: mb_contents_def)
    show "mb_inv (mb_put p x)"
      using i unat_mb_next [OF h(2)] by (simp add: mb_put_def mb_inv_def)
    show "mb_contents (mb_put p x) = mb_contents p @ [x]"
      using unat_mb_next [OF h(2)] fill(5) [OF nx] fill(2) c h(3)
        ring_push [of "master_buf p" 65536 "ring_fill 65536 (unat (m_tail p)) (unat (m_head p))"
          "unat (m_head p)" "unat (m_tail p)" x]
      by (simp add: mb_put_def mb_contents_def) }
  { assume "mb_contents p \<noteq> []"
    then have n: "unat (m_tail p) \<noteq> unat (m_head p)"
      using mb_empty_iff [OF i] by (auto simp: mb_empty_def word_unat_eq_iff)
    have pos: "0 < ring_fill 65536 (unat (m_tail p)) (unat (m_head p))"
      using fill(3) n by simp
    show "mb_inv (snd (mb_get p))"
      using i unat_mb_next [OF h(1)] by (simp add: mb_get_def mb_inv_def)
    show "mb_contents p = fst (mb_get p) # mb_contents (snd (mb_get p))"
      using unat_mb_next [OF h(1)] fill(6) [OF n] ring_pop [OF pos h(1)]
      by (simp add: mb_get_def mb_contents_def) }
qed

section \<open>Lemmas\<close>

lemma mb_put_frame [simp]:
  "slave (mb_put p c) = slave p" "master_open (mb_put p c) = master_open p"
  "slave_open_count (mb_put p c) = slave_open_count p"
  by (simp_all add: mb_put_def)

lemma mb_get_frame [simp]:
  "slave (snd (mb_get p)) = slave p" "master_open (snd (mb_get p)) = master_open p"
  "slave_open_count (snd (mb_get p)) = slave_open_count p"
  by (simp_all add: mb_get_def)

lemma mb_room: "mb_inv p \<Longrightarrow> \<not> mb_full p \<Longrightarrow> length (mb_contents p) < 65535"
  using mb_full_iff [of p] master_ring.bound [of p] by linarith

lemma mb_step_back:
  assumes "unat (i :: u32) < 65536"
  shows "(mb_next i - 1) AND (65536 - 1) = i"
proof -
  have m: "(65536 - 1 :: u32) = mask 16"
    by (simp add: mask_eq_exp_minus_1)
  have i: "i AND mask 16 = i"
    using assms by (simp add: word_unat_eq_iff unat_and_mask)
  show ?thesis
  proof (cases "unat i + 1 = 65536")
    case True
    then have "i = 65535"
      by (simp add: word_unat_eq_iff)
    then show ?thesis
      by (simp add: mb_next_def)
  next
    case False
    then have "mb_next i = i + 1"
      using assms unat_mb_next [OF assms] unat_add_lem [THEN iffD1, of i 1]
      by (simp add: word_unat_eq_iff)
    then have "mb_next i - 1 = i"
      by simp
    then show ?thesis
      by (simp only: m i)
  qed
qed

lemma mb_uncommit:
  fixes p :: pty_t and c :: u8
  assumes "mb_inv p" and "\<not> mb_full p"
  defines "q \<equiv> (mb_put p c)\<lparr>m_head := (m_head (mb_put p c) - 1) AND (65536 - 1)\<rparr>"
  shows "mb_inv q" and "mb_contents q = mb_contents p"
proof -
  note h = mb_invD [OF assms(1)]
  have hd: "m_head q = m_head p"
    using mb_step_back [OF h(2)] by (simp add: q_def mb_put_def)
  then show "mb_inv q"
    using assms(1) by (simp add: mb_inv_def q_def mb_put_def)
  have "ring_fill 65536 (unat (m_tail p)) (unat (m_head p)) < 65536"
    by (rule ring_fill_facts(1) [OF h(1,2)])
  from ring_update_outside [OF this ring_fill_facts(2) [OF h(1,2), symmetric]] hd
  show "mb_contents q = mb_contents p"
    by (simp add: mb_contents_def q_def mb_put_def)
qed

text \<open>The push phase moves a prefix of its input into the ring, translated, and loses nothing.\<close>

lemma pty_push_phase_spec:
  assumes "mb_inv p" and "pty_push_phase cr p src any = (p', rest, any')"
  shows "mb_inv p' \<and> slave p' = slave p \<and> master_open p' = master_open p \<and>
    mb_contents p' @ write_chars cr rest = mb_contents p @ write_chars cr src"
  using assms
proof (induction cr p src any arbitrary: p' rest any' rule: pty_push_phase.induct)
  case (2 cr p c cs any)
  show ?case
  proof (cases "mb_full p")
    case True
    with 2(4) 2(3) show ?thesis
      by (auto simp: pty_master_push_byte_def split: if_splits)
  next
    case False
    note room = mb_room [OF 2(3) False]
    note put = master_ring.push_inv [OF 2(3) room] master_ring.push_contents [OF 2(3) room]
    show ?thesis
    proof (cases "cr \<and> c = 10")
      case plain: False
      have push: "pty_master_push_byte p c = Some (mb_put p c)"
        using False by (simp add: pty_master_push_byte_def)
      have "pty_push_phase cr (mb_put p c) cs True = (p', rest, any')"
        using 2(4) plain push by simp
      from 2(2) [OF plain push put(1) this] put(2) [of c] plain show ?thesis
        by auto
    next
      case nl: True
      have push: "pty_master_push_byte p 13 = Some (mb_put p 13)"
        using False by (simp add: pty_master_push_byte_def)
      show ?thesis
      proof (cases "mb_full (mb_put p 13)")
        case True
        with 2(4) nl push mb_uncommit [OF 2(3) False] show ?thesis
          by (auto simp: pty_master_push_byte_def)
      next
        case nf: False
        note room2 = mb_room [OF put(1) nf]
        note put2 = master_ring.push_inv [OF put(1) room2] master_ring.push_contents [OF put(1) room2]
        have push2: "pty_master_push_byte (mb_put p 13) 10 = Some (mb_put (mb_put p 13) 10)"
          using nf by (simp add: pty_master_push_byte_def)
        have "pty_push_phase cr (mb_put (mb_put p 13) 10) cs True = (p', rest, any')"
          using 2(4) nl push push2 by simp
        from 2(1) [OF nl push push2 put2(1) this] put(2) [of 13] put2(2) [of 10] nl show ?thesis
          by auto
      qed
    qed
  qed
qed simp

lemma mb_drain_spec:
  assumes "mb_inv p"
  shows "mb_inv (snd (mb_drain k p got)) \<and>
    fst (mb_drain k p got) = got @ take k (mb_contents p) \<and>
    mb_contents (snd (mb_drain k p got)) = drop k (mb_contents p) \<and>
    slave (snd (mb_drain k p got)) = slave p"
  using assms
proof (induction k p got rule: mb_drain.induct)
  case (2 k p got)
  show ?case
  proof (cases "mb_empty p")
    case True
    with 2(2) show ?thesis
      by (simp add: mb_empty_iff)
  next
    case False
    then have ne: "mb_contents p \<noteq> []"
      using 2(2) by (simp add: mb_empty_iff)
    note c = master_ring.pop_contents [OF 2(2) ne]
    from 2(1) [OF False master_ring.pop_inv [OF 2(2) ne]] show ?thesis
      by (subst (1 2) c) (simp add: False)
  qed
qed simp

section \<open>Output under flow control\<close>

text \<open>A writer with bytes left to write and a master that reads, in any order: the pty, the bytes
  left, and the bytes the master has received.\<close>

inductive pty_flow :: "pty_t \<times> u8 list \<times> u8 list \<Rightarrow> pty_t \<times> u8 list \<times> u8 list \<Rightarrow> bool" where
  flow_start: "pty_flow s s"
| flow_write: "pty_flow s (p, src, d) \<Longrightarrow> pty_slave_write_round p src = (r, rest, p') \<Longrightarrow>
     pty_flow s (p', rest, d)"
| flow_read: "pty_flow s (p, src, d) \<Longrightarrow> pty_master_read p nb len = (PrRead got, p') \<Longrightarrow>
     pty_flow s (p', src, d @ got)"

lemma write_round_spec:
  assumes "mb_inv p" and "pty_slave_write_round p src = (r, rest, p')"
  shows "mb_inv p' \<and> slave p' = slave p \<and>
    mb_contents p' @ write_chars (onlcr (slave p)) rest =
      mb_contents p @ write_chars (onlcr (slave p)) src"
proof -
  obtain any where "pty_push_phase (onlcr (slave p)) p src False = (p', rest, any)"
    using assms(2) by (auto simp: pty_slave_write_round_def split: prod.splits)
  from pty_push_phase_spec [OF assms(1) this] show ?thesis
    by simp
qed

lemma master_read_spec:
  assumes "mb_inv p" and "pty_master_read p nb len = (PrRead got, p')"
  shows "mb_inv p' \<and> slave p' = slave p \<and> mb_contents p = got @ mb_contents p'"
  using assms mb_drain_spec [OF assms(1), of len "[]"]
  by (auto simp: pty_master_read_def split: if_splits prod.splits)

lemma pty_flow_conserves:
  assumes "pty_flow s u" and "mb_inv (fst s)"
  shows "case s of (p, src, d) \<Rightarrow> case u of (p', src', d') \<Rightarrow>
    mb_inv p' \<and> slave p' = slave p \<and>
    d' @ mb_contents p' @ write_chars (onlcr (slave p)) src' =
      d @ mb_contents p @ write_chars (onlcr (slave p)) src"
  using assms
proof (induction rule: pty_flow.induct)
  case (flow_write s p src d r rest p')
  then show ?case
    using write_round_spec [of p src r rest p'] by (auto split: prod.splits)
next
  case (flow_read s p src d nb len got p')
  then show ?case
    using master_read_spec [of p nb len got p'] by (auto split: prod.splits)
qed auto

section \<open>Properties\<close>


lemma pty_fresh_simps [simp]:
  "mb_inv (pty_fresh n)" "mb_contents (pty_fresh n) = []" "onlcr (slave (pty_fresh n))"
  "pty_index (pty_fresh n) = n" "slave_open_count (pty_fresh n) = 1" "master_open (pty_fresh n)"
  "slave_claimed (pty_fresh n) = False"
  by (simp_all add: mb_inv_def mb_contents_def pty_fresh_def ring_fill_def onlcr_def tty_init_def)


text \<open>A writer can spin. With exactly one free byte in the ring and a newline next, the round
  pushes CR, retracts it because LF does not fit, and does not sleep, since the ring is not full:
  same bytes left, same ring contents, and the loop goes round again.\<close>

theorem pty_write_spins:
  assumes "mb_inv p" and "length (mb_contents p) = 65534" and "onlcr (slave p)"
    and "master_open p"
  shows "\<exists>p'. pty_slave_write_round p (10 # cs) = (PwRetry, 10 # cs, p') \<and>
    mb_contents p' = mb_contents p \<and> mb_inv p'"
proof -
  have nf: "\<not> mb_full p"
    by (simp add: mb_full_iff [OF assms(1)] assms(2))
  have room: "length (mb_contents p) < 65535"
    by (simp add: assms(2))
  note put = master_ring.push_inv [OF assms(1) room] master_ring.push_contents [OF assms(1) room]
  have full: "mb_full (mb_put p 13)"
    by (simp add: mb_full_iff [OF put(1)] put(2) assms(2))
  let ?q = "(mb_put p 13)\<lparr>m_head := (m_head (mb_put p 13) - 1) AND (65536 - 1)\<rparr>"
  note q = mb_uncommit [OF assms(1) nf, of 13]
  have "\<not> mb_full ?q"
    by (simp only: mb_full_iff [OF q(1)] q(2) assms(2))
  moreover have "pty_push_phase (onlcr (slave p)) p (10 # cs) False = (?q, 10 # cs, False)"
    using nf full assms(3) by (simp add: pty_master_push_byte_def)
  ultimately have "pty_slave_write_round p (10 # cs) = (PwRetry, 10 # cs, ?q)"
    using assms(4) by (simp add: pty_slave_write_round_def)
  with q show ?thesis
    by blast
qed

theorem pty_write_spins_witness:
  "\<exists>p p'. length (mb_contents p) = 65534 \<and>
     pty_slave_write_round p [10] = (PwRetry, [10], p') \<and> mb_contents p' = mb_contents p"
proof -
  let ?p = "foldl mb_put (pty_fresh 0) (replicate 65534 0)"
  have i: "mb_inv ?p" and c: "length (mb_contents ?p) = 65534"
    using master_ring.run_pushes [of "pty_fresh 0" "replicate 65534 0"] by simp_all
  have f: "slave (foldl mb_put q xs) = slave q \<and> master_open (foldl mb_put q xs) = master_open q"
    for q xs
    by (induction xs arbitrary: q) simp_all
  have "onlcr (slave ?p)" "master_open ?p"
    using f [of "pty_fresh 0" "replicate 65534 0"] by simp_all
  from pty_write_spins [OF i c this, of "[]"] c show ?thesis
    by blast
qed

text \<open>A slave opened again after its last close is a freed file. Opening the master, claiming the
  slave and closing it frees the slave's handle, but the pty keeps pointing at it while the master
  is open, so the next open by index returns the freed handle.\<close>

theorem pty_reopen_freed:
  "let s1 = snd (pty_open_master True True pty_sys_init);
       (f, ps) = pty_open_slave_by_index (pty_list s1) 0;
       s2 = pty_slave_close (the f) 0 (s1\<lparr>pty_list := ps\<rparr>);
       (g, ps') = pty_open_slave_by_index (pty_list s2) 0
   in f \<noteq> None \<and> g = f \<and> the g \<in> freed s2"
  by (simp add: pty_open_master_def pty_alloc_def pty_sys_init_def pty_slave_close_def)

end
