(* ===== verification/Wait_Queue.thy ===== *)
theory Wait_Queue
  imports MakaOS_Prelude
begin

text \<open>
  Wait queues and the sleep/wake protocol: \<^verbatim>\<open>kernel/wait.c\<close>, \<^verbatim>\<open>kernel/include/wait.h\<close> and the
  wake-pending interlock of \<^verbatim>\<open>sched_sleep\<close>/\<^verbatim>\<open>sched_wake\<close> in \<^verbatim>\<open>kernel/proc/sched.c\<close>. The queue is
  the linked structure of the source: a head pointer and the \<^verbatim>\<open>next\<close> fields of the entries. The
  entry of a sleeping task is its \<^verbatim>\<open>sleep_we\<close>, identified with the task. Each action below is
  one atomic access (or one lock-protected section) of one CPU; actions of different CPUs
  interleave freely.
\<close>

section \<open>State\<close>

text \<open>Where a task is inside \<^verbatim>\<open>WAIT_EVENT_HOOK\<close>.\<close>

datatype sleeper_pc = PcOut | PcCheck | PcAdd | PcRecheck | PcSleep | PcAsleep | PcRemove

text \<open>Where a CPU is inside a notification: condition set and \<^verbatim>\<open>wait_queue_wake_all\<close>.\<close>

datatype drainer_pc = DIdle | DXchg | DWalk "nat option" | DCall nat "nat option"

datatype remover_pc = RIdle | RUnlinking | RReturned

record wsys =
  w_cond :: bool
  w_head :: "nat option"
  w_next :: "nat \<Rightarrow> nat option"
  w_dead :: "nat \<Rightarrow> bool"
  w_keep :: "nat \<Rightarrow> bool"
  w_pend :: "nat \<Rightarrow> bool"
  w_ready :: "nat \<Rightarrow> bool"
  s_pc :: "nat \<Rightarrow> sleeper_pc"
  d_pc :: "nat \<Rightarrow> drainer_pc"
  r_pc :: "nat \<Rightarrow> remover_pc"

definition wsys_init :: "(nat \<Rightarrow> bool) \<Rightarrow> wsys" where
  "wsys_init keep = \<lparr>w_cond = False, w_head = None, w_next = (\<lambda>_. None), w_dead = (\<lambda>_. False),
     w_keep = keep, w_pend = (\<lambda>_. False), w_ready = (\<lambda>_. False), s_pc = (\<lambda>_. PcOut),
     d_pc = (\<lambda>_. DIdle), r_pc = (\<lambda>_. RIdle)\<rparr>"

section \<open>Queue primitives\<close>

text \<open>The entries reachable from a pointer.\<close>

fun chain :: "(nat \<Rightarrow> nat option) \<Rightarrow> nat option \<Rightarrow> nat list \<Rightarrow> bool" where
  "chain nx p [] = (p = None)"
| "chain nx p (x # xs) = (p = Some x \<and> chain nx (nx x) xs)"

definition wq_add :: "nat \<Rightarrow> wsys \<Rightarrow> wsys" where
  "wq_add e s = s\<lparr>w_dead := (w_dead s)(e := False), w_next := (w_next s)(e := w_head s),
     w_head := Some e\<rparr>"

text \<open>\<^verbatim>\<open>task_we_init\<close> followed by \<^verbatim>\<open>task_we_add\<close>.\<close>

definition task_we_add :: "nat \<Rightarrow> wsys \<Rightarrow> wsys" where
  "task_we_add e s =
     wq_add e (s\<lparr>w_next := (w_next s)(e := None), w_dead := (w_dead s)(e := False)\<rparr>)"

text \<open>\<^verbatim>\<open>wq_remove\<close>: mark the entry, then unlink it from the live chain \<open>xs @ e # ys\<close> if it is there.\<close>

definition wq_mark :: "nat \<Rightarrow> wsys \<Rightarrow> wsys" where
  "wq_mark e s = s\<lparr>w_dead := (w_dead s)(e := True)\<rparr>"

definition wq_unlink :: "nat \<Rightarrow> nat list \<Rightarrow> wsys \<Rightarrow> wsys" where
  "wq_unlink e xs s =
     (if xs = [] then s\<lparr>w_head := w_next s e\<rparr>
      else s\<lparr>w_next := (w_next s)(last xs := w_next s e)\<rparr>)"

definition wq_walk :: "nat \<Rightarrow> nat list \<Rightarrow> nat list option \<Rightarrow> wsys \<Rightarrow> wsys option" where
  "wq_walk e xs found s =
     (if e \<in> set xs then None
      else case found of
             Some ys \<Rightarrow> if chain (w_next s) (w_head s) (xs @ e # ys) then Some (wq_unlink e xs s)
                        else None
           | None \<Rightarrow> if chain (w_next s) (w_head s) xs then Some s else None)"

section \<open>Sleeping and waking a task\<close>

text \<open>\<^verbatim>\<open>sched_sleep\<close> and \<^verbatim>\<open>sched_wake\<close> as far as the wait protocol sees them: both run under the
  run-queue lock of the task's CPU.\<close>

definition sched_sleep :: "nat \<Rightarrow> wsys \<Rightarrow> wsys" where
  "sched_sleep e s =
     (if w_pend s e then s\<lparr>w_pend := (w_pend s)(e := False), s_pc := (s_pc s)(e := PcRemove)\<rparr>
      else s\<lparr>s_pc := (s_pc s)(e := PcAsleep)\<rparr>)"

definition sched_wake :: "nat \<Rightarrow> wsys \<Rightarrow> wsys" where
  "sched_wake e s =
     (if s_pc s e \<noteq> PcAsleep then s\<lparr>w_pend := (w_pend s)(e := True)\<rparr>
      else s\<lparr>s_pc := (s_pc s)(e := PcRemove)\<rparr>)"

section \<open>Actions\<close>

datatype wact =
    SEnter nat | SCheck nat | SAdd nat | SRecheck nat | SSleep nat
  | SRemove nat "nat list" "nat list option"
  | SSignal nat
  | DSet nat | DTake nat | DRead nat | DFunc nat | DEnd nat
  | RMark nat | RUnlink nat "nat list" "nat list option"
  | EClear

definition set_s :: "nat \<Rightarrow> sleeper_pc \<Rightarrow> wsys \<Rightarrow> wsys" where
  "set_s e pc s = s\<lparr>s_pc := (s_pc s)(e := pc)\<rparr>"

definition set_d :: "nat \<Rightarrow> drainer_pc \<Rightarrow> wsys \<Rightarrow> wsys" where
  "set_d d pc s = s\<lparr>d_pc := (d_pc s)(d := pc)\<rparr>"

text \<open>Actions of the sleeper, in the order of the macro: check, register, check again, sleep,
  remove (and back to the check).\<close>

fun sleeper_act :: "wact \<Rightarrow> wsys \<Rightarrow> wsys option" where
  "sleeper_act (SEnter e) s =
     (if s_pc s e = PcOut \<and> \<not> w_keep s e then Some (set_s e PcCheck s) else None)"
| "sleeper_act (SCheck e) s =
     (if s_pc s e = PcCheck then Some (set_s e (if w_cond s then PcOut else PcAdd) s) else None)"
| "sleeper_act (SAdd e) s =
     (if s_pc s e = PcAdd then Some (set_s e PcRecheck (task_we_add e s)) else None)"
| "sleeper_act (SRecheck e) s =
     (if s_pc s e = PcRecheck then Some (set_s e (if w_cond s then PcRemove else PcSleep) s)
      else None)"
| "sleeper_act (SSleep e) s = (if s_pc s e = PcSleep then Some (sched_sleep e s) else None)"
| "sleeper_act (SRemove e xs found) s =
     (if s_pc s e = PcRemove then
        map_option (set_s e PcCheck) (wq_walk e xs found (wq_mark e s))
      else None)"
| "sleeper_act (SSignal e) s = (if w_keep s e then None else Some (sched_wake e s))"
| "sleeper_act _ s = None"

text \<open>Actions of a notifying CPU: \<^verbatim>\<open>wait_queue_wake_all\<close> takes the chain with one exchange and walks it
  by the \<^verbatim>\<open>next\<close> fields; entries marked dead are skipped, kept entries pushed back.\<close>

fun drainer_act :: "wact \<Rightarrow> wsys \<Rightarrow> wsys option" where
  "drainer_act (DSet d) s =
     (if d_pc s d = DIdle then Some (set_d d DXchg (s\<lparr>w_cond := True\<rparr>)) else None)"
| "drainer_act (DTake d) s =
     (if d_pc s d = DXchg then Some (set_d d (DWalk (w_head s)) (s\<lparr>w_head := None\<rparr>)) else None)"
| "drainer_act (DRead d) s =
     (case d_pc s d of
        DWalk (Some e) \<Rightarrow>
          Some (set_d d (if w_dead s e then DWalk (w_next s e) else DCall e (w_next s e)) s)
      | _ \<Rightarrow> None)"
| "drainer_act (DFunc d) s =
     (case d_pc s d of
        DCall e nx \<Rightarrow>
          Some (set_d d (DWalk nx)
            (if w_keep s e then wq_add e (s\<lparr>w_ready := (w_ready s)(e := True)\<rparr>)
             else sched_wake e s))
      | _ \<Rightarrow> None)"
| "drainer_act (DEnd d) s = (if d_pc s d = DWalk None then Some (set_d d DIdle s) else None)"
| "drainer_act _ s = None"

text \<open>Cancelling a persistent entry, and consumption of the condition by others.\<close>

fun other_act :: "wact \<Rightarrow> wsys \<Rightarrow> wsys option" where
  "other_act (RMark e) s =
     (if w_keep s e \<and> r_pc s e = RIdle
      then Some ((wq_mark e s)\<lparr>r_pc := (r_pc s)(e := RUnlinking)\<rparr>) else None)"
| "other_act (RUnlink e xs found) s =
     (if r_pc s e = RUnlinking then
        map_option (\<lambda>t. t\<lparr>r_pc := (r_pc t)(e := RReturned)\<rparr>) (wq_walk e xs found s)
      else None)"
| "other_act EClear s = Some (s\<lparr>w_cond := False\<rparr>)"
| "other_act _ s = None"

definition wq_act :: "wact \<Rightarrow> wsys \<Rightarrow> wsys option" where
  "wq_act a s =
     (case sleeper_act a s of
        Some t \<Rightarrow> Some t
      | None \<Rightarrow> case drainer_act a s of Some t \<Rightarrow> Some t | None \<Rightarrow> other_act a s)"

fun wq_run :: "wact list \<Rightarrow> wsys \<Rightarrow> wsys option" where
  "wq_run [] s = Some s"
| "wq_run (a # as) s = Option.bind (wq_act a s) (wq_run as)"

text \<open>The task an action belongs to, if it is an action of a sleeper.\<close>

fun sleeper_of :: "wact \<Rightarrow> nat option" where
  "sleeper_of (SEnter e) = Some e"
| "sleeper_of (SCheck e) = Some e"
| "sleeper_of (SAdd e) = Some e"
| "sleeper_of (SRecheck e) = Some e"
| "sleeper_of (SSleep e) = Some e"
| "sleeper_of (SRemove e xs f) = Some e"
| "sleeper_of (SSignal e) = Some e"
| "sleeper_of _ = None"

section \<open>The invariant of a queue with one sleeper\<close>

text \<open>Some CPU has the entry in its private chain; some CPU is about to take the chain.\<close>

definition held :: "nat \<Rightarrow> (nat \<Rightarrow> drainer_pc) \<Rightarrow> bool" where
  "held e dp \<longleftrightarrow> (\<exists>d. dp d = DWalk (Some e) \<or> dp d = DCall e None)"

definition notifying :: "(nat \<Rightarrow> drainer_pc) \<Rightarrow> bool" where
  "notifying dp \<longleftrightarrow> (\<exists>d. dp d = DXchg)"

definition solo_ok ::
    "nat \<Rightarrow> nat option \<Rightarrow> sleeper_pc \<Rightarrow> bool \<Rightarrow> bool \<Rightarrow> bool \<Rightarrow> bool \<Rightarrow> bool \<Rightarrow> bool" where
  "solo_ok e h pc dead pend cond hld ntf \<longleftrightarrow>
     (h = None \<or> h = Some e \<and> pc \<in> {PcRecheck, PcSleep, PcAsleep, PcRemove}) \<and>
     (pc \<in> {PcRecheck, PcSleep, PcAsleep} \<longrightarrow>
        \<not> dead \<and> (h = Some e \<or> hld \<or> pend \<and> pc \<noteq> PcAsleep)) \<and>
     (pc \<in> {PcSleep, PcAsleep} \<and> cond \<and> h = Some e \<longrightarrow> ntf)"

definition solo_inv :: "nat \<Rightarrow> wsys \<Rightarrow> bool" where
  "solo_inv e s \<longleftrightarrow> (\<forall>x. \<not> w_keep s x) \<and> w_next s e = None \<and>
     (\<forall>d. d_pc s d \<in> {DIdle, DXchg, DWalk None, DWalk (Some e), DCall e None}) \<and>
     solo_ok e (w_head s) (s_pc s e) (w_dead s e) (w_pend s e) (w_cond s) (held e (d_pc s))
       (notifying (d_pc s))"

section \<open>Lemmas\<close>

lemmas wq_defs = set_s_def set_d_def wq_add_def task_we_add_def wq_mark_def wq_unlink_def
  sched_sleep_def sched_wake_def

lemma solo_init: "solo_inv e (wsys_init (\<lambda>_. False))"
  by (simp add: solo_inv_def wsys_init_def solo_ok_def)

lemma solo_walk:
  assumes "solo_inv e s" and "wq_walk e xs found (wq_mark e s) = Some t"
  shows "t = (wq_mark e s)\<lparr>w_head := None\<rparr>"
proof -
  have n: "w_next s e = None" and h: "w_head s = None \<or> w_head s = Some e"
    using assms(1) by (auto simp: solo_inv_def solo_ok_def)
  have "e \<notin> set xs" and c: "chain (w_next s) (w_head s) (xs @ (case found of Some ys \<Rightarrow> e # ys | None \<Rightarrow> []))"
    using assms(2) by (auto simp: wq_walk_def wq_mark_def split: option.splits if_splits)
  then have "xs = []"
    using h by (cases xs) auto
  then show ?thesis
    using assms(2) c n by (cases found) (auto simp: wq_walk_def wq_mark_def wq_unlink_def)
qed

lemma solo_sleeper:
  assumes "solo_inv e s" and "sleeper_act a s = Some t" and "sleeper_of a = Some e"
  shows "solo_inv e t"
proof (cases a)
  case (SRemove x xs found)
  with assms(2,3) obtain u where u: "s_pc s e = PcRemove" "wq_walk e xs found (wq_mark e s) = Some u"
      "t = set_s e PcCheck u"
    by (auto split: if_splits)
  with solo_walk [OF assms(1) u(2)] assms(1) show ?thesis
    by (simp add: solo_inv_def solo_ok_def set_s_def wq_mark_def)
next
  case (SAdd x)
  with assms(2,3) have pc: "s_pc s e = PcAdd" "t = set_s e PcRecheck (task_we_add e s)"
    by (auto split: if_splits)
  then have "w_head s = None"
    using assms(1) by (auto simp: solo_inv_def solo_ok_def)
  with pc assms(1) show ?thesis
    by (simp add: solo_inv_def solo_ok_def wq_defs)
next
  case (SEnter x)
  with assms(2,3) have "s_pc s e = PcOut" "t = set_s e PcCheck s"
    by (auto split: if_splits)
  with assms(1) show ?thesis
    by (simp add: solo_inv_def solo_ok_def set_s_def)
next
  case (SCheck x)
  with assms(2,3) have "s_pc s e = PcCheck" "t = set_s e (if w_cond s then PcOut else PcAdd) s"
    by (auto split: if_splits)
  with assms(1) show ?thesis
    by (simp add: solo_inv_def solo_ok_def set_s_def)
next
  case (SRecheck x)
  with assms(2,3) have "s_pc s e = PcRecheck" "t = set_s e (if w_cond s then PcRemove else PcSleep) s"
    by (auto split: if_splits)
  with assms(1) show ?thesis
    by (cases "w_cond s") (simp_all add: solo_inv_def solo_ok_def set_s_def)
next
  case (SSleep x)
  with assms(2,3) have "s_pc s e = PcSleep" "t = sched_sleep e s"
    by (auto split: if_splits)
  with assms(1) show ?thesis
    by (cases "w_pend s e") (simp_all add: solo_inv_def solo_ok_def sched_sleep_def)
next
  case (SSignal x)
  with assms(2,3) have "t = sched_wake e s"
    by (auto split: if_splits)
  with assms(1) show ?thesis
    by (cases "s_pc s e") (simp_all add: solo_inv_def solo_ok_def sched_wake_def)
qed (use assms in simp_all)

lemma held_keep: "dp d \<notin> {DWalk (Some e), DCall e None} \<Longrightarrow> held e dp \<Longrightarrow> held e (dp(d := x))"
  by (auto simp: held_def)

lemma notifying_keep: "dp d \<noteq> DXchg \<Longrightarrow> notifying dp \<Longrightarrow> notifying (dp(d := x))"
  by (auto simp: notifying_def)

lemma solo_drainer:
  assumes "solo_inv e s" and "drainer_act a s = Some t"
  shows "solo_inv e t"
proof -
  have D: "d_pc s d \<in> {DIdle, DXchg, DWalk None, DWalk (Some e), DCall e None}" for d
    using assms(1) by (simp add: solo_inv_def)
  show ?thesis
  proof (cases a)
    case (DSet d)
    then have t: "d_pc s d = DIdle" "t = set_d d DXchg (s\<lparr>w_cond := True\<rparr>)"
      using assms(2) by (auto split: if_splits)
    have "notifying ((d_pc s)(d := DXchg))"
      by (auto simp: notifying_def)
    with t assms(1) held_keep [of "d_pc s" d e DXchg] show ?thesis
      by (auto simp: solo_inv_def solo_ok_def set_d_def)
  next
    case (DTake d)
    then have t: "d_pc s d = DXchg" "t = set_d d (DWalk (w_head s)) (s\<lparr>w_head := None\<rparr>)"
      using assms(2) by (auto split: if_splits)
    have he: "held e ((d_pc s)(d := DWalk (Some e)))"
      by (auto simp: held_def)
    have hk: "held e (d_pc s) \<Longrightarrow> held e ((d_pc s)(d := DWalk None))"
      using t(1) by (intro held_keep) simp_all
    have "w_head s = None \<or> w_head s = Some e"
      using assms(1) by (auto simp: solo_inv_def solo_ok_def)
    then show ?thesis
    proof
      assume "w_head s = None"
      with t(2) assms(1) hk show ?thesis
        by (simp add: solo_inv_def solo_ok_def set_d_def) blast
    next
      assume "w_head s = Some e"
      with t(2) assms(1) he show ?thesis
        by (simp add: solo_inv_def solo_ok_def set_d_def)
    qed
  next
    case (DRead d)
    then obtain x where x: "d_pc s d = DWalk (Some x)"
        "t = set_d d (if w_dead s x then DWalk (w_next s x) else DCall x (w_next s x)) s"
      using assms(2) by (auto split: drainer_pc.splits option.splits)
    then have e: "x = e" "w_next s e = None"
      using D [of d] assms(1) by (auto simp: solo_inv_def)
    have "held e ((d_pc s)(d := DCall e None))"
      by (auto simp: held_def)
    moreover have "notifying (d_pc s) \<Longrightarrow> notifying ((d_pc s)(d := y))" for y
      using x(1) by (intro notifying_keep) simp_all
    ultimately show ?thesis
      using x e assms(1) by (auto simp: solo_inv_def solo_ok_def set_d_def)
  next
    case (DFunc d)
    then obtain x nx where x: "d_pc s d = DCall x nx"
        "t = set_d d (DWalk nx) (if w_keep s x then wq_add x (s\<lparr>w_ready := (w_ready s)(x := True)\<rparr>)
               else sched_wake x s)"
      using assms(2) by (auto split: drainer_pc.splits)
    then have e: "x = e" "nx = None" "\<not> w_keep s e"
      using D [of d] assms(1) by (auto simp: solo_inv_def)
    have "notifying (d_pc s) \<Longrightarrow> notifying ((d_pc s)(d := y))" for y
      using x(1) by (intro notifying_keep) simp_all
    then show ?thesis
      using x e assms(1)
      by (cases "s_pc s e") (auto simp: solo_inv_def solo_ok_def set_d_def sched_wake_def)
  next
    case (DEnd d)
    then have t: "d_pc s d = DWalk None" "t = set_d d DIdle s"
      using assms(2) by (auto split: if_splits)
    with assms(1) held_keep [of "d_pc s" d e DIdle] notifying_keep [of "d_pc s" d DIdle]
    show ?thesis
      by (auto simp: solo_inv_def solo_ok_def set_d_def)
  qed (use assms(2) in simp_all)
qed

lemma solo_other:
  assumes "solo_inv e s" and "other_act a s = Some t" and "\<forall>x. r_pc s x = RIdle"
  shows "a = EClear \<and> t = s\<lparr>w_cond := False\<rparr>"
proof (cases a)
  case (RMark x)
  have "\<not> w_keep s x"
    using assms(1) by (simp add: solo_inv_def)
  with RMark assms(2) show ?thesis
    by simp
qed (use assms(2,3) in simp_all)

lemma sleeper_other: "sleeper_act a s = Some t \<Longrightarrow> r_pc t = r_pc s"
  by (cases a) (auto simp: wq_defs wq_walk_def split: if_splits option.splits)

lemma drainer_other: "drainer_act a s = Some t \<Longrightarrow> r_pc t = r_pc s"
  by (cases a) (auto simp: wq_defs split: if_splits drainer_pc.splits option.splits)

lemma sleeper_act_of: "sleeper_act a s = Some t \<Longrightarrow> \<exists>x. sleeper_of a = Some x"
  by (cases a) simp_all

lemma solo_run:
  assumes "wq_run as s = Some t" and "solo_inv e s" and "\<forall>x. r_pc s x = RIdle"
    and "\<forall>a \<in> set as. sleeper_of a \<in> {None, Some e}"
  shows "solo_inv e t"
  using assms
proof (induction as arbitrary: s)
  case (Cons a as)
  from Cons.prems(1) obtain u where u: "wq_act a s = Some u" "wq_run as u = Some t"
    by (auto split: bind_splits)
  have "solo_inv e u \<and> (\<forall>x. r_pc u x = RIdle)"
  proof (cases "sleeper_act a s")
    case (Some v)
    then show ?thesis
      using u(1) Cons.prems solo_sleeper [OF Cons.prems(2) Some] sleeper_other [OF Some]
        sleeper_act_of [OF Some] by (auto simp: wq_act_def)
  next
    case None
    show ?thesis
    proof (cases "drainer_act a s")
      case (Some v)
      then show ?thesis
        using u(1) Cons.prems(3) solo_drainer [OF Cons.prems(2) Some] drainer_other [OF Some] None
        by (simp add: wq_act_def)
    next
      case N: None
      then have "other_act a s = Some u"
        using u(1) None by (simp add: wq_act_def)
      from solo_other [OF Cons.prems(2) this Cons.prems(3)] Cons.prems(2,3) show ?thesis
        by (simp add: solo_inv_def solo_ok_def)
    qed
  qed
  then show ?case
    using Cons.IH [OF u(2)] Cons.prems(4) by simp
qed simp

section \<open>Properties\<close>

text \<open>C3: No lost wakeup with one waiter. One task waits on the queue with \<^verbatim>\<open>WAIT_EVENT\<close>, while any
  number of CPUs notify, others consume the condition again, and signals arrive, all interleaved.
  Whenever no notification is under way and the condition holds, the task is not asleep: every
  notification that could have been missed between the check and the sleep was caught by the
  second check or by the pending-wake flag.\<close>

theorem wait_event_no_lost_wakeup:
  assumes "wq_run as (wsys_init (\<lambda>_. False)) = Some s"
    and "\<forall>a \<in> set as. sleeper_of a \<in> {None, Some e}"
    and "\<forall>d. d_pc s d = DIdle" and "w_cond s"
  shows "s_pc s e \<noteq> PcAsleep"
proof
  assume "s_pc s e = PcAsleep"
  moreover have "\<not> held e (d_pc s)" "\<not> notifying (d_pc s)"
    using assms(3) by (auto simp: held_def notifying_def)
  moreover have "solo_inv e s"
    by (rule solo_run [OF assms(1) solo_init _ assms(2)]) (simp add: wsys_init_def)
  ultimately show False
    using assms(4) by (simp add: solo_inv_def solo_ok_def)
qed

definition demo_wait :: "wact list" where
  "demo_wait = [SEnter 0, SCheck 0, SAdd 0, SRecheck 0, DSet 7, DTake 7, DRead 7, DFunc 7, DEnd 7,
     SSleep 0]"

theorem wait_event_no_lost_wakeup_witness:
  "map_option (\<lambda>s. (w_cond s, s_pc s 0)) (wq_run demo_wait (wsys_init (\<lambda>_. False))) =
     Some (True, PcRemove)"
proof -
  have "wq_run demo_wait (wsys_init (\<lambda>_. False)) \<noteq> None"
    by (simp add: demo_wait_def wsys_init_def wq_act_def wq_defs)
  then obtain s where s: "wq_run demo_wait (wsys_init (\<lambda>_. False)) = Some s"
    by auto
  have f: "w_cond s" "\<forall>d. d_pc s d = DIdle" "s_pc s 0 = PcRemove \<or> s_pc s 0 = PcAsleep"
    using s by (auto simp: demo_wait_def wsys_init_def wq_act_def wq_defs)
  have "\<forall>a \<in> set demo_wait. sleeper_of a \<in> {None, Some 0}"
    by (simp add: demo_wait_def)
  from wait_event_no_lost_wakeup [OF s this f(2,1)] s f show ?thesis
    by simp
qed

text \<open>C34: With two waiters a wakeup can be lost. While a CPU walks the chain it took, a waiter that a
  signal woke re-registers its entry, which overwrites the \<^verbatim>\<open>next\<close> field the walk follows: the rest
  of the chain is never visited. In the reached state the condition holds, no notification is
  under way, and task 0 sleeps although it is in no queue and no chain.\<close>

theorem wait_event_lost_wakeup:
  "\<exists>as s. wq_run as (wsys_init (\<lambda>_. False)) = Some s \<and> w_cond s \<and> (\<forall>d. d_pc s d = DIdle) \<and>
     s_pc s 0 = PcAsleep \<and> \<not> w_pend s 0 \<and> w_head s = None"
proof -
  let ?as = "[SEnter 0, SCheck 0, SAdd 0, SRecheck 0, SSleep 0,
    SEnter 1, SCheck 1, SAdd 1, SRecheck 1, SSleep 1,
    DSet 7, DTake 7, EClear, SSignal 1, SRemove 1 [] None, SCheck 1, SAdd 1,
    DRead 7, DFunc 7, DEnd 7, DSet 8, DTake 8, DRead 8, DFunc 8, DEnd 8]"
  have "wq_run ?as (wsys_init (\<lambda>_. False)) \<noteq> None"
    by (simp add: wsys_init_def wq_act_def wq_defs wq_walk_def)
  then obtain s where s: "wq_run ?as (wsys_init (\<lambda>_. False)) = Some s"
    by auto
  moreover have "w_cond s \<and> (\<forall>d. d_pc s d = DIdle) \<and> s_pc s 0 = PcAsleep \<and> \<not> w_pend s 0 \<and>
      w_head s = None"
    using s by (auto simp: wsys_init_def wq_act_def wq_defs wq_walk_def)
  ultimately show ?thesis
    by blast
qed

text \<open>C0: cancellation can be undone. A CPU that has seen a persistent entry alive pushes it back
  after calling its function, and pushing clears the dead mark: \<^verbatim>\<open>wq_remove\<close> has returned, but the
  entry is live on the queue, where the next notification calls it. The comment of \<^verbatim>\<open>wq_remove\<close>
  rules this out and lets callers free the entry.\<close>

theorem wq_remove_resurrected:
  "\<exists>as s. wq_run as (wq_add 5 (wsys_init (\<lambda>x. x = 5))) = Some s \<and> r_pc s 5 = RReturned \<and>
     w_head s = Some 5 \<and> \<not> w_dead s 5 \<and> (\<forall>d. d_pc s d = DIdle)"
proof -
  let ?as = "[DSet 7, DTake 7, DRead 7, RMark 5, RUnlink 5 [] None, DFunc 7, DEnd 7]"
  have "wq_run ?as (wq_add 5 (wsys_init (\<lambda>x. x = 5))) \<noteq> None"
    by (simp add: wsys_init_def wq_act_def wq_defs wq_walk_def)
  then obtain s where s: "wq_run ?as (wq_add 5 (wsys_init (\<lambda>x. x = 5))) = Some s"
    by auto
  moreover have "r_pc s 5 = RReturned \<and> w_head s = Some 5 \<and> \<not> w_dead s 5 \<and> (\<forall>d. d_pc s d = DIdle)"
    using s by (auto simp: wsys_init_def wq_act_def wq_defs wq_walk_def)
  ultimately show ?thesis
    by blast
qed

end
