(* ===== verification/Epoll_Wake.thy ===== *)
theory Epoll_Wake
  imports MakaOS_Prelude
begin

text \<open>
  One notification from end to end: \<^verbatim>\<open>wait_queue_wake_all\<close> with the wake functions of tasks and of
  epoll watches (\<^verbatim>\<open>kernel/wait.c\<close>). An epoll watch wakes the tasks in \<^verbatim>\<open>epoll_wait\<close> and, up to depth 4,
  the queue of the epoll file itself, on which an outer epoll may be registered; watch cycles are
  possible. Queues, entries and tasks are numbers; the recursion takes fuel, and fuel 6 is shown
  to be enough.
\<close>

section \<open>Model\<close>

datatype wake_kind = TaskWe nat | EpollWe nat nat "nat option"

record wake_state =
  wq_entries :: "nat \<Rightarrow> nat list"
  we_dead :: "nat \<Rightarrow> bool"
  we_kind :: "nat \<Rightarrow> wake_kind"
  woken :: "nat list"
  has_ready :: "nat set"

definition push_entry :: "nat \<Rightarrow> nat \<Rightarrow> wake_state \<Rightarrow> wake_state" where
  "push_entry q e s = s\<lparr>we_dead := (we_dead s)(e := False),
     wq_entries := (wq_entries s)(q := e # wq_entries s q)\<rparr>"

definition task_wake_func :: "nat \<Rightarrow> wake_state \<Rightarrow> wake_state" where
  "task_wake_func t s = s\<lparr>woken := woken s @ [t]\<rparr>"

text \<open>\<open>depth\<close> is the CPU's \<^verbatim>\<open>s_epoll_wake_depth\<close>; \<open>None\<close> is running out of fuel.\<close>

function (sequential)
  wake_all :: "nat \<Rightarrow> nat \<Rightarrow> nat \<Rightarrow> wake_state \<Rightarrow> wake_state option" and
  wake_chain :: "nat \<Rightarrow> nat \<Rightarrow> nat \<Rightarrow> nat list \<Rightarrow> wake_state \<Rightarrow> wake_state option" and
  epoll_wake_func :: "nat \<Rightarrow> nat \<Rightarrow> nat \<Rightarrow> nat \<Rightarrow> nat option \<Rightarrow> wake_state \<Rightarrow> wake_state option"
where
  "wake_all 0 depth q s = None"
| "wake_all (Suc n) depth q s =
     wake_chain n depth q (wq_entries s q) (s\<lparr>wq_entries := (wq_entries s)(q := [])\<rparr>)"
| "wake_chain n depth q [] s = Some s"
| "wake_chain n depth q (e # es) s =
     (if we_dead s e then wake_chain n depth q es s
      else case we_kind s e of
             TaskWe t \<Rightarrow> wake_chain n depth q es (task_wake_func t s)
           | EpollWe ewq rdy fwq \<Rightarrow>
               (case epoll_wake_func n depth ewq rdy fwq s of
                  None \<Rightarrow> None
                | Some s' \<Rightarrow> wake_chain n depth q es (push_entry q e s')))"
| "epoll_wake_func n depth ewq rdy fwq s =
     (case wake_all n depth ewq (s\<lparr>has_ready := insert rdy (has_ready s)\<rparr>) of
        None \<Rightarrow> None
      | Some s' \<Rightarrow>
          (case fwq of
             None \<Rightarrow> Some s'
           | Some f \<Rightarrow> if depth < 4 then wake_all n (Suc depth) f s' else Some s'))"
  by pat_completeness auto

termination
  by (relation "measures [\<lambda>x. case x of Inl (n, _) \<Rightarrow> n | Inr (Inl (n, _)) \<Rightarrow> n
        | Inr (Inr (n, _)) \<Rightarrow> n,
      \<lambda>x. case x of Inl _ \<Rightarrow> 0 | Inr (Inl (_, _, _, es, _)) \<Rightarrow> Suc (Suc (length es))
        | Inr (Inr _) \<Rightarrow> 1]") auto

section \<open>Well-formed registrations\<close>

definition is_task :: "wake_state \<Rightarrow> nat \<Rightarrow> bool" where
  "is_task s e \<longleftrightarrow> (\<exists>t. we_kind s e = TaskWe t)"

definition epoll_queue :: "wake_state \<Rightarrow> nat \<Rightarrow> bool" where
  "epoll_queue s q \<longleftrightarrow> (\<exists>e rdy f. we_kind s e = EpollWe q rdy f)"

text \<open>Only sleeping tasks are registered on the queues of \<^verbatim>\<open>epoll_wait\<close>.\<close>

definition plain :: "wake_state \<Rightarrow> bool" where
  "plain s \<longleftrightarrow> (\<forall>q. epoll_queue s q \<longrightarrow> (\<forall>e \<in> set (wq_entries s q). is_task s e))"

text \<open>A live task entry, and what the queues promise across a notification: kinds and marks stay,
  nothing new is registered, live watches stay registered, and a live task leaves a queue only by
  being woken.\<close>

definition waits :: "wake_state \<Rightarrow> nat \<Rightarrow> nat \<Rightarrow> nat \<Rightarrow> bool" where
  "waits s q e t \<longleftrightarrow> e \<in> set (wq_entries s q) \<and> \<not> we_dead s e \<and> we_kind s e = TaskWe t"

definition wake_rel :: "wake_state \<Rightarrow> wake_state \<Rightarrow> bool" where
  "wake_rel s s' \<longleftrightarrow> we_kind s' = we_kind s \<and> we_dead s' = we_dead s \<and>
     set (woken s) \<subseteq> set (woken s') \<and> has_ready s \<subseteq> has_ready s' \<and>
     (\<forall>q. set (wq_entries s' q) \<subseteq> set (wq_entries s q)) \<and>
     (\<forall>q e. e \<in> set (wq_entries s q) \<and> \<not> we_dead s e \<and> \<not> is_task s e \<longrightarrow>
        e \<in> set (wq_entries s' q)) \<and>
     (\<forall>q e t. waits s q e t \<longrightarrow> e \<in> set (wq_entries s' q) \<or> t \<in> set (woken s'))"

definition delivered_to :: "wake_state \<Rightarrow> wake_state \<Rightarrow> nat \<Rightarrow> nat \<Rightarrow> bool" where
  "delivered_to s s' q e \<longleftrightarrow> we_dead s e \<or>
     (case we_kind s e of
        TaskWe t \<Rightarrow> t \<in> set (woken s')
      | EpollWe ewq rdy f \<Rightarrow> rdy \<in> has_ready s' \<and> e \<in> set (wq_entries s' q) \<and>
          (\<forall>x t. waits s ewq x t \<longrightarrow> t \<in> set (woken s')))"

text \<open>The state in which the rest of a private chain is still on its queue.\<close>

definition attach :: "nat \<Rightarrow> nat list \<Rightarrow> wake_state \<Rightarrow> wake_state" where
  "attach q es s = s\<lparr>wq_entries := (wq_entries s)(q := es @ wq_entries s q)\<rparr>"

section \<open>Lemmas\<close>

lemma wake_rel_refl [simp]: "wake_rel s s"
  by (simp add: wake_rel_def waits_def)

lemma wake_relD:
  assumes "wake_rel s s'"
  shows "we_kind s' = we_kind s" "we_dead s' = we_dead s" "set (woken s) \<subseteq> set (woken s')"
    "has_ready s \<subseteq> has_ready s'" "set (wq_entries s' q) \<subseteq> set (wq_entries s q)"
    "e \<in> set (wq_entries s q) \<Longrightarrow> \<not> we_dead s e \<Longrightarrow> \<not> is_task s e \<Longrightarrow> e \<in> set (wq_entries s' q)"
    "waits s q e t \<Longrightarrow> e \<in> set (wq_entries s' q) \<or> t \<in> set (woken s')"
  using assms by (simp_all add: wake_rel_def)

lemma wake_rel_trans:
  assumes "wake_rel s u" and "wake_rel u v"
  shows "wake_rel s v"
proof -
  note su = wake_relD [OF assms(1)] and uv = wake_relD [OF assms(2)]
  have k: "is_task u = is_task s"
    by (simp add: is_task_def su(1) fun_eq_iff)
  have w: "waits s q e t \<Longrightarrow> e \<in> set (wq_entries v q) \<or> t \<in> set (woken v)" for q e t
    using su(7) [of q e t] uv(7) [of q e t] uv(3) by (auto simp: waits_def su(1,2))
  show ?thesis
    unfolding wake_rel_def
    using su uv w k by (intro conjI allI impI) (simp | blast)+
qed

lemma plain_rel: "plain s \<Longrightarrow> wake_rel s s' \<Longrightarrow> plain s'"
  unfolding plain_def epoll_queue_def is_task_def using wake_relD(1,5) by fastforce

lemma epoll_queue_rel: "wake_rel s s' \<Longrightarrow> epoll_queue s' q = epoll_queue s q"
  by (simp add: epoll_queue_def wake_relD(1))

lemma delivered_trans:
  assumes "wake_rel a b" and "wake_rel b c" and "delivered_to b c q e"
  shows "delivered_to a c q e"
proof -
  have "waits a x y t \<Longrightarrow> waits b x y t \<or> t \<in> set (woken c)" for x y t
    using wake_relD(7) [OF assms(1), of x y t] wake_relD(1,2) [OF assms(1)]
      wake_relD(3) [OF assms(2)] by (auto simp: waits_def)
  then show ?thesis
    using assms(3) wake_relD(1,2) [OF assms(1)]
    unfolding delivered_to_def by (simp split: wake_kind.splits) blast
qed

lemma delivered_later:
  assumes "delivered_to a b q e" and "wake_rel a b" and "wake_rel b c"
  shows "delivered_to a c q e"
proof (cases "we_dead a e")
  case False
  show ?thesis
  proof (cases "we_kind a e")
    case (TaskWe t)
    with assms(1) False wake_relD(3) [OF assms(3)] show ?thesis
      by (auto simp: delivered_to_def)
  next
    case (EpollWe ewq rdy f)
    have "e \<in> set (wq_entries b q) \<Longrightarrow> e \<in> set (wq_entries c q)"
      using wake_relD(6) [OF assms(3), of e q] False EpollWe wake_relD(1,2) [OF assms(2)]
      by (simp add: is_task_def)
    with assms(1) False EpollWe wake_relD(3,4) [OF assms(3)] show ?thesis
      by (auto simp: delivered_to_def)
  qed
qed (simp add: delivered_to_def)

lemma attach_simps [simp]:
  "we_kind (attach q es s) = we_kind s" "we_dead (attach q es s) = we_dead s"
  "woken (attach q es s) = woken s" "has_ready (attach q es s) = has_ready s"
  "wq_entries (attach q es s) = (wq_entries s)(q := es @ wq_entries s q)"
  "is_task (attach q es s) = is_task s" "epoll_queue (attach q es s) = epoll_queue s"
  by (simp_all add: attach_def is_task_def epoll_queue_def fun_eq_iff)

lemma attach_rel: "wake_rel s s' \<Longrightarrow> wake_rel (attach q es s) (attach q es s')"
  unfolding wake_rel_def waits_def by (simp add: is_task_def) blast

lemma attach_dead: "we_dead s e \<Longrightarrow> wake_rel (attach q (e # es) s) (attach q es s)"
  unfolding wake_rel_def waits_def by auto

lemma attach_task:
  "we_kind s e = TaskWe t \<Longrightarrow>
     wake_rel (attach q (e # es) s) (attach q es (task_wake_func t s))"
  unfolding wake_rel_def waits_def by (auto simp: task_wake_func_def is_task_def)

lemma attach_push:
  "\<not> we_dead s e \<Longrightarrow> wake_rel (attach q (e # es) s) (attach q es (push_entry q e s))"
  unfolding wake_rel_def waits_def by (auto simp: push_entry_def is_task_def fun_eq_iff)

lemma attach_start: "attach q (wq_entries s q) (s\<lparr>wq_entries := (wq_entries s)(q := [])\<rparr>) = s"
  by (simp add: attach_def fun_upd_idem)

text \<open>Results that deliver a whole chain, built up from the back.\<close>

definition chain_ok :: "wake_state option \<Rightarrow> nat \<Rightarrow> nat list \<Rightarrow> wake_state \<Rightarrow> bool" where
  "chain_ok r q es s \<longleftrightarrow> (\<exists>s'. r = Some s' \<and> wake_rel (attach q es s) s' \<and>
     (\<forall>e \<in> set es. delivered_to (attach q es s) s' q e))"

definition watch_ok :: "wake_state option \<Rightarrow> nat \<Rightarrow> nat \<Rightarrow> wake_state \<Rightarrow> bool" where
  "watch_ok r ewq rdy s \<longleftrightarrow> (\<exists>s'. r = Some s' \<and> wake_rel s s' \<and> rdy \<in> has_ready s' \<and>
     (\<forall>x t. waits s ewq x t \<longrightarrow> t \<in> set (woken s')))"

lemma chain_ok_step:
  assumes "wake_rel (attach q (e # es) s) (attach q es u)" and "chain_ok r q es u"
    and "delivered_to (attach q (e # es) s) (attach q es u) q e"
  shows "chain_ok r q (e # es) s"
proof -
  obtain s' where s': "r = Some s'" "wake_rel (attach q es u) s'"
      "\<forall>x \<in> set es. delivered_to (attach q es u) s' q x"
    using assms(2) by (auto simp: chain_ok_def)
  show ?thesis
    unfolding chain_ok_def
    using s' wake_rel_trans [OF assms(1) s'(2)] delivered_trans [OF assms(1) s'(2)]
      delivered_later [OF assms(3,1) s'(2)] by auto
qed

lemma chain_ok_dead: "we_dead s e \<Longrightarrow> chain_ok r q es s \<Longrightarrow> chain_ok r q (e # es) s"
  by (rule chain_ok_step [OF attach_dead]) (simp_all add: delivered_to_def)

lemma chain_ok_task:
  "we_kind s e = TaskWe t \<Longrightarrow> chain_ok r q es (task_wake_func t s) \<Longrightarrow> chain_ok r q (e # es) s"
  by (rule chain_ok_step [OF attach_task [of s e t]]) (simp_all add: delivered_to_def task_wake_func_def)

lemma chain_ok_watch:
  assumes "\<not> we_dead s e" and "we_kind s e = EpollWe ewq rdy fwq" and "ewq \<noteq> q"
    and "wake_rel s s1" and "rdy \<in> has_ready s1" and "\<forall>x t. waits s ewq x t \<longrightarrow> t \<in> set (woken s1)"
    and "chain_ok r q es (push_entry q e s1)"
  shows "wake_rel (attach q (e # es) s) (attach q es (push_entry q e s1))"
    and "chain_ok r q (e # es) s"
proof -
  show rel: "wake_rel (attach q (e # es) s) (attach q es (push_entry q e s1))"
    using attach_rel [OF assms(4)] attach_push wake_relD(2) [OF assms(4)] assms(1) wake_rel_trans
    by metis
  show "chain_ok r q (e # es) s"
    using assms(2,3,5,6)
    by (intro chain_ok_step [OF rel assms(7)])
      (auto simp: delivered_to_def push_entry_def waits_def)
qed

lemma watch_ok_outer:
  assumes "wake_rel (s\<lparr>has_ready := insert rdy (has_ready s)\<rparr>) s1"
    and "\<forall>e \<in> set (wq_entries s ewq). delivered_to (s\<lparr>has_ready := insert rdy (has_ready s)\<rparr>) s1 ewq e"
    and "wake_rel s1 s2"
  shows "watch_ok (Some s2) ewq rdy s"
proof -
  have "wake_rel s (s\<lparr>has_ready := insert rdy (has_ready s)\<rparr>)"
    by (auto simp: wake_rel_def waits_def is_task_def)
  then have "wake_rel s s2"
    using assms(1,3) wake_rel_trans by blast
  moreover have "rdy \<in> has_ready s2"
    using wake_relD(4) [OF assms(1)] wake_relD(4) [OF assms(3)] by auto
  moreover have "t \<in> set (woken s2)" if "waits s ewq x t" for x t
  proof -
    have "delivered_to (s\<lparr>has_ready := insert rdy (has_ready s)\<rparr>) s1 ewq x"
      using assms(2) that by (simp add: waits_def)
    with that wake_relD(3) [OF assms(3)] show ?thesis
      by (auto simp: waits_def delivered_to_def)
  qed
  ultimately show ?thesis
    by (auto simp: watch_ok_def)
qed

text \<open>Fuel and depth: at depth \<open>d\<close> a general queue needs \<open>6 - d\<close>, a queue of tasks one.\<close>

lemma wake_total:
  "depth \<le> 4 \<Longrightarrow> plain s \<Longrightarrow> 6 - depth \<le> n \<or> epoll_queue s q \<and> 1 \<le> n \<Longrightarrow>
     \<exists>s'. wake_all n depth q s = Some s' \<and> wake_rel s s' \<and>
       (\<forall>e \<in> set (wq_entries s q). delivered_to s s' q e)"
  "depth \<le> 4 \<Longrightarrow> plain (attach q es s) \<Longrightarrow> 5 - depth \<le> n \<or> (\<forall>e \<in> set es. is_task s e) \<Longrightarrow>
     chain_ok (wake_chain n depth q es s) q es s"
  "depth \<le> 4 \<Longrightarrow> plain s \<Longrightarrow> epoll_queue s ewq \<Longrightarrow> 5 - depth \<le> n \<Longrightarrow>
     watch_ok (epoll_wake_func n depth ewq rdy fwq s) ewq rdy s"
proof (induction n depth q s and n depth q es s and n depth ewq rdy fwq s
    rule: wake_all_wake_chain_epoll_wake_func.induct)
  case (2 n depth q s)
  let ?s = "s\<lparr>wq_entries := (wq_entries s)(q := [])\<rparr>"
  have "5 - depth \<le> n \<or> (\<forall>e \<in> set (wq_entries s q). is_task ?s e)"
    using 2(3,4) by (auto simp: plain_def is_task_def)
  with 2(1) 2(2,3) show ?case
    by (simp add: attach_start chain_ok_def)
next
  case (4 n depth q e es s)
  show ?case
  proof (cases "we_dead s e")
    case True
    with 4(1) [OF True 4(5) plain_rel [OF 4(6) attach_dead]] 4(7) show ?thesis
      by (auto intro!: chain_ok_dead)
  next
    case live: False
    show ?thesis
    proof (cases "we_kind s e")
      case (TaskWe t)
      have "is_task (task_wake_func t s) = is_task s"
        by (simp add: is_task_def task_wake_func_def fun_eq_iff)
      with 4(2) [OF live TaskWe 4(5) plain_rel [OF 4(6) attach_task [OF TaskWe]]] 4(7) live TaskWe
      show ?thesis
        by (auto intro!: chain_ok_task)
    next
      case (EpollWe ewq rdy fwq)
      have nt: "\<not> is_task s e" and eq: "epoll_queue s ewq"
        using EpollWe by (auto simp: is_task_def epoll_queue_def)
      have f: "5 - depth \<le> n" and ne: "ewq \<noteq> q" and pl: "plain s"
        using 4(6,7) eq nt by (auto simp: plain_def split: if_splits)
      obtain s1 where s1: "epoll_wake_func n depth ewq rdy fwq s = Some s1" "wake_rel s s1"
          "rdy \<in> has_ready s1" "\<forall>x t. waits s ewq x t \<longrightarrow> t \<in> set (woken s1)"
        using 4(3) [OF live EpollWe 4(5) pl eq f] by (auto simp: watch_ok_def)
      have "wake_rel (attach q (e # es) s) (attach q es (push_entry q e s1))"
        using attach_rel [OF s1(2)] attach_push wake_relD(2) [OF s1(2)] live wake_rel_trans
        by metis
      then have "chain_ok (wake_chain n depth q es (push_entry q e s1)) q es (push_entry q e s1)"
        using 4(4) [OF live EpollWe s1(1) 4(5)] plain_rel [OF 4(6)] f by blast
      from chain_ok_watch(2) [OF live EpollWe ne s1(2-4) this] show ?thesis
        using live EpollWe s1(1) by simp
    qed
  qed
next
  case (5 n depth ewq rdy fwq s)
  let ?s = "s\<lparr>has_ready := insert rdy (has_ready s)\<rparr>"
  have pl: "plain ?s" "epoll_queue ?s ewq" "1 \<le> n"
    using 5(3-6) by (auto simp: plain_def epoll_queue_def is_task_def)
  obtain s1 where s1: "wake_all n depth ewq ?s = Some s1" "wake_rel ?s s1"
      "\<forall>e \<in> set (wq_entries s ewq). delivered_to ?s s1 ewq e"
    using 5(1) [OF 5(3) pl(1)] pl(2,3) by auto
  show ?case
  proof (cases "\<exists>f. fwq = Some f \<and> depth < 4")
    case True
    then obtain f where f: "fwq = Some f" "depth < 4"
      by blast
    obtain s2 where "wake_all n (Suc depth) f s1 = Some s2" "wake_rel s1 s2"
      using 5(2) [OF s1(1) f(1,2) _ plain_rel [OF pl(1) s1(2)]] 5(6) f(2) by auto
    then show ?thesis
      using watch_ok_outer [OF s1(2,3)] s1(1) f by simp
  next
    case False
    then show ?thesis
      using watch_ok_outer [OF s1(2,3), of s1] s1(1) by (auto split: option.splits)
  qed
qed (auto simp: chain_ok_def attach_def)

section \<open>Properties\<close>


text \<open>Two epoll files watching each other, each with a task in \<^verbatim>\<open>epoll_wait\<close>.\<close>

definition demo_cycle :: wake_state where
  "demo_cycle = \<lparr>wq_entries = (\<lambda>q. if q = 0 then [10] else if q = 1 then [11] else if q = 2 then [20]
       else if q = 3 then [21] else []),
     we_dead = (\<lambda>_. False),
     we_kind = (\<lambda>e. if e = 10 then EpollWe 2 0 (Some 1) else if e = 11 then EpollWe 3 1 (Some 0)
       else if e = 20 then TaskWe 100 else TaskWe 101),
     woken = [], has_ready = {}\<rparr>"


end
