(* ===== verification/Eventfd.thy ===== *)
theory Eventfd
  imports MakaOS_Prelude
begin

text \<open>
  Event counters: \<^verbatim>\<open>kernel/io/eventfd.c\<close>. The 64-bit counter is a machine word; reads and writes are
  compare-and-swap loops, so a thread works with a value it loaded earlier. Threads interleave at
  every access to the counter; a sleeping thread runs again only when its queue is woken.
\<close>

section \<open>Attempts\<close>

abbreviation (input) EVENTFD_MAX :: u64 where "EVENTFD_MAX \<equiv> 0xfffffffffffffffe"
abbreviation (input) EFD_SEMAPHORE :: u32 where "EFD_SEMAPHORE \<equiv> 1"
abbreviation (input) EFD_NONBLOCK :: u32 where "EFD_NONBLOCK \<equiv> 4"

record eventfd_state_t =
  efd_count :: u64
  efd_flags :: u32

definition efd_sema :: "eventfd_state_t \<Rightarrow> bool" where
  "efd_sema s \<longleftrightarrow> efd_flags s AND EFD_SEMAPHORE \<noteq> 0"

definition efd_nonblock :: "u32 \<Rightarrow> eventfd_state_t \<Rightarrow> bool" where
  "efd_nonblock file_flags s \<longleftrightarrow> file_flags AND 0x800 \<noteq> 0 \<or> efd_flags s AND EFD_NONBLOCK \<noteq> 0"

datatype efd_attempt = EfdAgain | EfdWait | EfdSet u64 u64 bool

text \<open>With \<open>old\<close> loaded: the value handed out, the new counter and whether the other side is woken.\<close>

definition eventfd_read_try :: "bool \<Rightarrow> bool \<Rightarrow> u64 \<Rightarrow> efd_attempt" where
  "eventfd_read_try sema nonblock old =
     (if old = 0 then (if nonblock then EfdAgain else EfdWait)
      else EfdSet (if sema then 1 else old) (if sema then old - 1 else 0) (old = EVENTFD_MAX))"

definition efd_overflow :: "u64 \<Rightarrow> u64 \<Rightarrow> bool" where
  "efd_overflow old add \<longleftrightarrow> old + add < old \<or> old + add > EVENTFD_MAX"

definition eventfd_write_try :: "bool \<Rightarrow> u64 \<Rightarrow> u64 \<Rightarrow> efd_attempt" where
  "eventfd_write_try nonblock add old =
     (if efd_overflow old add then (if nonblock then EfdAgain else EfdWait)
      else EfdSet add (old + add) (old = 0))"

text \<open>The conditions of the two \<^verbatim>\<open>WAIT_EVENT\<close>s.\<close>

definition efd_read_cond :: "u64 \<Rightarrow> bool" where
  "efd_read_cond c \<longleftrightarrow> c \<noteq> 0"

definition efd_write_cond :: "u64 \<Rightarrow> u64 \<Rightarrow> bool" where
  "efd_write_cond add c \<longleftrightarrow> c + add \<le> EVENTFD_MAX"

text \<open>Arguments that are refused before the loop.\<close>

definition eventfd_write_arg :: "nat \<Rightarrow> u64 \<Rightarrow> u64 result" where
  "eventfd_write_arg len add =
     (if len < 8 then Inl EINVAL else if add = - 1 then Inl EINVAL else Inr add)"

definition eventfd_read_arg :: "nat \<Rightarrow> unit result" where
  "eventfd_read_arg len = (if len < 8 then Inl EINVAL else Inr ())"

definition eventfd_poll_op :: "eventfd_state_t \<Rightarrow> bool \<times> bool" where
  "eventfd_poll_op s = (efd_count s \<noteq> 0, efd_count s \<noteq> EVENTFD_MAX)"

definition eventfd_new :: "bool \<Rightarrow> u32 \<Rightarrow> u32 \<Rightarrow> eventfd_state_t option" where
  "eventfd_new alloc_ok init_val flags =
     (if alloc_ok then Some \<lparr>efd_count = ucast init_val, efd_flags = flags\<rparr> else None)"

section \<open>Threads\<close>

datatype efd_pc =
    EIdle | EDone
  | RLoop u64 | RWait | RAsleep
  | WLoop u64 u64 | WWait u64 | WAsleep u64

text \<open>\<open>taken\<close> and \<open>added\<close> are the sums of all values read and written so far.\<close>

record efd_sys =
  es_state :: eventfd_state_t
  es_fflags :: u32
  es_pc :: "nat \<Rightarrow> efd_pc"
  taken :: nat
  added :: nat

definition set_pc :: "nat \<Rightarrow> efd_pc \<Rightarrow> efd_sys \<Rightarrow> efd_sys" where
  "set_pc t pc s = s\<lparr>es_pc := (es_pc s)(t := pc)\<rparr>"

definition set_count :: "u64 \<Rightarrow> efd_sys \<Rightarrow> efd_sys" where
  "set_count c s = s\<lparr>es_state := (es_state s)\<lparr>efd_count := c\<rparr>\<rparr>"

definition wake_read_wq :: "efd_sys \<Rightarrow> efd_sys" where
  "wake_read_wq s = s\<lparr>es_pc := (\<lambda>t. if es_pc s t = RAsleep then RWait else es_pc s t)\<rparr>"

definition wake_write_wq :: "efd_sys \<Rightarrow> efd_sys" where
  "wake_write_wq s = s\<lparr>es_pc := (\<lambda>t. case es_pc s t of WAsleep add \<Rightarrow> WWait add | pc \<Rightarrow> pc)\<rparr>"

text \<open>One step of a thread: a failed exchange reloads the counter.\<close>

definition eventfd_read_step :: "nat \<Rightarrow> u64 \<Rightarrow> efd_sys \<Rightarrow> efd_sys" where
  "eventfd_read_step t old s =
     (let c = efd_count (es_state s)
      in case eventfd_read_try (efd_sema (es_state s)) (efd_nonblock (es_fflags s) (es_state s)) old of
           EfdAgain \<Rightarrow> set_pc t EDone s
         | EfdWait \<Rightarrow> set_pc t RWait s
         | EfdSet v new wk \<Rightarrow>
             if c = old then
               (let s1 = (set_count new (set_pc t EDone s))\<lparr>taken := taken s + unat v\<rparr>
                in if wk then wake_write_wq s1 else s1)
             else set_pc t (RLoop c) s)"

definition eventfd_write_step :: "nat \<Rightarrow> u64 \<Rightarrow> u64 \<Rightarrow> efd_sys \<Rightarrow> efd_sys" where
  "eventfd_write_step t add old s =
     (let c = efd_count (es_state s)
      in case eventfd_write_try (efd_nonblock (es_fflags s) (es_state s)) add old of
           EfdAgain \<Rightarrow> set_pc t EDone s
         | EfdWait \<Rightarrow> set_pc t (WWait add) s
         | EfdSet v new wk \<Rightarrow>
             if c = old then
               (let s1 = (set_count new (set_pc t EDone s))\<lparr>added := added s + unat v\<rparr>
                in if wk then wake_read_wq s1 else s1)
             else set_pc t (WLoop add c) s)"

inductive efd_step :: "efd_sys \<Rightarrow> efd_sys \<Rightarrow> bool" where
  efd_read: "es_pc s t = RLoop old \<Longrightarrow> efd_step s (eventfd_read_step t old s)"
| efd_rwait: "es_pc s t = RWait \<Longrightarrow>
     efd_step s (set_pc t (if efd_read_cond (efd_count (es_state s))
                           then RLoop (efd_count (es_state s)) else RAsleep) s)"
| efd_write: "es_pc s t = WLoop add old \<Longrightarrow> efd_step s (eventfd_write_step t add old s)"
| efd_wwait: "es_pc s t = WWait add \<Longrightarrow>
     efd_step s (set_pc t (if efd_write_cond add (efd_count (es_state s))
                           then WLoop add (efd_count (es_state s)) else WAsleep add) s)"

inductive_cases efd_stepE: "efd_step s s'"

inductive efd_call :: "efd_sys \<Rightarrow> efd_sys \<Rightarrow> bool" where
  call_read: "es_pc s t = EIdle \<Longrightarrow> efd_call s (set_pc t (RLoop (efd_count (es_state s))) s)"
| call_write: "es_pc s t = EIdle \<Longrightarrow> eventfd_write_arg 8 add = Inr add \<Longrightarrow>
     efd_call s (set_pc t (WLoop add (efd_count (es_state s))) s)"

inductive efd_reachable :: "eventfd_state_t \<Rightarrow> efd_sys \<Rightarrow> bool" for s0 where
  er_init: "efd_reachable s0 \<lparr>es_state = s0, es_fflags = ff, es_pc = (\<lambda>_. EIdle), taken = 0, added = 0\<rparr>"
| er_step: "efd_reachable s0 s \<Longrightarrow> efd_step s s' \<Longrightarrow> efd_reachable s0 s'"
| er_call: "efd_reachable s0 s \<Longrightarrow> efd_call s s' \<Longrightarrow> efd_reachable s0 s'"

section \<open>Lemmas\<close>

definition efd_inv :: "eventfd_state_t \<Rightarrow> efd_sys \<Rightarrow> bool" where
  "efd_inv s0 s \<longleftrightarrow> efd_count (es_state s) \<le> EVENTFD_MAX \<and>
     unat (efd_count s0) + added s = taken s + unat (efd_count (es_state s))"

lemma efd_wake_simps [simp]:
  "es_state (wake_read_wq s) = es_state s" "es_state (wake_write_wq s) = es_state s"
  "taken (wake_read_wq s) = taken s" "added (wake_read_wq s) = added s"
  "taken (wake_write_wq s) = taken s" "added (wake_write_wq s) = added s"
  "es_state (set_pc t pc s) = es_state s" "taken (set_pc t pc s) = taken s"
  "added (set_pc t pc s) = added s"
  by (simp_all add: wake_read_wq_def wake_write_wq_def set_pc_def)

lemma efd_inv_set_pc [simp]: "efd_inv s0 (set_pc t pc s) = efd_inv s0 s"
  by (simp add: efd_inv_def)

lemma no_overflow_sum:
  assumes "\<not> efd_overflow old add"
  shows "unat (old + add) = unat old + unat add" and "old + add \<le> EVENTFD_MAX"
  using assms by (auto simp: efd_overflow_def not_less intro!: unat_plus_simple [THEN iffD1])

lemma read_step_inv:
  assumes "efd_inv s0 s"
  shows "efd_inv s0 (eventfd_read_step t old s)"
proof (cases "eventfd_read_try (efd_sema (es_state s)) (efd_nonblock (es_fflags s) (es_state s)) old")
  case (EfdSet v new wk)
  then have n: "old \<noteq> 0" "v = (if efd_sema (es_state s) then 1 else old)"
      "new = (if efd_sema (es_state s) then old - 1 else 0)"
    by (auto simp: eventfd_read_try_def split: if_splits)
  then have sum: "unat old = unat v + unat new"
    by (auto simp: unat_minus_one unat_gt_0)
  moreover have "new \<le> old"
    using sum by (simp add: word_le_nat_alt)
  ultimately show ?thesis
    using assms EfdSet by (auto simp: efd_inv_def eventfd_read_step_def Let_def set_count_def)
qed (use assms in \<open>simp_all add: efd_inv_def eventfd_read_step_def Let_def\<close>)

lemma write_step_inv:
  assumes "efd_inv s0 s"
  shows "efd_inv s0 (eventfd_write_step t add old s)"
proof (cases "eventfd_write_try (efd_nonblock (es_fflags s) (es_state s)) add old")
  case (EfdSet v new wk)
  then have n: "\<not> efd_overflow old add" "v = add" "new = old + add"
    by (auto simp: eventfd_write_try_def split: if_splits)
  then show ?thesis
    using assms EfdSet no_overflow_sum [OF n(1)]
    by (auto simp: efd_inv_def eventfd_write_step_def Let_def set_count_def)
qed (use assms in \<open>simp_all add: efd_inv_def eventfd_write_step_def Let_def\<close>)

lemma efd_reachable_inv:
  assumes "efd_reachable s0 s" and "efd_count s0 \<le> EVENTFD_MAX"
  shows "efd_inv s0 s"
  using assms(1)
proof (induction rule: efd_reachable.induct)
  case er_init
  then show ?case
    using assms(2) by (simp add: efd_inv_def)
next
  case (er_step s s')
  then show ?case
    by (auto elim!: efd_stepE intro: read_step_inv write_step_inv)
next
  case (er_call s s')
  then show ?case
    by (auto elim!: efd_call.cases)
qed

section \<open>Properties\<close>

text \<open>C19: The counter is exact under any interleaving of readers and writers: the initial value plus
  everything written equals everything read plus the counter, as unbounded sums, and the counter
  never exceeds its maximum; no update is lost and none wraps.\<close>

theorem eventfd_conserves:
  assumes "efd_reachable s0 s" and "efd_count s0 \<le> EVENTFD_MAX"
  shows "unat (efd_count s0) + added s = taken s + unat (efd_count (es_state s)) \<and>
    efd_count (es_state s) \<le> EVENTFD_MAX"
  using efd_reachable_inv [OF assms] by (simp add: efd_inv_def)

definition demo_efd :: "u64 \<Rightarrow> efd_sys" where
  "demo_efd c = \<lparr>es_state = \<lparr>efd_count = c, efd_flags = 1\<rparr>, es_fflags = 0, es_pc = (\<lambda>_. EIdle),
     taken = 0, added = 0\<rparr>"

lemma demo_efd_reachable: "efd_reachable \<lparr>efd_count = c, efd_flags = 1\<rparr> (demo_efd c)"
  unfolding demo_efd_def by (rule er_init)

theorem eventfd_conserves_witness:
  "\<exists>s. efd_reachable \<lparr>efd_count = 3, efd_flags = 1\<rparr> s \<and> taken s = 1 \<and>
     unat (efd_count (es_state s)) = 2"
proof -
  let ?s1 = "set_pc 0 (RLoop 3) (demo_efd 3)" and ?init = "\<lparr>efd_count = 3, efd_flags = 1\<rparr> :: eventfd_state_t"
  have "efd_reachable ?init ?s1"
    using er_call [OF demo_efd_reachable call_read, of 3 0] by (simp add: demo_efd_def)
  then have r: "efd_reachable ?init (eventfd_read_step 0 3 ?s1)"
    by (rule er_step [OF _ efd_read]) (simp add: set_pc_def)
  have t: "taken (eventfd_read_step 0 3 ?s1) = 1" "added (eventfd_read_step 0 3 ?s1) = 0"
    by (simp_all add: eventfd_read_step_def eventfd_read_try_def demo_efd_def set_pc_def
        efd_sema_def set_count_def)
  from eventfd_conserves [OF r] r t show ?thesis
    by auto
qed

text \<open>A blocked writer can be forgotten. In semaphore mode with the counter one below its maximum,
  a writer of 2 sleeps; a reader then takes 1 and wakes nobody, because it only does so from the
  maximum itself. In the reached state the write would fit and the wait condition holds, but the
  writer sleeps and no thread can take a step.\<close>

theorem eventfd_lost_wakeup:
  "\<exists>s. efd_reachable \<lparr>efd_count = EVENTFD_MAX - 1, efd_flags = EFD_SEMAPHORE\<rparr> s \<and>
     es_pc s 0 = WAsleep 2 \<and> efd_write_cond 2 (efd_count (es_state s)) \<and>
     \<not> efd_overflow (efd_count (es_state s)) 2 \<and> (\<nexists>s'. efd_step s s')"
proof -
  let ?c = "EVENTFD_MAX - 1" and ?init = "\<lparr>efd_count = EVENTFD_MAX - 1, efd_flags = 1\<rparr> :: eventfd_state_t"
  let ?at = "\<lambda>pcs. (demo_efd ?c)\<lparr>es_pc := pcs\<rparr>"
  let ?s = "(demo_efd (?c - 1))\<lparr>es_pc := (\<lambda>_. EIdle)(0 := WAsleep 2, 1 := EDone), taken := 1\<rparr>"
  have "efd_call (demo_efd ?c) (?at ((\<lambda>_. EIdle)(0 := WLoop 2 ?c)))"
    using call_write [of "demo_efd ?c" 0 2]
    by (simp add: demo_efd_def set_pc_def eventfd_write_arg_def)
  moreover have "efd_step (?at ((\<lambda>_. EIdle)(0 := WLoop 2 ?c))) (?at ((\<lambda>_. EIdle)(0 := WWait 2)))"
    using efd_write [of "?at ((\<lambda>_. EIdle)(0 := WLoop 2 ?c))" 0 2 ?c]
    by (simp add: eventfd_write_step_def eventfd_write_try_def efd_overflow_def efd_nonblock_def
        demo_efd_def set_pc_def)
  moreover have "efd_step (?at ((\<lambda>_. EIdle)(0 := WWait 2))) (?at ((\<lambda>_. EIdle)(0 := WAsleep 2)))"
    using efd_wwait [of "?at ((\<lambda>_. EIdle)(0 := WWait 2))" 0 2]
    by (simp add: efd_write_cond_def demo_efd_def set_pc_def)
  moreover have "efd_call (?at ((\<lambda>_. EIdle)(0 := WAsleep 2)))
      (?at ((\<lambda>_. EIdle)(0 := WAsleep 2, 1 := RLoop ?c)))"
    using call_read [of "?at ((\<lambda>_. EIdle)(0 := WAsleep 2))" 1]
    by (simp add: demo_efd_def set_pc_def)
  moreover have "efd_step (?at ((\<lambda>_. EIdle)(0 := WAsleep 2, 1 := RLoop ?c))) ?s"
    using efd_read [of "?at ((\<lambda>_. EIdle)(0 := WAsleep 2, 1 := RLoop ?c))" 1 ?c]
    by (simp add: eventfd_read_step_def eventfd_read_try_def demo_efd_def set_pc_def efd_sema_def
        set_count_def)
  ultimately have r: "efd_reachable ?init ?s"
    using demo_efd_reachable by (meson er_step er_call)
  have "\<nexists>s'. efd_step ?s s'"
    by (auto elim!: efd_stepE split: if_splits)
  with r show ?thesis
    by (intro exI [of _ ?s]) (simp add: demo_efd_def efd_write_cond_def efd_overflow_def)
qed

text \<open>A writer that must wait usually does not sleep. The overflow test detects wrap-around but
  the wait condition does not, so the writer sleeps only if the sum is exactly the reserved value;
  in every other overflow it finds its condition true and loops.\<close>

theorem eventfd_writer_sleeps_iff:
  assumes "efd_overflow c add"
  shows "\<not> efd_write_cond add c \<longleftrightarrow> unat c + unat add = 2 ^ 64 - 1"
proof -
  have m: "c + add \<le> EVENTFD_MAX \<longleftrightarrow> unat (c + add) \<noteq> 2 ^ 64 - 1"
    using unat_bound [of "c + add"] by (simp add: word_le_nat_alt) linarith
  have s: "unat (c + add) = (unat c + unat add) mod 2 ^ 64"
    by (simp add: unat_word_ariths)
  have "unat c < 2 ^ 64" "unat add < 2 ^ 64"
    using unat_bound [of c] unat_bound [of add] by simp_all
  then have "(unat c + unat add) mod 2 ^ 64 = 2 ^ 64 - 1 \<longleftrightarrow> unat c + unat add = 2 ^ 64 - 1"
    by (auto simp: mod_if)
  then show ?thesis
    by (simp add: efd_write_cond_def m s)
qed

theorem eventfd_writer_sleeps_iff_witness:
  "efd_overflow EVENTFD_MAX 5 \<and> efd_write_cond 5 EVENTFD_MAX"
proof -
  have h: "efd_overflow EVENTFD_MAX 5"
    by (simp add: efd_overflow_def)
  with eventfd_writer_sleeps_iff [OF h] show ?thesis
    by simp
qed

end
