(* ===== verification/Futex.thy ===== *)
theory Futex
  imports MakaOS_Prelude
begin

text \<open>
  Futexes: \<^verbatim>\<open>kernel/proc/futex.c\<close>. A bucket is the linked list of its waiters, newest first. A waiter
  lives on the stack of its task, so the task names it; \<open>fw_val\<close> remembers the value the task
  expected. Each function body between a lock and its unlock is one step.
\<close>

section \<open>Buckets\<close>

record futex_waiter_t =
  fw_task :: nat
  fw_mm :: u64
  fw_uaddr :: u64
  fw_val :: u32

definition bucket_of :: "u64 \<Rightarrow> u64 \<Rightarrow> nat" where
  "bucket_of mm uaddr =
     (let h0 = drop_bit 4 mm XOR drop_bit 2 uaddr;
          h1 = h0 XOR drop_bit 16 h0;
          h2 = h1 XOR drop_bit 8 h1
      in unat (h2 AND (256 - 1)))"

record futex_sys =
  fx_buckets :: "nat \<Rightarrow> futex_waiter_t list"
  fx_woken :: "nat \<Rightarrow> bool"
  fx_mem :: "u64 \<Rightarrow> u64 \<Rightarrow> u32"

definition set_bucket :: "nat \<Rightarrow> futex_waiter_t list \<Rightarrow> futex_sys \<Rightarrow> futex_sys" where
  "set_bucket b ws s = s\<lparr>fx_buckets := (fx_buckets s)(b := ws)\<rparr>"

section \<open>Waiting\<close>

datatype wait_begin = WaitFail errno | WaitSleeps

text \<open>\<^verbatim>\<open>futex_wait\<close> up to its sleep loop. The word is read after the enqueue, under the bucket lock;
  \<open>readable\<close> is the success of the first \<^verbatim>\<open>copy_from_user\<close>.\<close>

definition futex_wait_begin ::
    "bool \<Rightarrow> nat \<Rightarrow> u64 \<Rightarrow> u64 \<Rightarrow> u32 \<Rightarrow> futex_sys \<Rightarrow> wait_begin \<times> futex_sys" where
  "futex_wait_begin readable task mm uaddr val s =
     (if uaddr = 0 then (WaitFail EINVAL, s)
      else if uaddr AND 3 \<noteq> 0 then (WaitFail EINVAL, s)
      else if \<not> readable then (WaitFail EFAULT, s)
      else let b = bucket_of mm uaddr;
               w = \<lparr>fw_task = task, fw_mm = mm, fw_uaddr = uaddr, fw_val = val\<rparr>;
               s1 = set_bucket b (w # fx_buckets s b) (s\<lparr>fx_woken := (fx_woken s)(task := False)\<rparr>)
           in if fx_mem s mm uaddr \<noteq> val then (WaitFail EAGAIN, set_bucket b (tl (fx_buckets s1 b)) s1)
              else (WaitSleeps, s1))"

fun unlink_waiter :: "nat \<Rightarrow> futex_waiter_t list \<Rightarrow> futex_waiter_t list" where
  "unlink_waiter t [] = []"
| "unlink_waiter t (w # ws) = (if fw_task w = t then ws else w # unlink_waiter t ws)"

text \<open>The end of \<^verbatim>\<open>futex_wait\<close>: the loop was left because the task was woken (\<open>None\<close>), by a signal or by
  the timeout.\<close>

definition futex_wait_end :: "nat \<Rightarrow> u64 \<Rightarrow> u64 \<Rightarrow> errno option \<Rightarrow> futex_sys \<Rightarrow> unit result \<times> futex_sys" where
  "futex_wait_end task mm uaddr why s =
     (case why of
        None \<Rightarrow> (Inr (), s)
      | Some e \<Rightarrow>
          if \<not> fx_woken s task then
            (let b = bucket_of mm uaddr
             in (Inl e, set_bucket b (unlink_waiter task (fx_buckets s b)) s))
          else (Inr (), s))"

section \<open>Waking\<close>

text \<open>The walk of \<^verbatim>\<open>futex_wake\<close>: the waiters it unlinks and the list it leaves, with \<open>k\<close> still to wake.\<close>

fun wake_scan ::
    "u64 \<Rightarrow> u64 \<Rightarrow> nat \<Rightarrow> futex_waiter_t list \<Rightarrow> futex_waiter_t list \<times> futex_waiter_t list" where
  "wake_scan mm uaddr k [] = ([], [])"
| "wake_scan mm uaddr k (w # ws) =
     (if k = 0 then ([], w # ws)
      else if fw_mm w = mm \<and> fw_uaddr w = uaddr then
        (let (hit, rest) = wake_scan mm uaddr (k - 1) ws in (w # hit, rest))
      else (let (hit, rest) = wake_scan mm uaddr k ws in (hit, w # rest)))"

definition futex_wake :: "u64 \<Rightarrow> u64 \<Rightarrow> u32 \<Rightarrow> futex_sys \<Rightarrow> nat result \<times> futex_sys" where
  "futex_wake mm uaddr nwake s =
     (if uaddr = 0 then (Inl EINVAL, s)
      else if nwake = 0 then (Inr 0, s)
      else let b = bucket_of mm uaddr;
               (hit, rest) = wake_scan mm uaddr (unat nwake) (fx_buckets s b)
           in (Inr (length hit),
               set_bucket b rest (s\<lparr>fx_woken := (\<lambda>t. t \<in> fw_task ` set hit \<or> fx_woken s t)\<rparr>)))"

section \<open>Users of a futex\<close>

text \<open>Tasks that wait, tasks that change a word and then wake everyone waiting on it. \<open>fu_owed\<close> are
  the addresses whose word was changed and whose wake has not happened yet; \<open>fu_in\<close> are the tasks
  inside \<^verbatim>\<open>futex_wait\<close>, with their address.\<close>

record futex_use =
  fu_sys :: futex_sys
  fu_owed :: "(u64 \<times> u64) set"
  fu_in :: "nat \<rightharpoonup> (u64 \<times> u64)"

definition fu_init :: "(u64 \<Rightarrow> u64 \<Rightarrow> u32) \<Rightarrow> futex_use" where
  "fu_init mem = \<lparr>fu_sys = \<lparr>fx_buckets = (\<lambda>_. []), fx_woken = (\<lambda>_. False), fx_mem = mem\<rparr>,
     fu_owed = {}, fu_in = Map.empty\<rparr>"

inductive fu_step :: "futex_use \<Rightarrow> futex_use \<Rightarrow> bool" where
  fu_wait: "fu_in u t = None \<Longrightarrow> futex_wait_begin True t mm a val (fu_sys u) = (WaitSleeps, s) \<Longrightarrow>
     fu_step u (u\<lparr>fu_sys := s, fu_in := (fu_in u)(t \<mapsto> (mm, a))\<rparr>)"
| fu_refused: "fu_in u t = None \<Longrightarrow> futex_wait_begin r t mm a val (fu_sys u) = (WaitFail e, s) \<Longrightarrow>
     fu_step u (u\<lparr>fu_sys := s\<rparr>)"
| fu_return: "fu_in u t = Some (mm, a) \<Longrightarrow> why = None \<longrightarrow> fx_woken (fu_sys u) t \<Longrightarrow>
     futex_wait_end t mm a why (fu_sys u) = (r, s) \<Longrightarrow>
     fu_step u (u\<lparr>fu_sys := s, fu_in := (fu_in u)(t := None)\<rparr>)"
| fu_store: "fu_step u (u\<lparr>fu_sys := (fu_sys u)\<lparr>fx_mem := (fx_mem (fu_sys u))
       (mm := (fx_mem (fu_sys u) mm)(a := v))\<rparr>, fu_owed := insert (mm, a) (fu_owed u)\<rparr>)"
| fu_wake_all: "futex_wake mm a 0xFFFFFFFF (fu_sys u) = (Inr n, s) \<Longrightarrow> n < 0xFFFFFFFF \<Longrightarrow>
     fu_step u (u\<lparr>fu_sys := s, fu_owed := fu_owed u - {(mm, a)}\<rparr>)"
| fu_wake_some: "futex_wake mm a k (fu_sys u) = (r, s) \<Longrightarrow> fu_step u (u\<lparr>fu_sys := s\<rparr>)"

inductive fu_reachable :: "(u64 \<Rightarrow> u64 \<Rightarrow> u32) \<Rightarrow> futex_use \<Rightarrow> bool" for mem where
  fu_start: "fu_reachable mem (fu_init mem)"
| fu_next: "fu_reachable mem u \<Longrightarrow> fu_step u v \<Longrightarrow> fu_reachable mem v"

section \<open>Lemmas\<close>

definition waits_on :: "u64 \<Rightarrow> u64 \<Rightarrow> futex_waiter_t \<Rightarrow> bool" where
  "waits_on mm a w \<longleftrightarrow> fw_mm w = mm \<and> fw_uaddr w = a"

lemma wake_scan_hit: "fst (wake_scan mm a k ws) = take k (filter (waits_on mm a) ws)"
  by (induction mm a k ws rule: wake_scan.induct)
    (auto simp: waits_on_def case_prod_unfold take_Cons' Let_def)

lemma wake_scan_rest_other:
  "filter (\<lambda>w. \<not> waits_on mm a w) (snd (wake_scan mm a k ws)) = filter (\<lambda>w. \<not> waits_on mm a w) ws"
  by (induction mm a k ws rule: wake_scan.induct)
    (auto simp: waits_on_def case_prod_unfold Let_def)

lemma wake_scan_rest_same:
  "filter (waits_on mm a) (snd (wake_scan mm a k ws)) = drop k (filter (waits_on mm a) ws)"
  by (induction mm a k ws rule: wake_scan.induct)
    (auto simp: waits_on_def case_prod_unfold Let_def drop_Cons')

lemma wake_scan_set:
  "set ws = set (fst (wake_scan mm a k ws)) \<union> set (snd (wake_scan mm a k ws))"
  by (induction mm a k ws rule: wake_scan.induct) (auto simp: case_prod_unfold Let_def)

lemma wake_scan_distinct:
  "distinct (map fw_task ws) \<Longrightarrow> distinct (map fw_task (snd (wake_scan mm a k ws))) \<and>
     fw_task ` set (fst (wake_scan mm a k ws)) \<inter> fw_task ` set (snd (wake_scan mm a k ws)) = {}"
proof (induction mm a k ws rule: wake_scan.induct)
  case (2 mm a k w ws)
  then show ?case
    using wake_scan_set [of ws mm a "k - 1"] wake_scan_set [of ws mm a k]
    by (auto simp: case_prod_unfold Let_def image_iff)
qed simp

lemma unlink_waiter_set:
  "distinct (map fw_task ws) \<Longrightarrow> set (unlink_waiter t ws) = {w \<in> set ws. fw_task w \<noteq> t}"
  by (induction ws) (auto simp: image_iff)

lemma unlink_waiter_distinct:
  "distinct (map fw_task ws) \<Longrightarrow> distinct (map fw_task (unlink_waiter t ws))"
  by (induction ws) (auto simp: unlink_waiter_set)

text \<open>What holds between steps: buckets hold the waiters that hash to them, one per task, exactly for
  the tasks inside \<^verbatim>\<open>futex_wait\<close> that were not woken, and a waiter whose word no longer has its value
  has a wake coming.\<close>

definition fu_inv :: "futex_use \<Rightarrow> bool" where
  "fu_inv u \<longleftrightarrow>
     (\<forall>b. distinct (map fw_task (fx_buckets (fu_sys u) b))) \<and>
     (\<forall>b. \<forall>w \<in> set (fx_buckets (fu_sys u) b). b = bucket_of (fw_mm w) (fw_uaddr w) \<and>
        fu_in u (fw_task w) = Some (fw_mm w, fw_uaddr w) \<and> \<not> fx_woken (fu_sys u) (fw_task w) \<and>
        (fx_mem (fu_sys u) (fw_mm w) (fw_uaddr w) = fw_val w \<or> (fw_mm w, fw_uaddr w) \<in> fu_owed u)) \<and>
     (\<forall>t mm a. fu_in u t = Some (mm, a) \<longrightarrow> fx_woken (fu_sys u) t \<or>
        (\<exists>w \<in> set (fx_buckets (fu_sys u) (bucket_of mm a)). fw_task w = t))"

lemma fu_invD:
  assumes "fu_inv u"
  shows "distinct (map fw_task (fx_buckets (fu_sys u) b))"
    and "w \<in> set (fx_buckets (fu_sys u) b) \<Longrightarrow> b = bucket_of (fw_mm w) (fw_uaddr w)"
    and "w \<in> set (fx_buckets (fu_sys u) b) \<Longrightarrow> fu_in u (fw_task w) = Some (fw_mm w, fw_uaddr w)"
    and "w \<in> set (fx_buckets (fu_sys u) b) \<Longrightarrow> \<not> fx_woken (fu_sys u) (fw_task w)"
    and "w \<in> set (fx_buckets (fu_sys u) b) \<Longrightarrow>
      fx_mem (fu_sys u) (fw_mm w) (fw_uaddr w) = fw_val w \<or> (fw_mm w, fw_uaddr w) \<in> fu_owed u"
    and "fu_in u t = Some (mm, a) \<Longrightarrow> fx_woken (fu_sys u) t \<or>
      (\<exists>w \<in> set (fx_buckets (fu_sys u) (bucket_of mm a)). fw_task w = t)"
  using assms by (auto simp: fu_inv_def)

lemma fu_invI:
  assumes "\<And>b. distinct (map fw_task (fx_buckets (fu_sys u) b))"
    and "\<And>b w. w \<in> set (fx_buckets (fu_sys u) b) \<Longrightarrow> b = bucket_of (fw_mm w) (fw_uaddr w)"
    and "\<And>b w. w \<in> set (fx_buckets (fu_sys u) b) \<Longrightarrow> fu_in u (fw_task w) = Some (fw_mm w, fw_uaddr w)"
    and "\<And>b w. w \<in> set (fx_buckets (fu_sys u) b) \<Longrightarrow> \<not> fx_woken (fu_sys u) (fw_task w)"
    and "\<And>b w. w \<in> set (fx_buckets (fu_sys u) b) \<Longrightarrow>
      fx_mem (fu_sys u) (fw_mm w) (fw_uaddr w) = fw_val w \<or> (fw_mm w, fw_uaddr w) \<in> fu_owed u"
    and "\<And>t mm a. fu_in u t = Some (mm, a) \<Longrightarrow> fx_woken (fu_sys u) t \<or>
      (\<exists>w \<in> set (fx_buckets (fu_sys u) (bucket_of mm a)). fw_task w = t)"
  shows "fu_inv u"
  using assms unfolding fu_inv_def by auto

lemma not_in_not_waiting:
  assumes "fu_inv u" and "fu_in u t = None" and "w \<in> set (fx_buckets (fu_sys u) b)"
  shows "fw_task w \<noteq> t"
  using fu_invD(3) [OF assms(1,3)] assms(2) by auto

lemma wait_begin_sleeps:
  assumes "futex_wait_begin r t mm a val s = (WaitSleeps, s')"
  shows "s' = set_bucket (bucket_of mm a)
      (\<lparr>fw_task = t, fw_mm = mm, fw_uaddr = a, fw_val = val\<rparr> # fx_buckets s (bucket_of mm a))
      (s\<lparr>fx_woken := (fx_woken s)(t := False)\<rparr>)" and "fx_mem s mm a = val"
  using assms by (auto simp: futex_wait_begin_def Let_def split: if_splits)

lemma wait_begin_fails:
  assumes "futex_wait_begin r t mm a val s = (WaitFail e, s')"
  shows "fx_buckets s' = fx_buckets s" and "fx_mem s' = fx_mem s"
    and "x \<noteq> t \<Longrightarrow> fx_woken s' x = fx_woken s x"
  using assms
  by (auto simp: futex_wait_begin_def Let_def set_bucket_def fun_eq_iff split: if_splits)

lemma wait_preserves:
  assumes "fu_inv u" and "fu_in u t = None"
    and "futex_wait_begin True t mm a val (fu_sys u) = (WaitSleeps, s)"
  shows "fu_inv (u\<lparr>fu_sys := s, fu_in := (fu_in u)(t \<mapsto> (mm, a))\<rparr>)"
proof -
  note s = wait_begin_sleeps [OF assms(3)] and inv = fu_invD [OF assms(1)]
  note nt = not_in_not_waiting [OF assms(1,2)]
  show ?thesis
  proof (rule fu_invI, goal_cases)
    case (1 b)
    then show ?case
      using inv(1) nt by (auto simp: s(1) set_bucket_def)
  next
    case (2 b w)
    then show ?case
      using inv(2) by (auto simp: s(1) set_bucket_def split: if_splits)
  next
    case (3 b w)
    then show ?case
      using inv(3) nt by (auto simp: s(1) set_bucket_def split: if_splits)
  next
    case (4 b w)
    then show ?case
      using inv(4) nt by (auto simp: s(1) set_bucket_def split: if_splits)
  next
    case (5 b w)
    then show ?case
      using inv(5) s(2) by (auto simp: s(1) set_bucket_def split: if_splits)
  next
    case (6 x m c)
    then show ?case
      using inv(6) [of x m c] by (auto simp: s(1) set_bucket_def split: if_splits)
  qed
qed

lemma refused_preserves:
  assumes "fu_inv u" and "fu_in u t = None"
    and "futex_wait_begin r t mm a val (fu_sys u) = (WaitFail e, s)"
  shows "fu_inv (u\<lparr>fu_sys := s\<rparr>)"
proof -
  note s = wait_begin_fails [OF assms(3)] and inv = fu_invD [OF assms(1)]
  note nt = not_in_not_waiting [OF assms(1,2)]
  show ?thesis
  proof (rule fu_invI, goal_cases)
    case (4 b w)
    then show ?case
      using inv(4) [of w b] nt [of w b] by (simp add: s)
  next
    case (6 x m c)
    then have "x \<noteq> t"
      using assms(2) by auto
    with 6 inv(6) show ?case
      by (simp add: s)
  qed (use inv in \<open>auto simp: s\<close>)
qed

lemma return_preserves:
  assumes "fu_inv u" and "fu_in u t = Some (mm, a)" and "why = None \<longrightarrow> fx_woken (fu_sys u) t"
    and "futex_wait_end t mm a why (fu_sys u) = (r, s)"
  shows "fu_inv (u\<lparr>fu_sys := s, fu_in := (fu_in u)(t := None)\<rparr>)"
proof -
  note inv = fu_invD [OF assms(1)]
  let ?b = "bucket_of mm a"
  have nb: "{w \<in> set (fx_buckets (fu_sys u) b). fw_task w \<noteq> t} = set (fx_buckets (fu_sys u) b)"
    if "b \<noteq> ?b" for b
    using inv(2) [of _ b] inv(3) [of _ b] assms(2) that by force
  have nw: "{w \<in> set (fx_buckets (fu_sys u) b). fw_task w \<noteq> t} = set (fx_buckets (fu_sys u) b)"
    if "fx_woken (fu_sys u) t" for b
    using inv(4) [of _ b] that by force
  have s: "s = fu_sys u \<and> fx_woken (fu_sys u) t \<or>
      s = set_bucket ?b (unlink_waiter t (fx_buckets (fu_sys u) ?b)) (fu_sys u)"
    using assms(3,4) by (auto simp: futex_wait_end_def Let_def split: option.splits if_splits)
  then have gone: "set (fx_buckets s b) = {w \<in> set (fx_buckets (fu_sys u) b). fw_task w \<noteq> t}"
      "distinct (map fw_task (fx_buckets s b))" "fx_woken s = fx_woken (fu_sys u)"
      "fx_mem s = fx_mem (fu_sys u)" for b
    using nw [of b] nb [of b] inv(1) [of b] unlink_waiter_set [OF inv(1), of t ?b]
      unlink_waiter_distinct [OF inv(1), of t ?b]
    by (cases "b = ?b"; elim disjE conjE; simp add: set_bucket_def)+
  show ?thesis
  proof (rule fu_invI, goal_cases)
    case (6 x m c)
    then show ?case
      using inv(6) [of x m c] gone(1) [of "bucket_of m c"] gone(3) by (auto split: if_splits)
  next
    case (5 b w)
    then show ?case
      using inv(5) [of w b] gone(1) [of b] gone(4) by auto
  qed (use inv gone in \<open>auto split: if_splits\<close>)
qed

lemma futex_wake_effect:
  assumes "futex_wake mm a k s = (Inr n, s')" and "k \<noteq> 0"
  shows "n = length (fst (wake_scan mm a (unat k) (fx_buckets s (bucket_of mm a))))"
    and "s' = set_bucket (bucket_of mm a) (snd (wake_scan mm a (unat k) (fx_buckets s (bucket_of mm a))))
      (s\<lparr>fx_woken := (\<lambda>t. t \<in> fw_task ` set (fst (wake_scan mm a (unat k)
          (fx_buckets s (bucket_of mm a)))) \<or> fx_woken s t)\<rparr>)"
  using assms by (auto simp: futex_wake_def case_prod_unfold Let_def split: if_splits)

lemma futex_wake_idle:
  "futex_wake mm a k s = (Inl e, s') \<Longrightarrow> s' = s" "futex_wake mm a 0 s = (r, s') \<Longrightarrow> s' = s"
  by (auto simp: futex_wake_def case_prod_unfold Let_def split: if_splits)

lemma wake_preserves:
  assumes "fu_inv u" and "futex_wake mm a k (fu_sys u) = (Inr n, s)" and "k \<noteq> 0"
    and "ow = fu_owed u \<or> n < unat k \<and> ow = fu_owed u - {(mm, a)}"
  shows "fu_inv (u\<lparr>fu_sys := s, fu_owed := ow\<rparr>)"
proof -
  let ?b = "bucket_of mm a" and ?ws = "fx_buckets (fu_sys u) (bucket_of mm a)"
  note inv = fu_invD [OF assms(1)] and s = futex_wake_effect [OF assms(2,3)]
  let ?hit = "fst (wake_scan mm a (unat k) ?ws)" and ?rest = "snd (wake_scan mm a (unat k) ?ws)"
  note scan = wake_scan_set [of ?ws mm a "unat k"] wake_scan_distinct [OF inv(1) [of ?b], of mm a "unat k"]
  have left: "w \<in> set ?ws \<and> fw_task w \<notin> fw_task ` set ?hit" if "w \<in> set ?rest" for w
    using scan that by auto
  have all: "\<not> waits_on mm a w" if "n < unat k" "w \<in> set ?rest" for w
  proof -
    have "filter (waits_on mm a) ?rest = []"
      using that(1) s(1) by (simp add: wake_scan_rest_same wake_scan_hit min_def split: if_splits)
    with that(2) show ?thesis
      by (metis filter_empty_conv)
  qed
  have other: "fw_task w \<notin> fw_task ` set ?hit" if "w \<in> set (fx_buckets (fu_sys u) b)" "b \<noteq> ?b" for w b
  proof
    assume "fw_task w \<in> fw_task ` set ?hit"
    then obtain h where "h \<in> set ?hit" and e: "fw_task h = fw_task w"
      by auto
    then have h: "h \<in> set ?ws"
      using scan(1) by blast
    then show False
      using inv(2,3) [OF that(1)] inv(2,3) [OF h] e that(2) by auto
  qed
  show ?thesis
  proof (rule fu_invI, goal_cases)
    case (1 b)
    then show ?case
      using inv(1) [of b] scan(2) by (simp add: s(2) set_bucket_def)
  next
    case (2 b w)
    then show ?case
      using inv(2) [of w b] inv(2) [of w ?b] left [of w]
      by (auto simp: s(2) set_bucket_def split: if_splits)
  next
    case (3 b w)
    then show ?case
      using inv(3) [of w b] inv(3) [of w ?b] left [of w]
      by (auto simp: s(2) set_bucket_def split: if_splits)
  next
    case (4 b w)
    then show ?case
      using inv(4) [of w b] left [of w] other [of w b] inv(4) [of w ?b]
      by (auto simp: s(2) set_bucket_def split: if_splits)
  next
    case (5 b w)
    then show ?case
      using inv(5) [of w b] inv(2) [of w b] left [of w] all [of w] assms(4)
      by (auto simp: s(2) set_bucket_def waits_on_def split: if_splits)
  next
    case (6 x m c)
    then show ?case
      using inv(6) [of x m c] scan(1) by (auto simp: s(2) set_bucket_def split: if_splits)
  qed
qed

lemma store_preserves:
  assumes "fu_inv u"
  shows "fu_inv (u\<lparr>fu_sys := (fu_sys u)\<lparr>fx_mem := (fx_mem (fu_sys u))
       (mm := (fx_mem (fu_sys u) mm)(a := v))\<rparr>, fu_owed := insert (mm, a) (fu_owed u)\<rparr>)"
proof (rule fu_invI, goal_cases)
  case (5 b w)
  then show ?case
    using fu_invD(5) [OF assms, of w b] by auto
qed (use fu_invD [OF assms] in auto)

lemma fu_step_inv: "fu_step u v \<Longrightarrow> fu_inv u \<Longrightarrow> fu_inv v"
proof (induction rule: fu_step.induct)
  case (fu_wake_all mm a u n s)
  then show ?case
    by (intro wake_preserves [where k = "0xFFFFFFFF" and n = n and mm = mm and a = a]) simp_all
next
  case (fu_wake_some mm a k u r s)
  show ?case
  proof (cases "k = 0 \<or> (\<exists>e. r = Inl e)")
    case True
    then have "s = fu_sys u"
      using fu_wake_some(1) futex_wake_idle by auto
    with fu_wake_some(2) show ?thesis
      by simp
  next
    case False
    then obtain n where "r = Inr n"
      by (cases r) auto
    then show ?thesis
      using wake_preserves [OF fu_wake_some(2), of mm a k n s "fu_owed u"] fu_wake_some(1) False
      by simp
  qed
qed (auto intro: wait_preserves refused_preserves return_preserves store_preserves)

lemma fu_reachable_inv: "fu_reachable mem u \<Longrightarrow> fu_inv u"
proof (induction rule: fu_reachable.induct)
  case fu_start
  then show ?case
    by (simp add: fu_inv_def fu_init_def)
qed (rule fu_step_inv)

section \<open>Properties\<close>

text \<open>C25: \<^verbatim>\<open>futex_wake\<close> wakes exactly the right tasks: the newest \<open>nwake\<close> waiters on the address in the
  caller's address space (all of them if there are fewer) are unlinked, marked and counted; every
  other waiter, in this bucket or another, is left where it was.\<close>

theorem futex_wake_exact:
  assumes "uaddr \<noteq> 0" and "nwake \<noteq> 0" and "b = bucket_of mm uaddr"
    and "here = filter (waits_on mm uaddr) (fx_buckets s b)"
    and "futex_wake mm uaddr nwake s = (r, s')"
  shows "r = Inr (min (unat nwake) (length here)) \<and>
    (\<forall>t. fx_woken s' t \<longleftrightarrow> t \<in> fw_task ` set (take (unat nwake) here) \<or> fx_woken s t) \<and>
    filter (waits_on mm uaddr) (fx_buckets s' b) = drop (unat nwake) here \<and>
    filter (\<lambda>w. \<not> waits_on mm uaddr w) (fx_buckets s' b) =
      filter (\<lambda>w. \<not> waits_on mm uaddr w) (fx_buckets s b) \<and>
    (\<forall>c. c \<noteq> b \<longrightarrow> fx_buckets s' c = fx_buckets s c)"
  using assms
  by (auto simp: futex_wake_def case_prod_unfold Let_def set_bucket_def wake_scan_hit
      wake_scan_rest_same wake_scan_rest_other min_def)

definition demo_waiter :: "nat \<Rightarrow> u64 \<Rightarrow> futex_waiter_t" where
  "demo_waiter t a = \<lparr>fw_task = t, fw_mm = 0, fw_uaddr = a, fw_val = 1\<rparr>"

theorem futex_wake_exact_witness:
  "\<exists>r s'. futex_wake 0 64 1 \<lparr>fx_buckets = (\<lambda>_. [demo_waiter 1 64, demo_waiter 2 64]),
       fx_woken = (\<lambda>_. False), fx_mem = (\<lambda>_ _. 1)\<rparr> = (r, s') \<and> r = Inr 1 \<and>
     fx_woken s' 1 \<and> \<not> fx_woken s' 2"
proof -
  let ?s = "\<lparr>fx_buckets = (\<lambda>_. [demo_waiter 1 64, demo_waiter 2 64]), fx_woken = (\<lambda>_. False),
     fx_mem = (\<lambda>_ _. 1)\<rparr>"
  obtain r s' where e: "futex_wake 0 64 1 ?s = (r, s')"
    by fastforce
  from futex_wake_exact [OF _ _ refl refl e] e show ?thesis
    by (auto simp: waits_on_def demo_waiter_def)
qed

text \<open>C8: No wake is lost. Tasks wait, change words and then wake all waiters, in any interleaving
  with signals, timeouts and partial wakes. A task inside \<^verbatim>\<open>futex_wait\<close> on an address for which no
  wake is outstanding was woken, or is queued in its bucket and the word still has the value it
  waits on.\<close>

theorem futex_no_lost_wake:
  assumes "fu_reachable mem u" and "fu_in u t = Some (mm, a)" and "(mm, a) \<notin> fu_owed u"
  shows "fx_woken (fu_sys u) t \<or>
    (\<exists>w \<in> set (fx_buckets (fu_sys u) (bucket_of mm a)). fw_task w = t \<and>
       fw_val w = fx_mem (fu_sys u) mm a)"
proof -
  note inv = fu_invD [OF fu_reachable_inv [OF assms(1)]]
  show ?thesis
    using inv(6) [OF assms(2)] inv(3,5) assms(2,3) by (metis option.inject prod.inject)
qed

theorem futex_no_lost_wake_witness:
  "\<exists>u. fu_reachable (\<lambda>_ _. 1) u \<and> fu_in u 7 = Some (16, 64) \<and>
     (fx_woken (fu_sys u) 7 \<or> (\<exists>w \<in> set (fx_buckets (fu_sys u) (bucket_of 16 64)). fw_task w = 7 \<and>
       fw_val w = 1))"
proof -
  let ?u = "fu_init (\<lambda>_ _. 1)"
  obtain s where s: "futex_wait_begin True 7 16 64 1 (fu_sys ?u) = (WaitSleeps, s)"
      "fx_mem s = (\<lambda>_ _. 1)"
    by (auto simp: futex_wait_begin_def fu_init_def set_bucket_def)
  let ?v = "?u\<lparr>fu_sys := s, fu_in := (fu_in ?u)(7 \<mapsto> (16, 64))\<rparr>"
  have r: "fu_reachable (\<lambda>_ _. 1) ?v"
    by (rule fu_next [OF fu_start fu_wait [OF _ s(1)]]) (simp add: fu_init_def)
  have v: "fu_in ?v 7 = Some (16, 64)" "(16, 64) \<notin> fu_owed ?v"
    by (simp_all add: fu_init_def)
  from futex_no_lost_wake [OF r v] r v s(2) show ?thesis
    by (intro exI [of _ ?v]) auto
qed

end
