(* ===== verification/Chaselev.thy ===== *)
theory Chaselev
  imports MakaOS_Prelude "HOL-Library.Multiset"
begin

text \<open>
  The work-stealing deque of the run queues: \<^verbatim>\<open>kernel/proc/chaselev.h\<close>. One owner pushes and pops at
  the bottom, any number of thieves steal at the top; every access to a shared variable is a step
  of its own and all steps interleave, in the sequentially consistent order that the fences of the
  source establish. \<open>top\<close> and \<open>bottom\<close> are integers: the 64-bit counters of the source agree with
  them as long as fewer than \<open>2^63\<close> operations have been done, and only their difference and
  their low bits are used.
\<close>

section \<open>The deque\<close>

abbreviation (input) CHASELEV_CAP :: int where "CHASELEV_CAP \<equiv> 512"

text \<open>Where the owner is inside \<^verbatim>\<open>chaselev_push\<close> and \<^verbatim>\<open>chaselev_pop\<close>, and a thief inside
  \<^verbatim>\<open>chaselev_steal\<close>, with the values it has read.\<close>

datatype owner_pc = OIdle | OPush nat int int | OPublish nat int | OPop | OCas nat int | ORestore

datatype thief_pc = TIdle | TTop int | TLoad int | TCas int nat

record deque =
  top :: int
  bottom :: int
  slots :: "int \<Rightarrow> nat"
  owner :: owner_pc
  thief :: "nat \<Rightarrow> thief_pc"
  pushed :: "nat list"
  popped :: "nat list"
  stolen :: "nat list"

definition deque_init :: deque where
  "deque_init = \<lparr>top = 0, bottom = 0, slots = (\<lambda>_. 0), owner = OIdle, thief = (\<lambda>_. TIdle),
     pushed = [], popped = [], stolen = []\<rparr>"

definition slot :: "deque \<Rightarrow> int \<Rightarrow> nat" where
  "slot q i = slots q (i mod CHASELEV_CAP)"

definition set_slot :: "int \<Rightarrow> nat \<Rightarrow> deque \<Rightarrow> deque" where
  "set_slot i v q = q\<lparr>slots := (slots q)(i mod CHASELEV_CAP := v)\<rparr>"

section \<open>The owner\<close>

definition push_begin :: "nat \<Rightarrow> deque \<Rightarrow> deque" where
  "push_begin v q = q\<lparr>owner := OPush v (bottom q) (top q)\<rparr>"

definition push_store :: "nat \<Rightarrow> int \<Rightarrow> int \<Rightarrow> deque \<Rightarrow> deque" where
  "push_store v b t q =
     (if b - t \<ge> CHASELEV_CAP then q\<lparr>owner := OIdle\<rparr>
      else (set_slot b v q)\<lparr>owner := OPublish v b\<rparr>)"

definition push_publish :: "nat \<Rightarrow> int \<Rightarrow> deque \<Rightarrow> deque" where
  "push_publish v b q = q\<lparr>bottom := b + 1, owner := OIdle, pushed := pushed q @ [v]\<rparr>"

definition pop_begin :: "deque \<Rightarrow> deque" where
  "pop_begin q = q\<lparr>bottom := bottom q - 1, owner := OPop\<rparr>"

definition pop_read :: "deque \<Rightarrow> deque" where
  "pop_read q =
     (let b = bottom q; t = top q; v = slot q b
      in if t - b \<le> 0 then
           (if t = b then q\<lparr>owner := OCas v t\<rparr>
            else q\<lparr>owner := OIdle, popped := popped q @ [v]\<rparr>)
         else q\<lparr>owner := ORestore\<rparr>)"

definition pop_cas :: "nat \<Rightarrow> int \<Rightarrow> deque \<Rightarrow> deque" where
  "pop_cas v t q =
     (if top q = t then q\<lparr>top := t + 1, owner := ORestore, popped := popped q @ [v]\<rparr>
      else q\<lparr>owner := ORestore\<rparr>)"

definition pop_restore :: "deque \<Rightarrow> deque" where
  "pop_restore q = q\<lparr>bottom := bottom q + 1, owner := OIdle\<rparr>"

section \<open>A thief\<close>

definition set_thief :: "nat \<Rightarrow> thief_pc \<Rightarrow> deque \<Rightarrow> deque" where
  "set_thief i pc q = q\<lparr>thief := (thief q)(i := pc)\<rparr>"

definition steal_top :: "nat \<Rightarrow> deque \<Rightarrow> deque" where
  "steal_top i q = set_thief i (TTop (top q)) q"

definition steal_check :: "nat \<Rightarrow> int \<Rightarrow> deque \<Rightarrow> deque" where
  "steal_check i t q = set_thief i (if t - bottom q \<ge> 0 then TIdle else TLoad t) q"

definition steal_load :: "nat \<Rightarrow> int \<Rightarrow> deque \<Rightarrow> deque" where
  "steal_load i t q = set_thief i (TCas t (slot q t)) q"

definition steal_cas :: "nat \<Rightarrow> int \<Rightarrow> nat \<Rightarrow> deque \<Rightarrow> deque" where
  "steal_cas i t v q =
     (if top q = t then (set_thief i TIdle q)\<lparr>top := t + 1, stolen := stolen q @ [v]\<rparr>
      else set_thief i TIdle q)"

definition chaselev_size_approx :: "deque \<Rightarrow> nat" where
  "chaselev_size_approx q = (if bottom q - top q > 0 then nat (bottom q - top q) else 0)"

inductive deque_step :: "deque \<Rightarrow> deque \<Rightarrow> bool" where
  "owner q = OIdle \<Longrightarrow> deque_step q (push_begin v q)"
| "owner q = OPush v b t \<Longrightarrow> deque_step q (push_store v b t q)"
| "owner q = OPublish v b \<Longrightarrow> deque_step q (push_publish v b q)"
| "owner q = OIdle \<Longrightarrow> deque_step q (pop_begin q)"
| "owner q = OPop \<Longrightarrow> deque_step q (pop_read q)"
| "owner q = OCas v t \<Longrightarrow> deque_step q (pop_cas v t q)"
| "owner q = ORestore \<Longrightarrow> deque_step q (pop_restore q)"
| "thief q i = TIdle \<Longrightarrow> deque_step q (steal_top i q)"
| "thief q i = TTop t \<Longrightarrow> deque_step q (steal_check i t q)"
| "thief q i = TLoad t \<Longrightarrow> deque_step q (steal_load i t q)"
| "thief q i = TCas t v \<Longrightarrow> deque_step q (steal_cas i t v q)"

inductive deque_reachable :: "deque \<Rightarrow> bool" where
  deque_start: "deque_reachable deque_init"
| deque_next: "deque_reachable q \<Longrightarrow> deque_step q q' \<Longrightarrow> deque_reachable q'"

section \<open>Invariant\<close>

text \<open>The end of the elements that belong to the deque: while the owner has lowered \<open>bottom\<close> in a pop
  and not decided yet, the last element still belongs to it.\<close>

definition limit :: "deque \<Rightarrow> int" where
  "limit q = (case owner q of OIdle \<Rightarrow> bottom q | OPush v b t \<Rightarrow> bottom q | OPublish v b \<Rightarrow> bottom q
     | OPop \<Rightarrow> bottom q + 1 | OCas v t \<Rightarrow> bottom q + 1 | ORestore \<Rightarrow> bottom q + 1)"

definition elems :: "deque \<Rightarrow> nat list" where
  "elems q = map (slot q) [top q..limit q - 1]"

definition owner_ok :: "deque \<Rightarrow> bool" where
  "owner_ok q \<longleftrightarrow> (case owner q of
     OPush v b t \<Rightarrow> b = bottom q \<and> t \<le> top q
   | OPublish v b \<Rightarrow> b = bottom q \<and> b - top q < CHASELEV_CAP \<and> slot q b = v
   | OCas v t \<Rightarrow> t = bottom q \<and> v = slot q t \<and> t \<le> top q
   | ORestore \<Rightarrow> top q = bottom q + 1
   | _ \<Rightarrow> True)"

definition thief_ok :: "deque \<Rightarrow> thief_pc \<Rightarrow> bool" where
  "thief_ok q pc \<longleftrightarrow> (case pc of
     TIdle \<Rightarrow> True
   | TTop t \<Rightarrow> t \<le> top q
   | TLoad t \<Rightarrow> t \<le> top q \<and> (t = top q \<longrightarrow> t < limit q)
   | TCas t v \<Rightarrow> t \<le> top q \<and> (t = top q \<longrightarrow> t < limit q \<and> v = slot q t))"

definition deque_inv :: "deque \<Rightarrow> bool" where
  "deque_inv q \<longleftrightarrow> top q \<le> limit q \<and> limit q - top q \<le> CHASELEV_CAP \<and> owner_ok q \<and>
     (\<forall>i. thief_ok q (thief q i)) \<and>
     mset (popped q) + mset (stolen q) + mset (elems q) = mset (pushed q)"

section \<open>Lemmas\<close>

lemma slot_other:
  assumes "i < j" and "j - i < CHASELEV_CAP"
  shows "slot (set_slot j v q) i = slot q i"
proof -
  have "i mod CHASELEV_CAP \<noteq> j mod CHASELEV_CAP"
  proof
    assume "i mod CHASELEV_CAP = j mod CHASELEV_CAP"
    then have "CHASELEV_CAP dvd j - i"
      by (metis mod_eq_dvd_iff)
    with assms show False
      by (meson not_less zdvd_imp_le zless_iff_Suc_zadd diff_gt_0_iff_gt)
  qed
  then show ?thesis
    by (simp add: slot_def set_slot_def)
qed

lemma slot_same [simp]: "slot (set_slot j v q) j = v"
  by (simp add: slot_def set_slot_def)

lemma slot_frame [simp]:
  "slot (q\<lparr>top := x\<rparr>) = slot q" "slot (q\<lparr>bottom := x\<rparr>) = slot q" "slot (q\<lparr>owner := ow\<rparr>) = slot q"
  "slot (q\<lparr>thief := th\<rparr>) = slot q" "slot (q\<lparr>pushed := xs\<rparr>) = slot q"
  "slot (q\<lparr>popped := xs\<rparr>) = slot q" "slot (q\<lparr>stolen := xs\<rparr>) = slot q"
  by (simp_all add: slot_def fun_eq_iff)

lemma limit_thief [simp]: "limit (q\<lparr>thief := th\<rparr>) = limit q"
  by (simp add: limit_def split: owner_pc.split)

lemmas deque_ops = push_begin_def push_store_def push_publish_def pop_begin_def pop_read_def
  pop_cas_def pop_restore_def steal_top_def steal_check_def steal_load_def steal_cas_def

lemma upto_snoc: "i \<le> j \<Longrightarrow> mset (map f [i..j]) = add_mset (f j) (mset (map f [i..j - 1]))"
  by (simp add: upto_rec2)

lemma upto_head: "i \<le> j \<Longrightarrow> mset (map f [i..j]) = add_mset (f i) (mset (map f [i + 1..j]))"
  by (simp add: upto_rec1)

text \<open>A thief that has not moved stays consistent when \<open>top\<close> only grows and, as long as \<open>top\<close> stands, its
  element stays inside the deque and in its slot.\<close>

lemma thief_ok_mono:
  assumes "thief_ok q pc" and "top q \<le> top q'"
    and "top q' = top q \<Longrightarrow> top q < limit q \<Longrightarrow> top q < limit q' \<and> slot q' (top q) = slot q (top q)"
  shows "thief_ok q' pc"
  using assms by (auto simp: thief_ok_def split: thief_pc.splits)

lemma inv_push_begin:
  assumes "deque_inv q" and "owner q = OIdle"
  shows "deque_inv (push_begin v q)"
  using assms by (auto simp: deque_inv_def push_begin_def limit_def elems_def owner_ok_def
      intro: thief_ok_mono)

lemma inv_push_store:
  assumes inv: "deque_inv q" and o: "owner q = OPush v (bottom q) t"
  shows "deque_inv (push_store v (bottom q) t q)"
proof (cases "bottom q - t \<ge> CHASELEV_CAP")
  case True
  with assms show ?thesis
    by (auto simp: deque_inv_def push_store_def limit_def elems_def owner_ok_def intro: thief_ok_mono)
next
  case False
  let ?q = "(set_slot (bottom q) v q)\<lparr>owner := OPublish v (bottom q)\<rparr>"
  have lim: "limit q = bottom q" "limit ?q = bottom q" and t: "t \<le> top q"
    and fld: "top ?q = top q" "bottom ?q = bottom q" "thief ?q = thief q" "owner ?q = OPublish v (bottom q)"
      "pushed ?q = pushed q" "popped ?q = popped q" "stolen ?q = stolen q"
    using assms by (simp_all add: limit_def deque_inv_def owner_ok_def set_slot_def)
  have keep: "slot ?q i = slot q i" if "top q \<le> i" "i < bottom q" for i
    using that t False by (simp add: slot_other)
  have "elems ?q = elems q"
    unfolding elems_def lim fld by (rule map_cong) (simp_all add: keep del: slot_frame)
  moreover have "thief_ok ?q (thief q i)" for i
    by (rule thief_ok_mono [of q]) (use inv keep in \<open>simp_all add: lim fld deque_inv_def del: slot_frame\<close>)
  ultimately have "deque_inv ?q"
    using inv False t by (simp add: deque_inv_def fld lim owner_ok_def)
  with False show ?thesis
    by (simp add: push_store_def)
qed

lemma inv_push_publish:
  assumes "deque_inv q" and "owner q = OPublish v (bottom q)"
  shows "deque_inv (push_publish v (bottom q) q)"
proof -
  let ?q = "push_publish v (bottom q) q"
  have lim: "limit q = bottom q" "limit ?q = bottom q + 1"
    and fld: "top ?q = top q" "thief ?q = thief q" "slot ?q = slot q" "owner ?q = OIdle"
      "pushed ?q = pushed q @ [v]" "popped ?q = popped q" "stolen ?q = stolen q"
    using assms by (simp_all add: limit_def push_publish_def)
  have facts: "top q \<le> bottom q" "bottom q - top q < CHASELEV_CAP" "slot q (bottom q) = v"
    using assms lim by (simp_all add: deque_inv_def owner_ok_def)
  have "mset (elems ?q) = add_mset v (mset (elems q))"
    using facts upto_snoc [of "top q" "bottom q" "slot q"] by (simp add: elems_def lim fld)
  moreover have "thief_ok ?q (thief q i)" for i
    by (rule thief_ok_mono [of q]) (use assms in \<open>simp_all add: lim fld deque_inv_def\<close>)
  ultimately show ?thesis
    using assms facts by (simp add: deque_inv_def fld lim owner_ok_def)
qed

lemma inv_pop_begin:
  assumes "deque_inv q" and "owner q = OIdle"
  shows "deque_inv (pop_begin q)"
  using assms by (auto simp: deque_inv_def pop_begin_def limit_def elems_def owner_ok_def
      intro: thief_ok_mono)

text \<open>The owner takes its last element without a compare-and-swap only when \<open>top\<close> is below it; no thief can
  then hold that element, since it would have read \<open>top\<close> at or above it.\<close>

lemma inv_pop_read:
  assumes inv: "deque_inv q" and o: "owner q = OPop"
  shows "deque_inv (pop_read q)"
proof -
  have lim: "limit q = bottom q + 1" and le: "top q \<le> bottom q + 1"
    using assms by (simp_all add: deque_inv_def limit_def)
  consider "top q < bottom q" | "top q = bottom q" | "top q = bottom q + 1"
    using le by linarith
  then show ?thesis
  proof cases
    case 1
    let ?q = "pop_read q"
    have fld: "top ?q = top q" "limit ?q = bottom q" "thief ?q = thief q" "slot ?q = slot q"
      "owner ?q = OIdle" "pushed ?q = pushed q" "popped ?q = popped q @ [slot q (bottom q)]"
      "stolen ?q = stolen q"
      using 1 by (simp_all add: pop_read_def limit_def Let_def)
    have "mset (elems q) = add_mset (slot q (bottom q)) (mset (elems ?q))"
      using 1 upto_snoc [of "top q" "bottom q" "slot q"] by (simp add: elems_def lim fld)
    moreover have "thief_ok ?q (thief q i)" for i
      by (rule thief_ok_mono [of q]) (use inv 1 in \<open>simp_all add: lim fld deque_inv_def\<close>)
    ultimately show ?thesis
      using inv 1 lim by (simp add: deque_inv_def fld owner_ok_def)
  next
    case 2
    with inv o show ?thesis
      by (auto simp: deque_inv_def pop_read_def limit_def elems_def owner_ok_def Let_def
          intro: thief_ok_mono)
  next
    case 3
    with inv o show ?thesis
      by (auto simp: deque_inv_def pop_read_def limit_def elems_def owner_ok_def Let_def
          intro: thief_ok_mono)
  qed
qed

lemma inv_pop_cas:
  assumes inv: "deque_inv q" and o: "owner q = OCas v t"
  shows "deque_inv (pop_cas v t q)"
proof -
  have facts: "limit q = t + 1" "bottom q = t" "slot q t = v" "t \<le> top q" "top q \<le> t + 1"
    using assms by (auto simp: deque_inv_def limit_def owner_ok_def)
  show ?thesis
  proof (cases "top q = t")
    case True
    let ?q = "pop_cas v t q"
    have fld: "top ?q = t + 1" "limit ?q = t + 1" "thief ?q = thief q" "slot ?q = slot q"
      "owner ?q = ORestore" "bottom ?q = t" "pushed ?q = pushed q" "popped ?q = popped q @ [v]"
      "stolen ?q = stolen q"
      using True facts by (simp_all add: pop_cas_def limit_def)
    have "elems q = [v]" "elems ?q = []"
      using True facts by (simp_all add: elems_def fld)
    moreover have "thief_ok ?q (thief q i)" for i
      by (rule thief_ok_mono [of q]) (use inv True in \<open>simp_all add: fld deque_inv_def\<close>)
    ultimately show ?thesis
      using inv True by (simp add: deque_inv_def fld owner_ok_def)
  next
    case False
    with inv o facts show ?thesis
      by (auto simp: deque_inv_def pop_cas_def limit_def elems_def owner_ok_def intro: thief_ok_mono)
  qed
qed

lemma inv_pop_restore:
  assumes "deque_inv q" and "owner q = ORestore"
  shows "deque_inv (pop_restore q)"
  using assms by (auto simp: deque_inv_def pop_restore_def limit_def elems_def owner_ok_def
      intro: thief_ok_mono)

lemma inv_set_thief:
  assumes "deque_inv q" and "thief_ok q pc"
  shows "deque_inv (set_thief i pc q)"
proof -
  have "thief_ok (set_thief i pc q) = thief_ok q"
    by (intro ext) (simp add: thief_ok_def set_thief_def split: thief_pc.split)
  with assms show ?thesis
    by (simp add: deque_inv_def set_thief_def elems_def owner_ok_def split: owner_pc.splits)
qed

lemma thief_inv: "deque_inv q \<Longrightarrow> thief q i = pc \<Longrightarrow> thief_ok q pc"
  by (auto simp: deque_inv_def)

lemma bottom_le_limit: "bottom q \<le> limit q"
  by (simp add: limit_def split: owner_pc.split)

lemma inv_steal_cas:
  assumes inv: "deque_inv q" and th: "thief q i = TCas t v"
  shows "deque_inv (steal_cas i t v q)"
proof (cases "top q = t")
  case False
  with inv show ?thesis
    by (simp add: steal_cas_def inv_set_thief thief_ok_def)
next
  case True
  let ?q = "steal_cas i t v q"
  have facts: "t < limit q" "slot q t = v"
    using thief_inv [OF inv th] True by (simp_all add: thief_ok_def)
  have fld: "top ?q = t + 1" "limit ?q = limit q" "thief ?q = (thief q)(i := TIdle)"
    "slot ?q = slot q" "owner ?q = owner q" "bottom ?q = bottom q" "pushed ?q = pushed q"
    "popped ?q = popped q" "stolen ?q = stolen q @ [v]"
    using True by (simp_all add: steal_cas_def set_thief_def limit_def split: owner_pc.split)
  have "mset (elems q) = add_mset v (mset (elems ?q))"
    using True facts upto_head [of t "limit q - 1" "slot q"] by (simp add: elems_def fld)
  moreover have "thief_ok ?q (thief ?q j)" for j
    by (rule thief_ok_mono [of q]) (use inv True in \<open>simp_all add: fld deque_inv_def thief_ok_def\<close>)
  moreover have "owner_ok ?q"
    using inv True facts by (auto simp: deque_inv_def owner_ok_def fld limit_def split: owner_pc.splits)
  ultimately show ?thesis
    using inv True facts by (simp add: deque_inv_def fld)
qed

lemma inv_step: "deque_step q q' \<Longrightarrow> deque_inv q \<Longrightarrow> deque_inv q'"
proof (induction rule: deque_step.induct)
  case (2 q v b t)
  then have "b = bottom q"
    by (simp add: deque_inv_def owner_ok_def)
  with 2 show ?case
    by (simp add: inv_push_store)
next
  case (3 q v b)
  then have "b = bottom q"
    by (simp add: deque_inv_def owner_ok_def)
  with 3 show ?case
    by (simp add: inv_push_publish)
next
  case (9 q i t)
  then show ?case
    using thief_inv [of q i] bottom_le_limit [of q]
    by (simp add: steal_check_def inv_set_thief thief_ok_def)
next
  case (10 q i t)
  then show ?case
    using thief_inv [of q i] by (simp add: steal_load_def inv_set_thief thief_ok_def)
qed (simp_all add: inv_push_begin inv_pop_begin inv_pop_read
    inv_pop_cas inv_pop_restore inv_steal_cas steal_top_def inv_set_thief thief_ok_def)

lemma inv_reachable: "deque_reachable q \<Longrightarrow> deque_inv q"
proof (induction rule: deque_reachable.induct)
  case deque_start
  then show ?case
    by (simp add: deque_inv_def deque_init_def limit_def elems_def owner_ok_def thief_ok_def)
qed (rule inv_step)

lemma reachable_run: "deque_step\<^sup>*\<^sup>* q q' \<Longrightarrow> deque_reachable q \<Longrightarrow> deque_reachable q'"
  by (induction rule: rtranclp_induct) (auto intro: deque_next)

section \<open>Properties\<close>

text \<open>C1: In every interleaving of one owner with any number of thieves, every pushed task is at any moment in
  exactly one place: handed out by a pop, handed out by a steal, or still in the deque. In
  particular, no task is handed out twice when no task is pushed twice, the deque never holds
  more than its capacity, and when the owner is between operations the tasks still there are those
  between \<open>top\<close> and \<open>bottom\<close>.\<close>

theorem chaselev_exactly_once:
  assumes "deque_reachable q"
  shows "mset (popped q) + mset (stolen q) + mset (elems q) = mset (pushed q) \<and>
    (distinct (pushed q) \<longrightarrow> distinct (popped q @ stolen q @ elems q)) \<and>
    length (elems q) \<le> 512 \<and>
    (owner q = OIdle \<longrightarrow> elems q = map (slot q) [top q..bottom q - 1])"
proof -
  note inv = inv_reachable [OF assms]
  then have eq: "mset (popped q) + mset (stolen q) + mset (elems q) = mset (pushed q)"
    by (simp add: deque_inv_def)
  then have "mset (pushed q) = mset (popped q @ stolen q @ elems q)"
    by (simp add: ac_simps)
  then have "distinct (pushed q) \<Longrightarrow> distinct (popped q @ stolen q @ elems q)"
    using mset_eq_imp_distinct_iff by blast
  moreover have "length (elems q) \<le> 512"
    using inv by (auto simp: deque_inv_def elems_def nat_le_iff)
  ultimately show ?thesis
    using eq by (simp add: elems_def limit_def)
qed

text \<open>The owner pushes 7, a thief reads \<open>top\<close>, \<open>bottom\<close> and the slot, and wins the race against the
  owner's pop of the same task.\<close>

definition race_state :: deque where
  "race_state = pop_cas 7 0 (steal_cas 0 0 7 (pop_read (pop_begin (steal_load 0 0 (steal_check 0 0
     (steal_top 0 (push_publish 7 0 (push_store 7 0 0 (push_begin 7 deque_init)))))))))"

lemmas race_eval = race_state_def deque_ops deque_init_def slot_def set_slot_def set_thief_def Let_def

lemma race_reachable: "deque_reachable race_state"
  unfolding race_state_def
  by (intro deque_next [OF _ deque_step.intros(6)] deque_next [OF _ deque_step.intros(11)]
      deque_next [OF _ deque_step.intros(5)] deque_next [OF _ deque_step.intros(4)]
      deque_next [OF _ deque_step.intros(10)] deque_next [OF _ deque_step.intros(9)]
      deque_next [OF _ deque_step.intros(8)] deque_next [OF _ deque_step.intros(3)]
      deque_next [OF _ deque_step.intros(2)] deque_next [OF _ deque_step.intros(1)] deque_start)
    (simp_all add: race_eval)

theorem chaselev_exactly_once_witness:
  "popped race_state = [] \<and> stolen race_state = [7] \<and>
   mset (popped race_state) + mset (stolen race_state) + mset (elems race_state) = {#7#} \<and>
   distinct (popped race_state @ stolen race_state @ elems race_state) \<and>
   length (elems race_state) \<le> 512"
  using chaselev_exactly_once [OF race_reachable] by (simp add: race_eval)

lemma steal_head:
  assumes "deque_inv q" and "thief q i = TCas t v" and "top q = t"
  shows "elems q = v # elems (steal_cas i t v q)"
  using thief_inv [OF assms(1,2)] assms(3) upto_rec1 [of t "limit q - 1"]
  by (auto simp: thief_ok_def elems_def steal_cas_def set_thief_def limit_def slot_def
      split: owner_pc.splits)

lemma pop_last:
  assumes "owner q = OPop" and "top q < bottom q"
  shows "elems q = elems (pop_read q) @ [slot q (bottom q)] \<and>
    popped (pop_read q) = popped q @ [slot q (bottom q)]"
  using assms upto_rec2 [of "top q" "bottom q"] by (simp add: elems_def pop_read_def limit_def Let_def)

lemma pop_only:
  assumes "deque_inv q" and "owner q = OCas v t" and "top q = t"
  shows "elems q = [v] \<and> elems (pop_cas v t q) = [] \<and> popped (pop_cas v t q) = popped q @ [v]"
  using assms by (auto simp: elems_def pop_cas_def limit_def deque_inv_def owner_ok_def)

lemma push_last:
  assumes "deque_inv q" and "owner q = OPublish v b"
  shows "elems (push_publish v b q) = elems q @ [v]"
  using assms upto_rec2 [of "top q" "bottom q"]
  by (auto simp: elems_def push_publish_def limit_def deque_inv_def owner_ok_def)

text \<open>The owner works at one end and the thieves at the other: a successful steal removes the first
  element, a pop removes the last one, with or without the compare-and-swap, and a push appends.\<close>

theorem chaselev_ends:
  assumes "deque_reachable q"
  shows "(thief q i = TCas t v \<and> top q = t \<longrightarrow> elems q = v # elems (steal_cas i t v q)) \<and>
    (owner q = OPop \<and> top q < bottom q \<longrightarrow>
       elems q = elems (pop_read q) @ [slot q (bottom q)] \<and>
       popped (pop_read q) = popped q @ [slot q (bottom q)]) \<and>
    (owner q = OCas v t \<and> top q = t \<longrightarrow>
       elems q = [v] \<and> elems (pop_cas v t q) = [] \<and> popped (pop_cas v t q) = popped q @ [v]) \<and>
    (owner q = OPublish v b \<longrightarrow> elems (push_publish v b q) = elems q @ [v])"
  using inv_reachable [OF assms] steal_head [of q i t v] pop_last [of q] pop_only [of q v t]
    push_last [of q v b] by blast

theorem chaselev_ends_witness:
  "let q = push_store 7 0 0 (push_begin 7 deque_init) in
   deque_reachable q \<and> owner q = OPublish 7 0 \<and> elems (push_publish 7 0 q) = [7]"
proof -
  have r: "deque_reachable (push_store 7 0 0 (push_begin 7 deque_init))"
    by (intro deque_next [OF _ deque_step.intros(2)] deque_next [OF _ deque_step.intros(1)] deque_start)
      (simp_all add: race_eval)
  show ?thesis
    using chaselev_ends [OF r, of 0 0 7 0] r by (simp add: race_eval elems_def limit_def)
qed

text \<open>C33: The deque has one owner. \<^verbatim>\<open>sched_try_steal\<close> pushes on its own run queue without the run-queue lock,
  while \<^verbatim>\<open>sched_wake\<close> and \<^verbatim>\<open>sched_add\<close> on another CPU push on the same deque under it: when both read
  the same \<open>bottom\<close>, both pushes report success and the first task is lost.\<close>

theorem push_race_loses:
  assumes "owner q = OIdle" and "0 \<le> bottom q - top q" and "bottom q - top q < CHASELEV_CAP"
  shows "let b = bottom q; t = top q;
      q' = push_publish w b (push_publish v b (push_store w b t (push_store v b t q)))
    in pushed q' = pushed q @ [v, w] \<and> elems q' = elems q @ [w] \<and> popped q' = popped q \<and> stolen q' = stolen q"
proof -
  let ?b = "bottom q" and ?t = "top q"
  let ?q = "push_publish w ?b (push_publish v ?b (push_store w ?b ?t (push_store v ?b ?t q)))"
  have "slot ?q i = (if i = ?b then w else slot q i)" if "?t \<le> i" "i \<le> ?b" for i
    using that assms slot_other [of i ?b v q] slot_other [of i ?b w "set_slot ?b v q"]
    by (auto simp: push_publish_def push_store_def slot_def set_slot_def)
  then have "map (slot ?q) [?t..?b - 1] = map (slot q) [?t..?b - 1]" "slot ?q ?b = w"
    using assms(2) by auto
  then have "elems ?q = elems q @ [w]"
    using assms upto_rec2 [of ?t ?b] by (simp add: elems_def limit_def push_publish_def push_store_def set_slot_def)
  then show ?thesis
    using assms by (simp add: Let_def push_publish_def push_store_def set_slot_def)
qed

theorem push_race_loses_witness:
  "elems (push_publish 9 0 (push_publish 8 0 (push_store 9 0 0 (push_store 8 0 0 deque_init)))) = [9]"
  using push_race_loses [of deque_init 9 8] by (simp add: deque_init_def elems_def limit_def Let_def)

end
