(* ===== verification/Sched.thy ===== *)
theory Sched
  imports MakaOS_Prelude
begin

text \<open>
  The scheduler, \<^verbatim>\<open>kernel/proc/sched.c\<close>: per-CPU multi-level feedback queues, sleep lists, zombie
  lists, the timer tick, the context switch decision, sleep, wake with load balancing, and work
  stealing. An operation done under a run-queue lock is one step. A level is the list of the
  tasks in its deque from \<open>top\<close> to \<open>bottom\<close>, which theory Chaselev shows the deque to implement: a
  push appends, the owner pops the last task and a thief takes the first. \<open>None\<close> is the panic loop of a
  full level, of a yield or a sleep with preemption disabled.
\<close>

section \<open>Data\<close>

type_synonym tid = nat

datatype task_state = TASK_READY | TASK_RUNNING | TASK_DEAD | TASK_SLEEPING | TASK_ZOMBIE

record task =
  state :: task_state
  mlfq_level :: nat
  mlfq_ticks_left :: nat
  sleep_until_ns :: nat
  wake_pending :: bool
  home_cpu :: nat
  last_ran_cpu :: nat
  kthread :: bool

record cpu =
  levels :: "nat \<Rightarrow> tid list"
  sleep_head :: "tid list"
  zombie_head :: "tid list"
  nr_running :: u32
  current :: tid
  idle :: tid
  preempt_depth :: nat
  reschedule_pending :: bool
  steal_rng :: u64
  context_switches :: u64

record sched =
  task_of :: "tid \<Rightarrow> task"
  cpu_of :: "nat \<Rightarrow> cpu"
  num_cpus :: nat
  placement_cursor :: u32
  tick_count :: u32
  init_task :: "tid option"
  registered :: "tid set"
  ipis :: "nat list"

abbreviation (input) MLFQ_LEVELS :: nat where "MLFQ_LEVELS \<equiv> 4"
abbreviation (input) BOOST_INTERVAL :: nat where "BOOST_INTERVAL \<equiv> 1000"
abbreviation (input) RQ_CAP :: nat where "RQ_CAP \<equiv> 512"
abbreviation (input) MAX_CPUS :: nat where "MAX_CPUS \<equiv> 64"
abbreviation (input) STEAL_ATTEMPTS :: nat where "STEAL_ATTEMPTS \<equiv> 4"
abbreviation (input) STEAL_BATCH :: nat where "STEAL_BATCH \<equiv> 16"
abbreviation (input) STEAL_MIN_TASKS :: nat where "STEAL_MIN_TASKS \<equiv> 2"

definition s_quanta :: "nat \<Rightarrow> nat" where
  "s_quanta l = (if l = 0 then 8 else if l = 1 then 16 else if l = 2 then 32 else 64)"

definition upd_task :: "tid \<Rightarrow> (task \<Rightarrow> task) \<Rightarrow> sched \<Rightarrow> sched" where
  "upd_task t f s = s\<lparr>task_of := (task_of s)(t := f (task_of s t))\<rparr>"

definition upd_cpu :: "nat \<Rightarrow> (cpu \<Rightarrow> cpu) \<Rightarrow> sched \<Rightarrow> sched" where
  "upd_cpu c f s = s\<lparr>cpu_of := (cpu_of s)(c := f (cpu_of s c))\<rparr>"

abbreviation rq_level :: "sched \<Rightarrow> nat \<Rightarrow> nat \<Rightarrow> tid list" where
  "rq_level s c l \<equiv> levels (cpu_of s c) l"

abbreviation cur :: "sched \<Rightarrow> nat \<Rightarrow> tid" where
  "cur s c \<equiv> current (cpu_of s c)"

abbreviation st :: "sched \<Rightarrow> tid \<Rightarrow> task_state" where
  "st s t \<equiv> state (task_of s t)"

section \<open>Run queue\<close>

definition rq_push :: "nat \<Rightarrow> nat \<Rightarrow> tid \<Rightarrow> sched \<Rightarrow> sched option" where
  "rq_push c l p s =
     (if length (rq_level s c l) \<ge> RQ_CAP then None
      else Some (upd_cpu c (\<lambda>q. q\<lparr>levels := (levels q)(l := levels q l @ [p])\<rparr>) s))"

definition rq_pop :: "nat \<Rightarrow> nat \<Rightarrow> sched \<Rightarrow> tid option \<times> sched" where
  "rq_pop c l s =
     (if rq_level s c l = [] then (None, s)
      else (Some (last (rq_level s c l)),
            upd_cpu c (\<lambda>q. q\<lparr>levels := (levels q)(l := butlast (levels q l))\<rparr>) s))"

definition add_running :: "nat \<Rightarrow> u32 \<Rightarrow> sched \<Rightarrow> sched" where
  "add_running c d s = upd_cpu c (\<lambda>q. q\<lparr>nr_running := nr_running q + d\<rparr>) s"

definition enqueue_on :: "nat \<Rightarrow> tid \<Rightarrow> sched \<Rightarrow> sched option" where
  "enqueue_on c p s =
     (let lvl = mlfq_level (task_of s p);
          s1 = upd_task p (\<lambda>t. t\<lparr>state := TASK_READY,
                 mlfq_ticks_left := if mlfq_ticks_left t = 0 then s_quanta lvl else mlfq_ticks_left t\<rparr>) s
      in map_option (add_running c 1) (rq_push c lvl p s1))"

fun dequeue_scan :: "nat \<Rightarrow> nat list \<Rightarrow> sched \<Rightarrow> tid option \<times> sched" where
  "dequeue_scan c [] s = (None, s)"
| "dequeue_scan c (l # ls) s =
     (case rq_pop c l s of
        (Some p, s1) \<Rightarrow> (Some p, add_running c (-1) s1)
      | (None, s1) \<Rightarrow> dequeue_scan c ls s1)"

definition dequeue_local :: "nat \<Rightarrow> sched \<Rightarrow> tid option \<times> sched" where
  "dequeue_local c s = dequeue_scan c [0, 1, 2, 3] s"

definition pick_home_cpu :: "sched \<Rightarrow> nat \<times> sched" where
  "pick_home_cpu s =
     (unat (placement_cursor s) mod (if num_cpus s = 0 then 1 else num_cpus s),
      s\<lparr>placement_cursor := placement_cursor s + 1\<rparr>)"

definition cpu_of_task :: "sched \<Rightarrow> tid \<Rightarrow> nat" where
  "cpu_of_task s t =
     (if last_ran_cpu (task_of s t) < MAX_CPUS then last_ran_cpu (task_of s t)
      else home_cpu (task_of s t))"

definition kick_remote_cpu :: "nat \<Rightarrow> sched \<Rightarrow> sched" where
  "kick_remote_cpu c s = (upd_cpu c (\<lambda>q. q\<lparr>reschedule_pending := True\<rparr>) s)\<lparr>ipis := ipis s @ [c]\<rparr>"

definition sched_add :: "nat \<Rightarrow> tid \<Rightarrow> sched \<Rightarrow> sched option" where
  "sched_add self p s =
     (let s1 = (if init_task s = None \<and> \<not> kthread (task_of s p) then s\<lparr>init_task := Some p\<rparr> else s);
          (home, s2) = pick_home_cpu s1;
          s3 = (upd_task p (\<lambda>t. t\<lparr>home_cpu := home, last_ran_cpu := home\<rparr>) s2)
                 \<lparr>registered := insert p (registered s2)\<rparr>
      in map_option (\<lambda>s4. if home \<noteq> self then kick_remote_cpu home s4 else s4)
           (enqueue_on home p s3))"

section \<open>The timer tick\<close>

definition tick_quantum :: "nat \<Rightarrow> sched \<Rightarrow> sched" where
  "tick_quantum c s =
     (if cur s c \<noteq> idle (cpu_of s c) then
        (let s1 = upd_task (cur s c) (\<lambda>t. t\<lparr>mlfq_ticks_left := mlfq_ticks_left t - 1\<rparr>) s
         in if mlfq_ticks_left (task_of s1 (cur s c)) = 0
            then upd_cpu c (\<lambda>q. q\<lparr>reschedule_pending := True\<rparr>) s1 else s1)
      else upd_cpu c (\<lambda>q. q\<lparr>reschedule_pending := True\<rparr>) s)"

definition unlink_sleeper :: "nat \<Rightarrow> tid \<Rightarrow> sched \<Rightarrow> sched" where
  "unlink_sleeper c t s = upd_cpu c (\<lambda>q. q\<lparr>sleep_head := remove1 t (sleep_head q)\<rparr>) s"

fun wake_expired :: "nat \<Rightarrow> nat \<Rightarrow> tid list \<Rightarrow> sched \<Rightarrow> sched option" where
  "wake_expired c now [] s = Some s"
| "wake_expired c now (t # ts) s =
     (if sleep_until_ns (task_of s t) \<noteq> 0 \<and> now \<ge> sleep_until_ns (task_of s t) then
        Option.bind
          (enqueue_on c t (upd_task t (\<lambda>k. k\<lparr>sleep_until_ns := 0\<rparr>) (unlink_sleeper c t s)))
          (wake_expired c now ts)
      else wake_expired c now ts s)"

definition boost_task :: "task \<Rightarrow> task" where
  "boost_task t = t\<lparr>mlfq_level := 0, mlfq_ticks_left := s_quanta 0\<rparr>"

fun boost_level :: "nat \<Rightarrow> nat \<Rightarrow> nat \<Rightarrow> sched \<Rightarrow> sched option" where
  "boost_level c l 0 s = Some s"
| "boost_level c l (Suc k) s =
     (case rq_pop c l s of
        (None, s1) \<Rightarrow> Some s1
      | (Some t, s1) \<Rightarrow> Option.bind (rq_push c 0 t (upd_task t boost_task s1)) (boost_level c l k))"

definition boost_lower :: "nat \<Rightarrow> nat \<Rightarrow> sched \<Rightarrow> sched option" where
  "boost_lower c l s = boost_level c l (length (rq_level s c l)) s"

definition boost_all :: "nat \<Rightarrow> sched \<Rightarrow> sched option" where
  "boost_all c s =
     Option.bind (boost_lower c 1 s) (\<lambda>s1.
     Option.bind (boost_lower c 2 s1) (\<lambda>s2.
     Option.bind (boost_lower c 3 s2) (\<lambda>s3.
     Some (if cur s3 c \<noteq> idle (cpu_of s3 c) then upd_task (cur s3 c) boost_task s3 else s3))))"

definition tick_shared :: "nat \<Rightarrow> nat \<Rightarrow> bool \<Rightarrow> sched \<Rightarrow> sched option" where
  "tick_shared c now boost s =
     Option.bind (wake_expired c now (sleep_head (cpu_of s c)) s)
       (\<lambda>s1. if boost then boost_all c s1 else Some s1)"

definition sched_tick :: "nat \<Rightarrow> nat \<Rightarrow> sched \<Rightarrow> sched option" where
  "sched_tick c now s =
     (let tick = tick_count s + 1;
          s1 = tick_quantum c (s\<lparr>tick_count := tick\<rparr>);
          boost = (unat tick mod BOOST_INTERVAL = 0)
      in if sleep_head (cpu_of s1 c) = [] \<and> \<not> boost then Some s1 else tick_shared c now boost s1)"

section \<open>Switching\<close>

definition demote :: "task \<Rightarrow> task" where
  "demote t =
     (let l = (if mlfq_level t < MLFQ_LEVELS - 1 then mlfq_level t + 1 else mlfq_level t)
      in t\<lparr>mlfq_level := l, mlfq_ticks_left := s_quanta l\<rparr>)"

definition charge :: "bool \<Rightarrow> task \<Rightarrow> task" where
  "charge preempted t =
     (if preempted then demote t
      else let t1 = t\<lparr>mlfq_ticks_left := mlfq_ticks_left t - 1\<rparr>
           in if mlfq_ticks_left t1 = 0 then demote t1 else t1)"

definition requeue_prev :: "bool \<Rightarrow> nat \<Rightarrow> sched \<Rightarrow> sched option" where
  "requeue_prev preempted c s =
     (let prev = cur s c
      in if prev \<noteq> idle (cpu_of s c) \<and> st s prev = TASK_RUNNING
         then enqueue_on c prev (upd_task prev (charge preempted) s) else Some s)"

definition run_next :: "nat \<Rightarrow> tid \<Rightarrow> sched \<Rightarrow> sched" where
  "run_next c n s =
     upd_cpu c (\<lambda>q. q\<lparr>current := n, context_switches := context_switches q + 1\<rparr>)
       (upd_task n (\<lambda>t. t\<lparr>state := TASK_RUNNING, last_ran_cpu := c\<rparr>) s)"

definition do_switch :: "bool \<Rightarrow> nat \<Rightarrow> sched \<Rightarrow> sched option" where
  "do_switch preempted c s =
     (let prev = cur s c; idl = idle (cpu_of s c)
      in if preempted \<and> prev \<noteq> idl \<and> st s prev \<in> {TASK_ZOMBIE, TASK_DEAD} then Some s
         else case dequeue_local c s of
             (None, s1) \<Rightarrow>
               if preempted \<and> \<not> (prev \<noteq> idl \<and> st s1 prev \<noteq> TASK_RUNNING) then Some s1
               else map_option (run_next c idl) (requeue_prev preempted c s1)
           | (Some n, s1) \<Rightarrow> map_option (run_next c n) (requeue_prev preempted c s1))"

definition clear_resched :: "nat \<Rightarrow> sched \<Rightarrow> sched" where
  "clear_resched c s = upd_cpu c (\<lambda>q. q\<lparr>reschedule_pending := False\<rparr>) s"

definition sched_yield :: "nat \<Rightarrow> sched \<Rightarrow> sched option" where
  "sched_yield c s =
     (if preempt_depth (cpu_of s c) > 0 then None else do_switch False c (clear_resched c s))"

definition sched_preempt :: "nat \<Rightarrow> sched \<Rightarrow> sched option" where
  "sched_preempt c s =
     (if \<not> reschedule_pending (cpu_of s c) then Some s
      else if preempt_depth (cpu_of s c) > 0 then Some s
      else do_switch True c (clear_resched c s))"

section \<open>Sleep and wake\<close>

text \<open>\<^verbatim>\<open>sched_sleep\<close> up to the release of the run-queue lock, with whether it goes on to switch, and the
  switch; other CPUs and interrupts run in between.\<close>

definition mark_sleeping :: "nat \<Rightarrow> tid \<Rightarrow> sched \<Rightarrow> sched" where
  "mark_sleeping home t s =
     upd_cpu home (\<lambda>q. q\<lparr>sleep_head := t # sleep_head q\<rparr>)
       (upd_task t (\<lambda>k. k\<lparr>state := TASK_SLEEPING, mlfq_ticks_left := s_quanta (mlfq_level k)\<rparr>) s)"

definition sched_sleep_lock :: "nat \<Rightarrow> sched \<Rightarrow> (bool \<times> sched) option" where
  "sched_sleep_lock c s =
     (let self = cur s c
      in if preempt_depth (cpu_of s c) > 0 then None
         else if self = idle (cpu_of s c) then Some (True, s)
         else if wake_pending (task_of s self)
              then Some (False, clear_resched c (upd_task self (\<lambda>t. t\<lparr>wake_pending := False\<rparr>) s))
         else Some (True, mark_sleeping (cpu_of_task s self) self s))"

definition sched_sleep_switch :: "nat \<Rightarrow> sched \<Rightarrow> sched option" where
  "sched_sleep_switch c s = do_switch False c (clear_resched c s)"

definition sched_sleep :: "nat \<Rightarrow> sched \<Rightarrow> sched option" where
  "sched_sleep c s =
     Option.bind (sched_sleep_lock c s) (\<lambda>(go, s1). if go then sched_sleep_switch c s1 else Some s1)"

definition xorshift64 :: "u64 \<Rightarrow> u64" where
  "xorshift64 x0 =
     (let x1 = xor x0 (push_bit 13 x0); x2 = xor x1 (drop_bit 7 x1) in xor x2 (push_bit 17 x2))"

definition steal_rng_next :: "nat \<Rightarrow> u64 \<Rightarrow> sched \<Rightarrow> u32 \<times> sched" where
  "steal_rng_next c tsc s =
     (let r = steal_rng (cpu_of s c);
          seed = xor tsc (of_nat c * 0x9E3779B97F4A7C15);
          x = xorshift64 (if r = 0 then (if seed = 0 then 1 else seed) else r)
      in (ucast x, upd_cpu c (\<lambda>q. q\<lparr>steal_rng := x\<rparr>) s))"

definition wake_target :: "nat \<Rightarrow> u64 \<Rightarrow> nat \<Rightarrow> sched \<Rightarrow> nat \<times> sched" where
  "wake_target self tsc home s =
     (if num_cpus s \<ge> 2 then
        (let home_load = nr_running (cpu_of s home);
             (r, s1) = steal_rng_next self tsc s;
             alt = unat r mod num_cpus s;
             alt_load = nr_running (cpu_of s alt)
         in if alt \<noteq> home \<and> (alt_load = 0 \<or> home_load \<ge> 2 \<and> alt_load + 1 < home_load)
            then (alt, s1) else (home, s1))
      else (home, s))"

definition sched_wake :: "nat \<Rightarrow> u64 \<Rightarrow> tid \<Rightarrow> sched \<Rightarrow> sched option" where
  "sched_wake self tsc p s =
     (let home = cpu_of_task s p
      in if st s p \<noteq> TASK_SLEEPING then Some (upd_task p (\<lambda>t. t\<lparr>wake_pending := True\<rparr>) s)
         else
           (let (target, s2) = wake_target self tsc home (unlink_sleeper home p s);
                s3 = (if target \<noteq> home
                      then upd_task p (\<lambda>t. t\<lparr>state := TASK_READY, last_ran_cpu := target\<rparr>) s2 else s2)
            in map_option (\<lambda>s4.
                   let s5 = upd_cpu target (\<lambda>q. q\<lparr>reschedule_pending := True\<rparr>) s4
                   in if target \<noteq> self then s5\<lparr>ipis := ipis s5 @ [target]\<rparr> else s5)
                 (enqueue_on target p s3)))"

section \<open>Zombies\<close>

definition sched_add_zombie :: "tid \<Rightarrow> sched \<Rightarrow> sched" where
  "sched_add_zombie t s =
     upd_cpu (cpu_of_task s t) (\<lambda>q. q\<lparr>zombie_head := t # zombie_head q\<rparr>) s"

definition zombie_unlink :: "tid \<Rightarrow> sched \<Rightarrow> bool \<times> sched" where
  "zombie_unlink z s =
     (let home = cpu_of_task s z
      in if z \<in> set (zombie_head (cpu_of s home))
         then (True, upd_cpu home (\<lambda>q. q\<lparr>zombie_head := remove1 z (zombie_head q)\<rparr>) s)
         else (False, s))"

section \<open>Work stealing\<close>

fun steal_batch :: "nat \<Rightarrow> nat \<Rightarrow> nat \<Rightarrow> nat \<Rightarrow> sched \<Rightarrow> sched option" where
  "steal_batch self victim l 0 s = Some s"
| "steal_batch self victim l (Suc k) s =
     (case rq_level s victim l of
        [] \<Rightarrow> Some s
      | t # ts \<Rightarrow>
          let s1 = add_running victim (-1) (upd_cpu victim (\<lambda>q. q\<lparr>levels := (levels q)(l := ts)\<rparr>) s)
          in Option.bind (rq_push self l t s1) (\<lambda>s2. steal_batch self victim l k (add_running self 1 s2)))"

definition batch_size :: "nat \<Rightarrow> nat" where
  "batch_size n = min STEAL_BATCH (max 1 (n div 2))"

fun steal_levels :: "nat \<Rightarrow> nat \<Rightarrow> nat list \<Rightarrow> sched \<Rightarrow> (bool \<times> sched) option" where
  "steal_levels self victim [] s = Some (False, s)"
| "steal_levels self victim (l # ls) s =
     (if rq_level s victim l = [] then steal_levels self victim ls s
      else map_option (Pair True)
             (steal_batch self victim l (batch_size (length (rq_level s victim l))) s))"

fun steal_attempts :: "nat \<Rightarrow> nat \<Rightarrow> u64 \<Rightarrow> sched \<Rightarrow> (bool \<times> sched) option" where
  "steal_attempts 0 self tsc s = Some (False, s)"
| "steal_attempts (Suc k) self tsc s =
     (let (r, s1) = steal_rng_next self tsc s; victim = unat r mod num_cpus s1
      in if victim = self \<or> unat (nr_running (cpu_of s1 victim)) < STEAL_MIN_TASKS
         then steal_attempts k self tsc s1
         else Option.bind (steal_levels self victim [0, 1, 2, 3] s1) (\<lambda>(took, s2).
                if took then Some (True, s2) else steal_attempts k self tsc s2))"

definition sched_try_steal :: "nat \<Rightarrow> u64 \<Rightarrow> sched \<Rightarrow> (bool \<times> sched) option" where
  "sched_try_steal self tsc s =
     (if num_cpus s < 2 then Some (False, s) else steal_attempts STEAL_ATTEMPTS self tsc s)"

end
