(* ===== verification/Sched_Inv.thy ===== *)
theory Sched_Inv
  imports Sched
begin

text \<open>
  What the scheduler of theory Sched keeps. With one CPU every interleaving of scheduler calls and interrupts
  keeps each task in exactly one place, the one its state names; with several, the window between the two halves of
  \<^verbatim>\<open>sched_sleep\<close> puts one task on two CPUs. Then the order in which queued tasks run, the priority boost
  and work stealing.
\<close>

section \<open>One CPU\<close>

text \<open>The calls and interrupts of a uniprocessor. A task created by fork or exec has level 0 and no ticks.
  The code that calls \<^verbatim>\<open>sched_sleep\<close>, exits or sets its deadline is the running task.\<close>

definition fresh_task :: task where
  "fresh_task = \<lparr>state = TASK_READY, mlfq_level = 0, mlfq_ticks_left = 0, sleep_until_ns = 0,
     wake_pending = False, home_cpu = 0, last_ran_cpu = 0, kthread = False\<rparr>"

definition exit_current :: "sched \<Rightarrow> sched" where
  "exit_current s = sched_add_zombie (cur s 0) (upd_task (cur s 0) (\<lambda>t. t\<lparr>state := TASK_ZOMBIE\<rparr>) s)"

inductive up_step :: "sched \<Rightarrow> sched \<Rightarrow> bool" where
  up_add: "p \<notin> registered s \<Longrightarrow> p \<noteq> idle (cpu_of s 0) \<Longrightarrow>
    sched_add 0 p (upd_task p (\<lambda>_. fresh_task\<lparr>kthread := k\<rparr>) s) = Some s' \<Longrightarrow> up_step s s'"
| up_tick: "sched_tick 0 now s = Some s' \<Longrightarrow> up_step s s'"
| up_yield: "sched_yield 0 s = Some s' \<Longrightarrow> up_step s s'"
| up_preempt: "sched_preempt 0 s = Some s' \<Longrightarrow> up_step s s'"
| up_sleep: "st s (cur s 0) = TASK_RUNNING \<Longrightarrow> sched_sleep_lock 0 s = Some (go, s') \<Longrightarrow> up_step s s'"
| up_switch: "sched_sleep_switch 0 s = Some s' \<Longrightarrow> up_step s s'"
| up_wake: "p \<in> registered s \<Longrightarrow> sched_wake 0 tsc p s = Some s' \<Longrightarrow> up_step s s'"
| up_deadline: "up_step s (upd_task (cur s 0) (\<lambda>t. t\<lparr>sleep_until_ns := d\<rparr>) s)"
| up_depth: "up_step s (upd_cpu 0 (\<lambda>q. q\<lparr>preempt_depth := d\<rparr>) s)"
| up_exit: "cur s 0 \<in> registered s \<Longrightarrow> st s (cur s 0) = TASK_RUNNING \<Longrightarrow> up_step s (exit_current s)"
| up_reap: "z \<in> registered s \<Longrightarrow> cur s 0 \<noteq> z \<Longrightarrow> zombie_unlink z s = (True, s') \<Longrightarrow>
    up_step s (s'\<lparr>registered := registered s' - {z}\<rparr>)"

definition boot_cpu :: cpu where
  "boot_cpu = \<lparr>levels = (\<lambda>_. []), sleep_head = [], zombie_head = [], nr_running = 0, current = 0,
     idle = 0, preempt_depth = 0, reschedule_pending = False, steal_rng = 0, context_switches = 0\<rparr>"

definition boot_sched :: sched where
  "boot_sched = \<lparr>task_of = (\<lambda>_. fresh_task\<lparr>state := TASK_RUNNING\<rparr>), cpu_of = (\<lambda>_. boot_cpu), num_cpus = 1,
     placement_cursor = 0, tick_count = 0, init_task = None, registered = {}, ipis = []\<rparr>"

inductive up_reachable :: "sched \<Rightarrow> bool" where
  up_boot: "up_reachable boot_sched"
| up_next: "up_reachable s \<Longrightarrow> up_step s s' \<Longrightarrow> up_reachable s'"

section \<open>Invariant\<close>

text \<open>The places of a task, with the tasks \<open>X\<close> in transit held by the code and in no place. \<open>here\<close> says that
  a registered task outside \<open>X\<close> has a state.\<close>

definition here :: "tid set \<Rightarrow> sched \<Rightarrow> tid \<Rightarrow> task_state \<Rightarrow> bool" where
  "here X s t k \<longleftrightarrow> t \<in> registered s \<and> t \<notin> X \<and> st s t = k"

definition queues_ok :: "tid set \<Rightarrow> sched \<Rightarrow> bool" where
  "queues_ok X s \<longleftrightarrow> (\<forall>l t. l < MLFQ_LEVELS \<longrightarrow>
     count_list (rq_level s 0 l) t = of_bool (here X s t TASK_READY \<and> mlfq_level (task_of s t) = l))"

definition lists_ok :: "tid set \<Rightarrow> sched \<Rightarrow> bool" where
  "lists_ok X s \<longleftrightarrow> (\<forall>t.
     count_list (sleep_head (cpu_of s 0)) t = of_bool (here X s t TASK_SLEEPING) \<and>
     count_list (zombie_head (cpu_of s 0)) t = of_bool (here X s t TASK_ZOMBIE))"

definition tasks_ok :: "sched \<Rightarrow> bool" where
  "tasks_ok s \<longleftrightarrow> (\<forall>t \<in> registered s. last_ran_cpu (task_of s t) = 0 \<and> mlfq_level (task_of s t) < MLFQ_LEVELS)"

definition load_ok :: "sched \<Rightarrow> bool" where
  "load_ok s \<longleftrightarrow> nr_running (cpu_of s 0) =
     of_nat (length (rq_level s 0 0) + length (rq_level s 0 1) + length (rq_level s 0 2) +
       length (rq_level s 0 3))"

definition places :: "tid set \<Rightarrow> sched \<Rightarrow> bool" where
  "places X s \<longleftrightarrow> queues_ok X s \<and> lists_ok X s \<and> tasks_ok s \<and> load_ok s \<and> num_cpus s = 1 \<and>
     idle (cpu_of s 0) \<notin> registered s \<and> X \<subseteq> registered s"

definition sched_inv :: "sched \<Rightarrow> bool" where
  "sched_inv s \<longleftrightarrow> places {} s \<and> (cur s 0 = idle (cpu_of s 0) \<or> cur s 0 \<in> registered s) \<and>
     (\<forall>t. t \<noteq> cur s 0 \<longrightarrow> \<not> here {} s t TASK_RUNNING)"

section \<open>Lemmas\<close>

lemmas places_defs = places_def queues_ok_def lists_ok_def tasks_ok_def load_ok_def here_def
lemmas upd_defs = upd_task_def upd_cpu_def

lemma count_list_butlast:
  "xs \<noteq> [] \<Longrightarrow> count_list (butlast xs) t = count_list xs t - of_bool (last xs = t)"
  by (cases xs rule: rev_cases) auto

lemma count_list_remove1: "count_list (remove1 x xs) t = count_list xs t - of_bool (x = t)"
  by (induction xs) (auto simp: count_list_0_iff)

lemma distinct_if_count_le_1: "(\<And>x. count_list xs x \<le> 1) \<Longrightarrow> distinct xs"
proof (induction xs)
  case (Cons a xs)
  have "count_list xs x \<le> 1" for x
    using Cons.prems [of x] by (simp split: if_splits)
  moreover have "a \<notin> set xs"
    using Cons.prems [of a] by (simp add: count_list_0_iff)
  ultimately show ?case
    using Cons.IH by simp
qed simp

lemma level_cases [case_names l0 l1 l2 l3 more]:
  "(n = 0 \<Longrightarrow> P) \<Longrightarrow> (n = 1 \<Longrightarrow> P) \<Longrightarrow> (n = 2 \<Longrightarrow> P) \<Longrightarrow> (n = 3 \<Longrightarrow> P) \<Longrightarrow> (n \<ge> 4 \<Longrightarrow> P) \<Longrightarrow> P"
  for n :: nat
  by linarith

lemma places_cong:
  assumes "places X s" and "task_of s' = task_of s" and "registered s' = registered s"
    and "levels (cpu_of s' 0) = levels (cpu_of s 0)" and "sleep_head (cpu_of s' 0) = sleep_head (cpu_of s 0)"
    and "zombie_head (cpu_of s' 0) = zombie_head (cpu_of s 0)"
    and "nr_running (cpu_of s' 0) = nr_running (cpu_of s 0)" and "idle (cpu_of s' 0) = idle (cpu_of s 0)"
    and "num_cpus s' = num_cpus s"
  shows "places X s'"
  using assms by (simp add: places_defs)

text \<open>Changing only fields of a task that no place depends on, or a task in transit.\<close>

lemma places_upd_task:
  assumes "places X s" and "p \<in> registered s \<Longrightarrow> last_ran_cpu (f (task_of s p)) = 0 \<and> mlfq_level (f (task_of s p)) < MLFQ_LEVELS"
    and "p \<in> registered s \<Longrightarrow> p \<notin> X \<Longrightarrow> state (f (task_of s p)) = st s p \<and>
      (st s p = TASK_READY \<longrightarrow> mlfq_level (f (task_of s p)) = mlfq_level (task_of s p))"
  shows "places X (upd_task p f s)"
proof -
  have h: "here X (upd_task p f s) t k = here X s t k" for t k
    using assms(3) by (cases "p \<in> X") (auto simp: here_def upd_task_def)
  have l: "(here X s t TASK_READY \<and> mlfq_level (task_of (upd_task p f s) t) = l) =
      (here X s t TASK_READY \<and> mlfq_level (task_of s t) = l)" for t l
    using assms(3) by (cases "p \<in> X") (auto simp: here_def upd_task_def)
  have c: "cpu_of (upd_task p f s) = cpu_of s" "num_cpus (upd_task p f s) = num_cpus s"
    "registered (upd_task p f s) = registered s"
    by (simp_all add: upd_task_def)
  have "tasks_ok (upd_task p f s)"
    using assms(1,2) by (simp add: places_def tasks_ok_def upd_task_def)
  with assms(1) show ?thesis
    by (simp add: places_def queues_ok_def lists_ok_def load_ok_def h l c)
qed

lemma places_enqueue:
  assumes "places X s" and "p \<in> X" and "enqueue_on 0 p s = Some s'"
  shows "places (X - {p}) s'"
proof -
  have p: "p \<in> registered s" "mlfq_level (task_of s p) < MLFQ_LEVELS"
    using assms by (auto simp: places_defs)
  then have "queues_ok (X - {p}) s'" "lists_ok (X - {p}) s'" "tasks_ok s'"
    using assms by (auto simp: places_defs enqueue_on_def Let_def rq_push_def add_running_def upd_defs
        split: if_splits)
  moreover have "mlfq_level (task_of s p) \<in> {0, 1, 2, 3}"
    using p by auto
  then have "load_ok s'"
    using assms by (auto simp: places_defs enqueue_on_def Let_def rq_push_def add_running_def upd_defs
        split: if_splits)
  ultimately show ?thesis
    using assms by (auto simp: places_def enqueue_on_def Let_def rq_push_def add_running_def upd_defs
        split: if_splits)
qed

lemma enqueue_frame:
  assumes "enqueue_on c p s = Some s'"
  shows "registered s' = registered s" "current (cpu_of s' d) = current (cpu_of s d)"
    "idle (cpu_of s' d) = idle (cpu_of s d)" "st s' t = (if t = p then TASK_READY else st s t)"
    "num_cpus s' = num_cpus s" "sleep_head (cpu_of s' d) = sleep_head (cpu_of s d)"
  using assms by (auto simp: enqueue_on_def Let_def rq_push_def add_running_def upd_defs split: if_splits)

lemma places_running_out:
  assumes "places X s" and "p \<in> registered s" and "st s p = TASK_RUNNING"
  shows "places (insert p X) s"
proof -
  have "here (insert p X) s t k = here X s t k" if "k \<noteq> TASK_RUNNING" for t k
    using assms(3) that by (auto simp: here_def)
  with assms show ?thesis
    by (simp add: places_def queues_ok_def lists_ok_def)
qed

lemma places_run:
  assumes "places (insert p X) s" and "p \<notin> X"
    and "state (f (task_of s p)) = TASK_RUNNING" and "last_ran_cpu (f (task_of s p)) = 0"
    and "mlfq_level (f (task_of s p)) = mlfq_level (task_of s p)"
  shows "places X (upd_task p f s)"
proof -
  have h: "here X (upd_task p f s) t k = here (insert p X) s t k" if "k \<noteq> TASK_RUNNING" for t k
    using assms(3) that by (auto simp: here_def upd_task_def)
  have l: "mlfq_level (task_of (upd_task p f s) t) = mlfq_level (task_of s t)" for t
    using assms(5) by (simp add: upd_task_def)
  have c: "cpu_of (upd_task p f s) = cpu_of s" "num_cpus (upd_task p f s) = num_cpus s"
    "registered (upd_task p f s) = registered s"
    by (simp_all add: upd_task_def)
  have "tasks_ok (upd_task p f s)"
    using assms by (simp add: places_def tasks_ok_def upd_task_def)
  with assms(1) show ?thesis
    by (simp add: places_def queues_ok_def lists_ok_def load_ok_def h l c)
qed

lemma pop_head:
  assumes "places X s" and "l < MLFQ_LEVELS" and "rq_pop 0 l s = (Some n, s')"
  shows "here X s n TASK_READY" "mlfq_level (task_of s n) = l"
proof -
  have "count_list (rq_level s 0 l) n \<noteq> 0"
    using assms(3) by (auto simp: rq_pop_def count_list_0_iff split: if_splits)
  then show "here X s n TASK_READY" "mlfq_level (task_of s n) = l"
    using assms(1,2) by (auto simp: places_def queues_ok_def)
qed

lemma pop_counts:
  assumes "rq_pop 0 l s = (Some n, s')"
  shows "count_list (rq_level s' 0 m) t = count_list (rq_level s 0 m) t - of_bool (m = l \<and> t = n)"
    and "length (rq_level s 0 m) = length (rq_level s' 0 m) + of_bool (m = l)"
  using assms by (auto simp: rq_pop_def upd_defs count_list_butlast split: if_splits)

lemma pop_frame:
  assumes "rq_pop c l s = (r, s')"
  shows "task_of s' = task_of s" "registered s' = registered s" "num_cpus s' = num_cpus s"
    "current (cpu_of s' d) = current (cpu_of s d)" "idle (cpu_of s' d) = idle (cpu_of s d)"
    "sleep_head (cpu_of s' d) = sleep_head (cpu_of s d)"
    "zombie_head (cpu_of s' d) = zombie_head (cpu_of s d)"
    "nr_running (cpu_of s' d) = nr_running (cpu_of s d)"
  using assms by (auto simp: rq_pop_def upd_defs split: if_splits)

lemma places_pop:
  assumes "places X s" and "l < MLFQ_LEVELS" and "rq_pop 0 l s = (Some n, s')"
  shows "places (insert n X) (add_running 0 (-1) s')"
proof -
  let ?s = "add_running 0 (-1) s'"
  note n = pop_head [OF assms] and fr = pop_frame [OF assms(3)]
  have lv: "rq_level ?s 0 = rq_level s' 0"
    and eq: "task_of ?s = task_of s" "registered ?s = registered s" "num_cpus ?s = num_cpus s"
      "idle (cpu_of ?s 0) = idle (cpu_of s 0)" "sleep_head (cpu_of ?s 0) = sleep_head (cpu_of s 0)"
      "zombie_head (cpu_of ?s 0) = zombie_head (cpu_of s 0)"
      "nr_running (cpu_of ?s 0) = nr_running (cpu_of s 0) - 1"
    by (simp_all add: add_running_def upd_defs fr)
  have h: "here (insert n X) ?s t k = (here X s t k \<and> t \<noteq> n)" for t k
    by (auto simp: here_def eq)
  have "queues_ok (insert n X) ?s"
    using assms(1) n by (auto simp: places_def queues_ok_def h eq lv pop_counts(1) [OF assms(3)])
  moreover have "lists_ok (insert n X) ?s"
    using assms(1) n by (auto simp: places_def lists_ok_def h eq here_def)
  moreover have "l \<in> {0, 1, 2, 3}"
    using assms(2) by auto
  then have "load_ok ?s"
    using assms(1) by (auto simp: places_def load_ok_def eq lv pop_counts(2) [OF assms(3)])
  ultimately show ?thesis
    using assms(1) n by (simp add: places_def tasks_ok_def eq here_def)
qed

lemma dequeue_ready:
  assumes "places X s" and "set ls \<subseteq> {..<MLFQ_LEVELS}" and "dequeue_scan 0 ls s = (Some n, s')"
  shows "st s n = TASK_READY"
  using assms
proof (induction ls)
  case (Cons l ls)
  then show ?case
    using pop_head(1) [of X s l] by (auto simp: here_def rq_pop_def split: prod.splits option.splits if_splits)
qed simp

lemma dequeue_places:
  assumes "places X s" and "set ls \<subseteq> {..<MLFQ_LEVELS}" and "dequeue_scan 0 ls s = (r, s')"
  shows "(case r of None \<Rightarrow> s' = s
    | Some n \<Rightarrow> places (insert n X) s' \<and> n \<notin> X \<and> n \<in> registered s \<and> task_of s' = task_of s) \<and>
    registered s' = registered s \<and> cur s' 0 = cur s 0 \<and> idle (cpu_of s' 0) = idle (cpu_of s 0)"
  using assms
proof (induction ls)
  case (Cons l ls)
  show ?case
  proof (cases "rq_pop 0 l s")
    case (Pair q s1)
    show ?thesis
    proof (cases q)
      case None
      with Pair have "s1 = s"
        by (simp add: rq_pop_def split: if_splits)
      with Cons Pair None show ?thesis
        by simp
    next
      case (Some n)
      with Pair Cons have "places (insert n X) s'" "here X s n TASK_READY" "r = Some n"
        "s' = add_running 0 (-1) s1"
        using places_pop [of X s l n s1] pop_head [of X s l n s1] by auto
      with pop_frame [OF Pair] show ?thesis
        by (simp add: here_def add_running_def upd_defs)
    qed
  qed
qed simp

section \<open>Every operation keeps the invariant\<close>

definition no_running :: "tid set \<Rightarrow> sched \<Rightarrow> bool" where
  "no_running X s \<longleftrightarrow> (\<forall>t. \<not> here X s t TASK_RUNNING)"

lemma charge_level: "mlfq_level t < MLFQ_LEVELS \<Longrightarrow> mlfq_level (charge b t) < MLFQ_LEVELS"
  and charge_last_ran: "last_ran_cpu (charge b t) = last_ran_cpu t"
  by (auto simp: charge_def demote_def Let_def)

lemma requeue_places:
  assumes "places X s" and "\<forall>t. t \<noteq> cur s 0 \<longrightarrow> \<not> here X s t TASK_RUNNING"
    and "requeue_prev b 0 s = Some s'" and "cur s 0 = idle (cpu_of s 0) \<or> cur s 0 \<in> registered s"
    and "cur s 0 \<in> X \<Longrightarrow> st s (cur s 0) \<noteq> TASK_RUNNING"
  shows "places X s' \<and> no_running X s' \<and> registered s' = registered s \<and>
    idle (cpu_of s' 0) = idle (cpu_of s 0)"
proof (cases "cur s 0 \<noteq> idle (cpu_of s 0) \<and> st s (cur s 0) = TASK_RUNNING")
  case False
  then have "s' = s"
    using assms(3) by (auto simp: requeue_prev_def Let_def)
  moreover have "\<not> here X s (cur s 0) TASK_RUNNING"
    using False assms(1,4) by (auto simp: here_def places_def)
  with assms(2) have "no_running X s"
    unfolding no_running_def by metis
  ultimately show ?thesis
    using assms(1) by simp
next
  case True
  let ?p = "cur s 0" and ?s = "upd_task (cur s 0) (charge b) s"
  have p: "?p \<in> registered s" "?p \<notin> X"
    using True assms(4,5) by auto
  have enq: "enqueue_on 0 ?p ?s = Some s'"
    using True assms(3) by (simp add: requeue_prev_def Let_def)
  have out: "places (insert ?p X) s"
    using places_running_out [OF assms(1) p(1)] True by simp
  then have "places (insert ?p X) ?s"
    by (rule places_upd_task) (use out p in \<open>auto simp: places_defs charge_level charge_last_ran\<close>)
  then have "places (insert ?p X - {?p}) s'"
    by (rule places_enqueue [OF _ _ enq]) simp
  moreover have "no_running X s'"
    using assms(2) by (auto simp: no_running_def here_def enqueue_frame [OF enq] upd_task_def)
  ultimately show ?thesis
    using p(2) enqueue_frame [OF enq] by (simp add: upd_task_def)
qed

lemma run_next_inv:
  assumes "places X s" and "no_running X s" and "n = idle (cpu_of s 0) \<and> X = {} \<or> X = {n}"
  shows "sched_inv (run_next 0 n s)"
proof -
  let ?f = "\<lambda>t. t\<lparr>state := TASK_RUNNING, last_ran_cpu := 0\<rparr>"
  have "places {} (upd_task n ?f s)"
    using assms(3)
  proof
    assume n: "n = idle (cpu_of s 0) \<and> X = {}"
    with assms(1) have "n \<notin> registered s" "places {} s"
      by (auto simp: places_def)
    then show ?thesis
      by (intro places_upd_task) auto
  next
    assume "X = {n}"
    with assms(1) show ?thesis
      by (intro places_run) simp_all
  qed
  then have "places {} (run_next 0 n s)"
    by (rule places_cong) (simp_all add: run_next_def upd_defs)
  moreover have "n = idle (cpu_of s 0) \<or> n \<in> registered s"
    using assms(1,3) by (auto simp: places_def)
  ultimately show ?thesis
    using assms(2,3) by (auto simp: sched_inv_def no_running_def here_def run_next_def upd_defs)
qed

lemma do_switch_cases:
  assumes "do_switch b c s = Some s'" and "dequeue_local c s = (r, s1)"
  obtains "s' = s" | "r = None" "s' = s1"
  | s2 where "requeue_prev b c s1 = Some s2"
      "s' = run_next c (case r of None \<Rightarrow> idle (cpu_of s c) | Some n \<Rightarrow> n) s2"
  using assms by (cases r) (auto simp: do_switch_def Let_def split: if_splits)

lemma inv_do_switch:
  assumes inv: "sched_inv s" and sw: "do_switch b 0 s = Some s'"
  shows "sched_inv s'"
proof -
  let ?idl = "idle (cpu_of s 0)"
  have pl: "places {} s" and run: "\<And>t. t \<noteq> cur s 0 \<Longrightarrow> \<not> here {} s t TASK_RUNNING"
    and cu: "cur s 0 = ?idl \<or> cur s 0 \<in> registered s"
    using inv by (auto simp: sched_inv_def)
  obtain r s1 where d: "dequeue_local 0 s = (r, s1)"
    by (cases "dequeue_local 0 s")
  note dq = dequeue_places [OF pl _ d [unfolded dequeue_local_def], simplified]
  let ?X = "case r of None \<Rightarrow> {} | Some n \<Rightarrow> {n}"
  have eq: "task_of s1 = task_of s" "registered s1 = registered s" "cur s1 0 = cur s 0"
    "idle (cpu_of s1 0) = ?idl" and pl1: "places ?X s1"
    using dq pl by (auto split: option.splits)
  have run1: "\<forall>t. t \<noteq> cur s1 0 \<longrightarrow> \<not> here ?X s1 t TASK_RUNNING"
    using run eq by (auto simp: here_def split: option.splits)
  have rd: "cur s1 0 \<in> ?X \<Longrightarrow> st s1 (cur s1 0) \<noteq> TASK_RUNNING"
    using dequeue_ready [OF pl, of "[0, 1, 2, 3]"] d eq by (auto simp: dequeue_local_def split: option.splits)
  from sw d show ?thesis
  proof (cases rule: do_switch_cases)
    case 1
    then show ?thesis
      using inv by simp
  next
    case 2
    then show ?thesis
      using inv dq by simp
  next
    case (3 s2)
    have "places ?X s2 \<and> no_running ?X s2 \<and> registered s2 = registered s1 \<and>
        idle (cpu_of s2 0) = idle (cpu_of s1 0)"
      by (rule requeue_places [OF pl1 run1 3(1) _ rd]) (use cu eq in auto)
    then show ?thesis
      unfolding 3(2) by (intro run_next_inv [where X = ?X]) (auto simp: eq split: option.splits)
  qed
qed

text \<open>Steps that change only fields of no importance for the places.\<close>

lemma inv_upd_cpu:
  assumes "sched_inv s" and "\<And>q. levels (f q) = levels q" and "\<And>q. sleep_head (f q) = sleep_head q"
    and "\<And>q. zombie_head (f q) = zombie_head q" and "\<And>q. nr_running (f q) = nr_running q"
    and "\<And>q. current (f q) = current q" and "\<And>q. idle (f q) = idle q"
  shows "sched_inv (upd_cpu c f s)"
  using assms by (auto simp: sched_inv_def places_defs upd_cpu_def)

lemma inv_upd_taskI:
  assumes "sched_inv s" and "places {} (upd_task p f s)" and "\<And>t. state (f t) = state t"
  shows "sched_inv (upd_task p f s)"
proof -
  have "here {} (upd_task p f s) t k = here {} s t k" for t k
    using assms(3) by (simp add: here_def upd_task_def)
  moreover have "cpu_of (upd_task p f s) = cpu_of s" "registered (upd_task p f s) = registered s"
    by (simp_all add: upd_task_def)
  ultimately show ?thesis
    using assms(1,2) by (simp add: sched_inv_def)
qed

lemma inv_upd_task:
  assumes "sched_inv s" and "\<And>t. state (f t) = state t" and "\<And>t. mlfq_level (f t) = mlfq_level t"
    and "\<And>t. last_ran_cpu (f t) = last_ran_cpu t"
  shows "sched_inv (upd_task p f s)"
proof (rule inv_upd_taskI [OF assms(1) _ assms(2)])
  show "places {} (upd_task p f s)"
    by (rule places_upd_task) (use assms in \<open>simp_all add: sched_inv_def places_def tasks_ok_def\<close>)
qed

lemma inv_clear_resched: "sched_inv s \<Longrightarrow> sched_inv (clear_resched c s)"
  unfolding clear_resched_def by (rule inv_upd_cpu) simp_all

text \<open>A task taken off the sleep list and put on the run queue.\<close>

lemma places_unlink:
  assumes "places X s" and "here X s p TASK_SLEEPING"
  shows "places (insert p X) (unlink_sleeper 0 p s)"
proof -
  let ?s = "unlink_sleeper 0 p s"
  have eq: "task_of ?s = task_of s" "registered ?s = registered s" "num_cpus ?s = num_cpus s"
    "idle (cpu_of ?s 0) = idle (cpu_of s 0)" "levels (cpu_of ?s 0) = levels (cpu_of s 0)"
    "sleep_head (cpu_of ?s 0) = remove1 p (sleep_head (cpu_of s 0))"
    "zombie_head (cpu_of ?s 0) = zombie_head (cpu_of s 0)"
    "nr_running (cpu_of ?s 0) = nr_running (cpu_of s 0)"
    by (simp_all add: unlink_sleeper_def upd_defs)
  have h: "here (insert p X) ?s t k = (here X s t k \<and> t \<noteq> p)" for t k
    by (auto simp: here_def eq)
  have "lists_ok (insert p X) ?s"
    using assms by (auto simp: places_def lists_ok_def h eq count_list_remove1 here_def)
  moreover have "queues_ok (insert p X) ?s"
    using assms by (auto simp: places_def queues_ok_def h eq here_def)
  ultimately show ?thesis
    using assms by (simp add: places_def tasks_ok_def load_ok_def eq here_def)
qed

lemma inv_enqueue_sleeper:
  assumes "sched_inv s" and "here {} s p TASK_SLEEPING"
    and "enqueue_on 0 p (upd_task p f (unlink_sleeper 0 p s)) = Some s'"
    and "\<And>t. mlfq_level (f t) = mlfq_level t" and "\<And>t. last_ran_cpu (f t) = last_ran_cpu t"
  shows "sched_inv s'"
proof -
  let ?u = "unlink_sleeper 0 p s"
  have p: "p \<in> registered s" "last_ran_cpu (task_of s p) = 0" "mlfq_level (task_of s p) < MLFQ_LEVELS"
    using assms(1,2) by (auto simp: here_def sched_inv_def places_defs)
  have "places {p} ?u"
    using places_unlink [of "{}" s p] assms(1,2) by (simp add: sched_inv_def)
  then have "places {p} (upd_task p f ?u)"
    by (rule places_upd_task) (use p assms(4,5) in \<open>simp_all add: unlink_sleeper_def upd_defs\<close>)
  from places_enqueue [OF this _ assms(3)] have "places {} s'"
    by simp
  with assms(1) show ?thesis
    by (auto simp: sched_inv_def here_def enqueue_frame [OF assms(3)] unlink_sleeper_def upd_defs)
qed

lemma inv_wake_expired:
  assumes "sched_inv s" and "distinct ts" and "\<forall>t \<in> set ts. here {} s t TASK_SLEEPING"
    and "wake_expired 0 now ts s = Some s'"
  shows "sched_inv s'"
  using assms
proof (induction ts arbitrary: s)
  case (Cons t ts)
  let ?u = "upd_task t (\<lambda>k. k\<lparr>sleep_until_ns := 0\<rparr>) (unlink_sleeper 0 t s)"
  show ?case
  proof (cases "sleep_until_ns (task_of s t) \<noteq> 0 \<and> now \<ge> sleep_until_ns (task_of s t)")
    case True
    with Cons.prems(4) obtain s1 where s1: "enqueue_on 0 t ?u = Some s1" "wake_expired 0 now ts s1 = Some s'"
      by (auto simp: bind_eq_Some_conv)
    have "sched_inv s1"
      by (rule inv_enqueue_sleeper [OF Cons.prems(1) _ s1(1)]) (use Cons.prems(3) in simp_all)
    moreover have "\<forall>k \<in> set ts. here {} s1 k TASK_SLEEPING"
      using Cons.prems(2,3) by (auto simp: here_def enqueue_frame [OF s1(1)] unlink_sleeper_def upd_defs)
    ultimately show ?thesis
      using Cons s1(2) by simp
  qed (use Cons in \<open>auto split: if_splits\<close>)
qed simp

lemma sleepers:
  assumes "sched_inv s"
  shows "distinct (sleep_head (cpu_of s 0))" "\<forall>t \<in> set (sleep_head (cpu_of s 0)). here {} s t TASK_SLEEPING"
proof -
  have c: "count_list (sleep_head (cpu_of s 0)) t = of_bool (here {} s t TASK_SLEEPING)" for t
    using assms by (simp add: sched_inv_def places_def lists_ok_def)
  have "t \<in> set (sleep_head (cpu_of s 0)) \<Longrightarrow> here {} s t TASK_SLEEPING" for t
    using c [of t] count_list_0_iff [of "sleep_head (cpu_of s 0)" t] by (auto split: if_splits)
  then show "\<forall>t \<in> set (sleep_head (cpu_of s 0)). here {} s t TASK_SLEEPING"
    by blast
  show "distinct (sleep_head (cpu_of s 0))"
    using c by (intro distinct_if_count_le_1) simp
qed

text \<open>One round of the boost loop moves a task from a lower level to level 0.\<close>

lemma inv_boost_step:
  assumes inv: "sched_inv s" and l: "0 < l" "l < MLFQ_LEVELS" and pop: "rq_pop 0 l s = (Some t, s1)"
    and push: "rq_push 0 0 t (upd_task t boost_task s1) = Some s2"
  shows "sched_inv s2"
proof -
  have pl: "places {} s"
    using inv by (simp add: sched_inv_def)
  note t = pop_head [OF pl l(2) pop] and fr = pop_frame [OF pop]
  have eq: "registered s2 = registered s" "num_cpus s2 = num_cpus s" "cur s2 0 = cur s 0"
    "idle (cpu_of s2 0) = idle (cpu_of s 0)" "sleep_head (cpu_of s2 0) = sleep_head (cpu_of s 0)"
    "zombie_head (cpu_of s2 0) = zombie_head (cpu_of s 0)"
    "nr_running (cpu_of s2 0) = nr_running (cpu_of s 0)"
    "task_of s2 = (task_of s)(t := boost_task (task_of s t))"
    and lv: "rq_level s2 0 = (rq_level s1 0)(0 := rq_level s1 0 0 @ [t])"
    using push fr by (auto simp: rq_push_def upd_defs split: if_splits)
  have h: "here {} s2 k st = here {} s k st" for k st
    by (simp add: here_def eq boost_task_def)
  have "queues_ok {} s2"
    using pl t l by (auto simp: places_def queues_ok_def h lv eq pop_counts(1) [OF pop] boost_task_def)
  moreover have "lists_ok {} s2" "tasks_ok s2"
    using pl by (simp_all add: places_def lists_ok_def tasks_ok_def h eq boost_task_def)
  moreover have "l \<in> {1, 2, 3}"
    using l by auto
  then have "load_ok s2"
    using pl by (auto simp: places_def load_ok_def eq lv pop_counts(2) [OF pop])
  ultimately show ?thesis
    using inv by (simp add: sched_inv_def places_def eq h)
qed

lemma inv_boost_level:
  assumes "sched_inv s" and "0 < l" and "l < MLFQ_LEVELS" and "boost_level 0 l n s = Some s'"
  shows "sched_inv s'"
  using assms
proof (induction n arbitrary: s)
  case (Suc n)
  obtain r s1 where pop: "rq_pop 0 l s = (r, s1)"
    by (cases "rq_pop 0 l s")
  show ?case
  proof (cases r)
    case None
    with Suc.prems pop show ?thesis
      by (auto simp: rq_pop_def split: if_splits)
  next
    case (Some t)
    with Suc.prems pop obtain s2 where "rq_push 0 0 t (upd_task t boost_task s1) = Some s2"
      "boost_level 0 l n s2 = Some s'"
      by (auto simp: bind_eq_Some_conv)
    with inv_boost_step [OF Suc.prems(1-3)] pop Some Suc show ?thesis
      by blast
  qed
qed simp

text \<open>After the loops a level below the first is empty, so the boost of the running task, should it be
  queued, agrees with its queue.\<close>

lemma boost_level_empties:
  assumes "boost_level c l n s = Some s'" and "l \<noteq> 0"
  shows "rq_level s' c l = take (length (rq_level s c l) - n) (rq_level s c l)"
    and "m \<noteq> 0 \<Longrightarrow> m \<noteq> l \<Longrightarrow> rq_level s' c m = rq_level s c m"
proof -
  have "rq_level s' c l = take (length (rq_level s c l) - n) (rq_level s c l) \<and>
      (m \<noteq> 0 \<longrightarrow> m \<noteq> l \<longrightarrow> rq_level s' c m = rq_level s c m)"
    using assms
  proof (induction n arbitrary: s)
    case (Suc n)
    show ?case
    proof (cases "rq_level s c l = []")
      case False
      let ?s1 = "upd_cpu c (\<lambda>q. q\<lparr>levels := (levels q)(l := butlast (levels q l))\<rparr>) s"
      obtain s2 where p: "rq_push c 0 (last (rq_level s c l)) (upd_task (last (rq_level s c l)) boost_task ?s1) = Some s2"
        and b: "boost_level c l n s2 = Some s'"
        using Suc.prems False by (auto simp: rq_pop_def bind_eq_Some_conv)
      have "rq_level s2 c l = butlast (rq_level s c l)"
        "m \<noteq> 0 \<Longrightarrow> m \<noteq> l \<Longrightarrow> rq_level s2 c m = rq_level s c m"
        using p Suc.prems(2) by (auto simp: rq_push_def upd_defs split: if_splits)
      with Suc.IH [OF b Suc.prems(2)] False show ?thesis
        by (auto simp: butlast_conv_take min_def)
    qed (use Suc.prems in \<open>simp add: rq_pop_def\<close>)
  qed simp
  then show "rq_level s' c l = take (length (rq_level s c l) - n) (rq_level s c l)"
    and "m \<noteq> 0 \<Longrightarrow> m \<noteq> l \<Longrightarrow> rq_level s' c m = rq_level s c m"
    by auto
qed

lemma boost_all_steps:
  assumes "boost_all c s = Some s'"
  obtains s1 s2 s3 where "boost_lower c 1 s = Some s1" "boost_lower c 2 s1 = Some s2"
    "boost_lower c 3 s2 = Some s3"
    "s' = (if cur s3 c \<noteq> idle (cpu_of s3 c) then upd_task (cur s3 c) boost_task s3 else s3)"
    "rq_level s3 c 1 = []" "rq_level s3 c 2 = []" "rq_level s3 c 3 = []"
proof -
  from assms obtain s1 s2 s3 where b: "boost_lower c 1 s = Some s1" "boost_lower c 2 s1 = Some s2"
    "boost_lower c 3 s2 = Some s3"
    "s' = (if cur s3 c \<noteq> idle (cpu_of s3 c) then upd_task (cur s3 c) boost_task s3 else s3)"
    by (auto simp: boost_all_def bind_eq_Some_conv)
  moreover have "rq_level s1 c 1 = []" "rq_level s2 c 2 = []" "rq_level s3 c 3 = []"
    using b(1-3) by (simp_all add: boost_lower_def boost_level_empties(1))
  moreover have "rq_level s2 c 1 = rq_level s1 c 1" "rq_level s3 c 1 = rq_level s2 c 1"
    "rq_level s3 c 2 = rq_level s2 c 2"
    using b(2,3) by (simp_all add: boost_lower_def boost_level_empties(2))
  ultimately show thesis
    using that by metis
qed

lemma inv_boost_all:
  assumes "sched_inv s" and "boost_all 0 s = Some s'"
  shows "sched_inv s'"
  using assms(2)
proof (rule boost_all_steps)
  fix s1 s2 s3
  assume b: "boost_lower 0 1 s = Some s1" "boost_lower 0 2 s1 = Some s2" "boost_lower 0 3 s2 = Some s3"
    and s': "s' = (if cur s3 0 \<noteq> idle (cpu_of s3 0) then upd_task (cur s3 0) boost_task s3 else s3)"
    and e: "rq_level s3 0 1 = []" "rq_level s3 0 2 = []" "rq_level s3 0 3 = []"
  have "sched_inv s1"
    using inv_boost_level [OF assms(1) _ _ b(1) [unfolded boost_lower_def]] by simp
  then have "sched_inv s2"
    using inv_boost_level [OF _ _ _ b(2) [unfolded boost_lower_def]] by simp
  then have inv: "sched_inv s3"
    using inv_boost_level [OF _ _ _ b(3) [unfolded boost_lower_def]] by simp
  have ready: "mlfq_level (task_of s3 t) = 0" if "here {} s3 t TASK_READY" for t
  proof -
    have l: "mlfq_level (task_of s3 t) < MLFQ_LEVELS"
      using inv that by (auto simp: sched_inv_def places_defs)
    then have "count_list (rq_level s3 0 (mlfq_level (task_of s3 t))) t = 1"
      using inv that by (simp add: sched_inv_def places_def queues_ok_def)
    with e l show ?thesis
      by (cases "mlfq_level (task_of s3 t)" rule: level_cases) simp_all
  qed
  have "places {} (upd_task (cur s3 0) boost_task s3)"
    by (rule places_upd_task)
      (use inv ready in \<open>simp_all add: sched_inv_def boost_task_def here_def places_def tasks_ok_def\<close>)
  then have "sched_inv (upd_task (cur s3 0) boost_task s3)"
    by (rule inv_upd_taskI [OF inv]) (simp add: boost_task_def)
  with inv show ?thesis
    by (simp add: s')
qed

lemma inv_tick_quantum: "sched_inv s \<Longrightarrow> sched_inv (tick_quantum c s)"
  unfolding tick_quantum_def Let_def by (auto intro!: inv_upd_cpu inv_upd_task)

lemma inv_tick_shared:
  assumes inv: "sched_inv s" and "tick_shared 0 now boost s = Some s'"
  shows "sched_inv s'"
proof -
  obtain s1 where w: "wake_expired 0 now (sleep_head (cpu_of s 0)) s = Some s1"
    and b: "(if boost then boost_all 0 s1 else Some s1) = Some s'"
    using assms(2) unfolding tick_shared_def bind_eq_Some_conv by blast
  have "sched_inv s1"
    by (rule inv_wake_expired [OF inv sleepers [OF inv] w])
  with b inv_boost_all show ?thesis
    by (cases boost) auto
qed

lemma inv_sched_tick:
  assumes "sched_inv s" and "sched_tick 0 now s = Some s'"
  shows "sched_inv s'"
proof -
  have "sched_inv (s\<lparr>tick_count := tick_count s + 1\<rparr>)"
    using assms(1) by (simp add: sched_inv_def places_defs)
  then have inv: "sched_inv (tick_quantum 0 (s\<lparr>tick_count := tick_count s + 1\<rparr>))" (is "sched_inv ?q")
    by (rule inv_tick_quantum)
  obtain quiet boost where "(if quiet then Some ?q else tick_shared 0 now boost ?q) = Some s'"
    by (rule that [OF assms(2) [unfolded sched_tick_def Let_def]])
  then show ?thesis
    using inv inv_tick_shared [OF inv] by (cases quiet) auto
qed

lemma home_zero: "sched_inv s \<Longrightarrow> t \<in> registered s \<Longrightarrow> cpu_of_task s t = 0"
  by (simp add: sched_inv_def places_def tasks_ok_def cpu_of_task_def)

lemma upd_task_id [simp]: "upd_task p (\<lambda>t. t) s = s"
  by (simp add: upd_task_def)

lemma inv_sched_wake:
  assumes inv: "sched_inv s" and p: "p \<in> registered s" and w: "sched_wake 0 tsc p s = Some s'"
  shows "sched_inv s'"
proof (cases "st s p = TASK_SLEEPING")
  case False
  with w have "s' = upd_task p (\<lambda>t. t\<lparr>wake_pending := True\<rparr>) s"
    by (simp add: sched_wake_def Let_def)
  then show ?thesis
    using inv by (auto intro: inv_upd_task)
next
  case True
  have tgt: "wake_target 0 tsc 0 (unlink_sleeper 0 p s) = (0, unlink_sleeper 0 p s)"
    using inv by (simp add: wake_target_def unlink_sleeper_def upd_defs sched_inv_def places_def)
  obtain s4 where e: "enqueue_on 0 p (unlink_sleeper 0 p s) = Some s4"
    and s': "s' = upd_cpu 0 (\<lambda>q. q\<lparr>reschedule_pending := True\<rparr>) s4"
    using w True home_zero [OF inv p] by (auto simp: sched_wake_def Let_def tgt)
  have "sched_inv s4"
    by (rule inv_enqueue_sleeper [where f = "\<lambda>t. t", OF inv]) (use p True e in \<open>simp_all add: here_def\<close>)
  then show ?thesis
    unfolding s' by (rule inv_upd_cpu) simp_all
qed

lemma places_register:
  assumes "places {} s" and "p \<notin> registered s" and "p \<noteq> idle (cpu_of s 0)"
    and "last_ran_cpu (task_of s p) = 0" and "mlfq_level (task_of s p) < MLFQ_LEVELS"
  shows "places {p} (s\<lparr>registered := insert p (registered s)\<rparr>)"
proof -
  let ?s = "s\<lparr>registered := insert p (registered s)\<rparr>"
  have h: "here {p} ?s t k = here {} s t k" for t k
    using assms(2) by (auto simp: here_def)
  show ?thesis
    using assms by (simp add: places_def queues_ok_def lists_ok_def tasks_ok_def load_ok_def h)
qed

lemma inv_sched_add:
  assumes inv: "sched_inv s" and p: "p \<notin> registered s" "p \<noteq> idle (cpu_of s 0)"
    and add: "sched_add 0 p (upd_task p (\<lambda>_. fresh_task\<lparr>kthread := k\<rparr>) s) = Some s'"
  shows "sched_inv s'"
proof -
  let ?f = "\<lambda>_. fresh_task\<lparr>kthread := k\<rparr>"
  define ini where "ini = (if init_task s = None \<and> \<not> k then Some p else init_task s)"
  define s1 where "s1 = (upd_task p ?f s)\<lparr>init_task := ini, placement_cursor := placement_cursor s + 1\<rparr>"
  let ?s3 = "(upd_task p (\<lambda>t. t\<lparr>home_cpu := 0, last_ran_cpu := 0\<rparr>) s1)\<lparr>registered := insert p (registered s1)\<rparr>"
  have n: "num_cpus s = 1" and pl: "places {} s"
    using inv by (simp_all add: sched_inv_def places_def)
  have e: "enqueue_on 0 p ?s3 = Some s'"
    using add n by (auto simp: sched_add_def pick_home_cpu_def upd_task_def s1_def ini_def fresh_task_def Let_def)
  have "places {} (upd_task p ?f s)"
    by (rule places_upd_task [OF pl]) (use p in simp_all)
  then have "places {} s1"
    by (rule places_cong) (simp_all add: s1_def)
  then have "places {} (upd_task p (\<lambda>t. t\<lparr>home_cpu := 0, last_ran_cpu := 0\<rparr>) s1)"
    by (rule places_upd_task) (use p in \<open>simp_all add: s1_def upd_task_def\<close>)
  then have "places {p} ?s3"
    using places_register [of "upd_task p (\<lambda>t. t\<lparr>home_cpu := 0, last_ran_cpu := 0\<rparr>) s1" p] p
    by (simp add: s1_def upd_task_def fresh_task_def)
  from places_enqueue [OF this _ e] have "places {} s'"
    by simp
  with inv show ?thesis
    by (auto simp: sched_inv_def here_def enqueue_frame [OF e] s1_def upd_task_def split: if_splits)
qed

lemma inv_sleep_lock:
  assumes inv: "sched_inv s" and run: "st s (cur s 0) = TASK_RUNNING"
    and sl: "sched_sleep_lock 0 s = Some (go, s')"
  shows "sched_inv s'"
proof -
  let ?p = "cur s 0"
  have cu: "?p = idle (cpu_of s 0) \<or> ?p \<in> registered s"
    using inv by (simp add: sched_inv_def)
  consider "s' = s" | "s' = clear_resched 0 (upd_task ?p (\<lambda>t. t\<lparr>wake_pending := False\<rparr>) s)"
    | "?p \<noteq> idle (cpu_of s 0)" "s' = mark_sleeping (cpu_of_task s ?p) ?p s"
    using sl by (auto simp: sched_sleep_lock_def Let_def split: if_splits)
  then show ?thesis
  proof cases
    case 2
    then show ?thesis
      using inv by (auto intro!: inv_clear_resched inv_upd_task)
  next
    case 3
    then have p: "?p \<in> registered s" and home: "cpu_of_task s ?p = 0"
      using cu home_zero [OF inv] by auto
    have h: "here {} s' t k = (if t = ?p then k = TASK_SLEEPING else here {} s t k)" for t k
      using p by (auto simp: 3 here_def mark_sleeping_def upd_defs)
    have q: "queues_ok {} s'" "lists_ok {} s'"
      using inv run unfolding sched_inv_def places_def queues_ok_def lists_ok_def h
      by (auto simp: 3 home mark_sleeping_def upd_defs here_def)
    show ?thesis
      using inv q p by (auto simp: sched_inv_def places_def tasks_ok_def load_ok_def h)
        (auto simp: 3 home mark_sleeping_def upd_defs)
  qed (use inv in simp)
qed

lemma inv_exit:
  assumes inv: "sched_inv s" and p: "cur s 0 \<in> registered s" and run: "st s (cur s 0) = TASK_RUNNING"
  shows "sched_inv (exit_current s)"
proof -
  let ?p = "cur s 0" and ?s = "exit_current s"
  have eq: "?s = upd_cpu 0 (\<lambda>q. q\<lparr>zombie_head := ?p # zombie_head q\<rparr>)
      (upd_task ?p (\<lambda>t. t\<lparr>state := TASK_ZOMBIE\<rparr>) s)"
    using inv p by (simp add: exit_current_def sched_add_zombie_def cpu_of_task_def upd_task_def
        sched_inv_def places_def tasks_ok_def)
  have fld: "registered ?s = registered s" "num_cpus ?s = num_cpus s" "levels (cpu_of ?s 0) = levels (cpu_of s 0)"
    "sleep_head (cpu_of ?s 0) = sleep_head (cpu_of s 0)" "zombie_head (cpu_of ?s 0) = ?p # zombie_head (cpu_of s 0)"
    "nr_running (cpu_of ?s 0) = nr_running (cpu_of s 0)" "cur ?s 0 = ?p" "idle (cpu_of ?s 0) = idle (cpu_of s 0)"
    "task_of ?s = (task_of s)(?p := (task_of s ?p)\<lparr>state := TASK_ZOMBIE\<rparr>)"
    unfolding eq by (simp_all add: upd_defs)
  have h: "here {} ?s t k = (if t = ?p then k = TASK_ZOMBIE else here {} s t k)" for t k
    using p by (auto simp: fld here_def)
  have np: "\<not> here {} s ?p TASK_READY" "\<not> here {} s ?p TASK_SLEEPING" "\<not> here {} s ?p TASK_ZOMBIE"
    using run by (simp_all add: here_def)
  have pl: "places {} s"
    using inv by (simp add: sched_inv_def)
  have "queues_ok {} ?s" "lists_ok {} ?s"
    using pl np by (auto simp: places_def queues_ok_def lists_ok_def h fld)
  moreover have "tasks_ok ?s" "load_ok ?s"
    using pl by (simp_all add: places_def tasks_ok_def load_ok_def fld)
  ultimately have "places {} ?s"
    using pl by (simp add: places_def fld)
  then show ?thesis
    using inv p by (simp add: sched_inv_def h fld)
qed

lemma inv_reap:
  assumes inv: "sched_inv s" and r: "z \<in> registered s" and z: "cur s 0 \<noteq> z"
    and u: "zombie_unlink z s = (True, s1)"
  shows "sched_inv (s1\<lparr>registered := registered s1 - {z}\<rparr>)"
proof -
  define s2 where "s2 = s1\<lparr>registered := registered s1 - {z}\<rparr>"
  have zh: "z \<in> set (zombie_head (cpu_of s 0))"
    and s1: "s1 = upd_cpu 0 (\<lambda>q. q\<lparr>zombie_head := remove1 z (zombie_head q)\<rparr>) s"
    using u home_zero [OF inv r] by (auto simp: zombie_unlink_def Let_def split: if_splits)
  have h: "here {} s2 t k = (here {} s t k \<and> t \<noteq> z)" for t k
    by (auto simp: s2_def s1 here_def upd_defs)
  have "count_list (zombie_head (cpu_of s 0)) z = of_bool (here {} s z TASK_ZOMBIE)"
    using inv by (simp add: sched_inv_def places_def lists_ok_def)
  with zh have zz: "here {} s z TASK_ZOMBIE"
    using count_list_0_iff [of "zombie_head (cpu_of s 0)" z] by (cases "here {} s z TASK_ZOMBIE") simp_all
  have fld: "registered s2 = registered s - {z}" "num_cpus s2 = num_cpus s"
    "levels (cpu_of s2 0) = levels (cpu_of s 0)" "sleep_head (cpu_of s2 0) = sleep_head (cpu_of s 0)"
    "zombie_head (cpu_of s2 0) = remove1 z (zombie_head (cpu_of s 0))"
    "nr_running (cpu_of s2 0) = nr_running (cpu_of s 0)" "cur s2 0 = cur s 0"
    "idle (cpu_of s2 0) = idle (cpu_of s 0)" "task_of s2 = task_of s"
    unfolding s2_def s1 by (simp_all add: upd_defs)
  have nz: "\<not> here {} s z TASK_READY" "\<not> here {} s z TASK_SLEEPING"
    using zz by (simp_all add: here_def)
  have pl: "places {} s"
    using inv by (simp add: sched_inv_def)
  have "queues_ok {} s2" "lists_ok {} s2"
    using pl zz nz by (auto simp: places_def queues_ok_def lists_ok_def h fld count_list_remove1)
  moreover have "tasks_ok s2" "load_ok s2"
    using pl by (simp_all add: places_def tasks_ok_def load_ok_def fld)
  ultimately have "places {} s2"
    using pl by (simp add: places_def fld)
  then have "sched_inv s2"
    using inv z by (simp add: sched_inv_def h fld)
  then show ?thesis
    by (simp add: s2_def)
qed

lemma inv_up_step: "up_step s s' \<Longrightarrow> sched_inv s \<Longrightarrow> sched_inv s'"
proof (induction rule: up_step.induct)
  case (up_preempt s s')
  then show ?case
    using inv_do_switch [OF inv_clear_resched] by (auto simp: sched_preempt_def split: if_splits)
next
  case (up_yield s s')
  then show ?case
    using inv_do_switch [OF inv_clear_resched] by (auto simp: sched_yield_def split: if_splits)
next
  case (up_switch s s')
  then show ?case
    using inv_do_switch [OF inv_clear_resched] by (simp add: sched_sleep_switch_def)
next
  case (up_deadline s d)
  then show ?case
    by (auto intro: inv_upd_task)
next
  case (up_depth s d)
  then show ?case
    by (auto intro: inv_upd_cpu)
qed (blast intro: inv_sched_add inv_sched_tick inv_sleep_lock inv_sched_wake inv_exit inv_reap)+

lemma inv_boot: "sched_inv boot_sched"
  by (simp add: sched_inv_def places_defs boot_sched_def boot_cpu_def)

lemma inv_up_reachable: "up_reachable s \<Longrightarrow> sched_inv s"
  by (induction rule: up_reachable.induct) (auto intro: inv_boot inv_up_step)

section \<open>Properties\<close>

text \<open>C6: On one CPU, whatever calls and interrupts come in whatever order, every task is in exactly the place its
  state names: a ready task is queued once, at its own level and no other; a sleeping task is once
  on the sleep list; a zombie once on the zombie list; a running task is the current one, and in
  no list; and the load counter is the number of queued tasks.\<close>

theorem sched_one_place:
  assumes "up_reachable s" and "t \<in> registered s"
  shows "(\<forall>l < MLFQ_LEVELS. count_list (rq_level s 0 l) t =
            of_bool (st s t = TASK_READY \<and> mlfq_level (task_of s t) = l)) \<and>
    mlfq_level (task_of s t) < MLFQ_LEVELS \<and>
    count_list (sleep_head (cpu_of s 0)) t = of_bool (st s t = TASK_SLEEPING) \<and>
    count_list (zombie_head (cpu_of s 0)) t = of_bool (st s t = TASK_ZOMBIE) \<and>
    (st s t = TASK_RUNNING \<longrightarrow> t = cur s 0) \<and>
    nr_running (cpu_of s 0) = of_nat (\<Sum>l < MLFQ_LEVELS. length (rq_level s 0 l))"
proof -
  note inv = inv_up_reachable [OF assms(1)]
  then have "places {} s"
    by (simp add: sched_inv_def)
  with assms(2) have "\<forall>l < MLFQ_LEVELS. count_list (rq_level s 0 l) t =
      of_bool (st s t = TASK_READY \<and> mlfq_level (task_of s t) = l)"
    "mlfq_level (task_of s t) < MLFQ_LEVELS"
    "count_list (sleep_head (cpu_of s 0)) t = of_bool (st s t = TASK_SLEEPING)"
    "count_list (zombie_head (cpu_of s 0)) t = of_bool (st s t = TASK_ZOMBIE)"
    "nr_running (cpu_of s 0) = of_nat (\<Sum>l < MLFQ_LEVELS. length (rq_level s 0 l))"
    by (simp_all add: places_defs lessThan_nat_numeral add.assoc)
  moreover have "st s t = TASK_RUNNING \<longrightarrow> t = cur s 0"
    using inv assms(2) by (auto simp: sched_inv_def here_def)
  ultimately show ?thesis
    by blast
qed

theorem sched_one_place_witness:
  "\<exists>s. up_reachable s \<and> 5 \<in> registered s \<and> count_list (rq_level s 0 0) 5 = 1 \<and> nr_running (cpu_of s 0) = 1"
proof -
  obtain s where add: "sched_add 0 5 (upd_task 5 (\<lambda>_. fresh_task\<lparr>kthread := False\<rparr>) boot_sched) = Some s"
    and s: "5 \<in> registered s" "st s 5 = TASK_READY" "mlfq_level (task_of s 5) = 0"
      "rq_level s 0 0 = [5]" "rq_level s 0 1 = []" "rq_level s 0 2 = []" "rq_level s 0 3 = []"
    by (simp add: sched_add_def pick_home_cpu_def enqueue_on_def rq_push_def add_running_def upd_defs
        boot_sched_def boot_cpu_def fresh_task_def Let_def)
  have "up_reachable s"
    by (rule up_next [OF up_boot up_add [OF _ _ add]]) (simp_all add: boot_sched_def boot_cpu_def)
  with sched_one_place [OF this s(1)] s show ?thesis
    by (intro exI [of _ s]) (simp add: lessThan_nat_numeral)
qed

end
