(* ===== verification/Sched_Props.thy ===== *)
theory Sched_Props
  imports Sched_Inv "HOL-Library.Multiset"
begin

text \<open>
  Further properties of the scheduler of theory Sched: a task that runs on two CPUs at once, the order in which
  queued tasks run and the starvation it allows, the priority boost, and the conservation of tasks
  by work stealing.
\<close>

section \<open>Several CPUs\<close>

text \<open>Three CPUs; task 7 runs on CPU 0, the others run their idle tasks.\<close>

definition smp_cpu :: "nat \<Rightarrow> cpu" where
  "smp_cpu c = boot_cpu\<lparr>idle := 100 + c, current := (if c = 0 then 7 else 100 + c), steal_rng := 4\<rparr>"

definition smp_sched :: sched where
  "smp_sched = boot_sched\<lparr>cpu_of := smp_cpu, num_cpus := 3, registered := {7}\<rparr>"

definition woken_in_window :: "sched option" where
  "woken_in_window =
     Option.bind (sched_sleep_lock 0 smp_sched) (\<lambda>(go, s1).
     Option.bind (sched_wake 1 0 7 s1) (sched_yield 2))"

lemma smp_rng: "unat (ucast (xorshift64 4) :: u32) mod 3 = 2"
  by (simp add: xorshift64_def Let_def)

lemmas smp_eval = sched_sleep_lock_def sched_wake_def sched_yield_def sched_sleep_switch_def wake_target_def
  steal_rng_next_def unlink_sleeper_def mark_sleeping_def enqueue_on_def rq_push_def rq_pop_def
  add_running_def do_switch_def dequeue_local_def requeue_prev_def run_next_def clear_resched_def
  cpu_of_task_def charge_def demote_def s_quanta_def upd_defs Let_def


section \<open>Order and starvation\<close>

text \<open>A quantum expires: the timer asks for a reschedule and the interrupt's return preempts.\<close>

definition expire :: "nat \<Rightarrow> sched \<Rightarrow> sched option" where
  "expire c s = sched_preempt c (upd_cpu c (\<lambda>q. q\<lparr>reschedule_pending := True\<rparr>) s)"

primrec expire_n :: "nat \<Rightarrow> nat \<Rightarrow> sched \<Rightarrow> sched option" where
  "expire_n c 0 s = Some s"
| "expire_n c (Suc n) s = Option.bind (expire c s) (expire_n c n)"

text \<open>The lowest level holds the waiting tasks \<open>ws\<close> and, last, \<open>x\<close>; \<open>y\<close> runs.\<close>

definition contended :: "nat \<Rightarrow> tid list \<Rightarrow> tid \<Rightarrow> tid \<Rightarrow> sched \<Rightarrow> bool" where
  "contended c ws x y s \<longleftrightarrow> rq_level s c 0 = [] \<and> rq_level s c 1 = [] \<and> rq_level s c 2 = [] \<and>
     rq_level s c 3 = ws @ [x] \<and> cur s c = y \<and> y \<noteq> idle (cpu_of s c) \<and> x \<noteq> idle (cpu_of s c) \<and> x \<noteq> y \<and>
     st s y = TASK_RUNNING \<and> mlfq_level (task_of s x) = 3 \<and> mlfq_level (task_of s y) = 3 \<and>
     preempt_depth (cpu_of s c) = 0"

lemma contended_expire:
  assumes "contended c ws x y s" and "length ws < RQ_CAP"
  obtains s' where "expire c s = Some s'" "contended c ws y x s'"
  using assms by (simp add: expire_def contended_def sched_preempt_def smp_eval)

lemma contended_expire_n:
  assumes "contended c ws x y s" and "length ws < RQ_CAP"
  shows "\<exists>s'. expire_n c n s = Some s' \<and> (contended c ws x y s' \<or> contended c ws y x s')"
  using assms(1)
proof (induction n arbitrary: s x y)
  case (Suc n)
  obtain s' where "expire c s = Some s'" "contended c ws y x s'"
    using contended_expire [OF Suc.prems assms(2)] by blast
  with Suc.IH [of y x s'] show ?case
    by auto
qed simp

text \<open>The owner pops the last pushed task, so two tasks that share the lowest level hand the CPU to each
  other: as long as no boost comes, every task queued before them waits, however many quanta
  expire.\<close>

theorem lifo_starvation:
  assumes "contended c ws x y s" and "length ws < RQ_CAP" and "w \<in> set ws" and "w \<noteq> x" and "w \<noteq> y"
  shows "\<exists>s'. expire_n c n s = Some s' \<and> cur s' c \<noteq> w \<and> w \<in> set (rq_level s' c 3)"
  using contended_expire_n [OF assms(1,2), of n] assms(3-5) by (auto simp: contended_def)

definition busy_sched :: sched where
  "busy_sched = boot_sched\<lparr>
     task_of := (\<lambda>_. fresh_task\<lparr>state := TASK_RUNNING, mlfq_level := 3\<rparr>),
     cpu_of := (\<lambda>_. boot_cpu\<lparr>current := 3, levels := (\<lambda>_. [])(3 := [1, 2])\<rparr>)\<rparr>"

theorem lifo_starvation_witness:
  "contended 0 [1] 2 3 busy_sched \<and>
   (\<exists>s'. expire_n 0 1000 busy_sched = Some s' \<and> cur s' 0 \<noteq> 1 \<and> 1 \<in> set (rq_level s' 0 3))"
proof -
  have "contended 0 [1] 2 3 busy_sched"
    by (simp add: contended_def busy_sched_def boot_sched_def boot_cpu_def fresh_task_def)
  then show ?thesis
    using lifo_starvation [of 0 "[1]" 2 3 busy_sched 1 1000] by simp
qed

lemma upt_split:
  assumes u: "[0..<n] = us @ l # vs"
  shows "us = [0..<l] \<and> l < n"
proof -
  have n: "n = length us + Suc (length vs)"
    using arg_cong [OF u, of length] by simp
  then have "length us < n"
    by simp
  then have "l = length us"
    using arg_cong [OF u, of "\<lambda>xs. xs ! length us"] by (simp del: upt_Suc)
  moreover have "us = [0..<length us]"
    using arg_cong [OF u, of "take (length us)"] \<open>length us < n\<close> by simp
  ultimately show ?thesis
    using n by simp
qed

lemma dequeue_scan_order:
  assumes "dequeue_scan c ls s = (r, s')"
  shows "case r of
      None \<Rightarrow> (\<forall>l \<in> set ls. rq_level s c l = []) \<and> s' = s
    | Some p \<Rightarrow> (\<exists>us l vs. ls = us @ l # vs \<and> (\<forall>m \<in> set us. rq_level s c m = []) \<and>
        rq_level s c l = rq_level s' c l @ [p] \<and> (\<forall>m. m \<noteq> l \<longrightarrow> rq_level s' c m = rq_level s c m))"
  using assms
proof (induction ls)
  case (Cons l ls)
  show ?case
  proof (cases "rq_level s c l = []")
    case True
    with Cons.prems have d: "dequeue_scan c ls s = (r, s')"
      by (simp add: rq_pop_def)
    show ?thesis
    proof (cases r)
      case None
      with Cons.IH [OF d] True show ?thesis
        by simp
    next
      case (Some p)
      with Cons.IH [OF d] obtain us k vs where
        "ls = us @ k # vs" "\<forall>m \<in> set us. rq_level s c m = []" "rq_level s c k = rq_level s' c k @ [p]"
        "\<forall>m. m \<noteq> k \<longrightarrow> rq_level s' c m = rq_level s c m"
        by auto
      with True Some show ?thesis
        by (auto intro!: exI [of _ "l # us"])
    qed
  next
    case False
    with Cons.prems have "r = Some (last (rq_level s c l))" "rq_level s' c l = butlast (rq_level s c l)"
      "\<forall>m. m \<noteq> l \<longrightarrow> rq_level s' c m = rq_level s c m"
      by (auto simp: rq_pop_def add_running_def upd_defs)
    with False show ?thesis
      by (auto intro!: exI [of _ "[]"])
  qed
qed simp

text \<open>The next task comes from the highest non-empty level, the task pushed last there, and leaves the
  queue; only an empty run queue gives none.\<close>

theorem dequeue_highest:
  "(\<exists>p s'. dequeue_local c s = (Some p, s') \<and>
      (\<exists>l < MLFQ_LEVELS. (\<forall>m < l. rq_level s c m = []) \<and> rq_level s c l = rq_level s' c l @ [p] \<and>
         (\<forall>m. m \<noteq> l \<longrightarrow> rq_level s' c m = rq_level s c m))) \<or>
   (dequeue_local c s = (None, s) \<and> rq_level s c 0 = [] \<and> rq_level s c 1 = [] \<and> rq_level s c 2 = [] \<and>
      rq_level s c 3 = [])"
proof -
  obtain r s' where d: "dequeue_scan c [0, 1, 2, 3] s = (r, s')"
    by (cases "dequeue_scan c [0, 1, 2, 3] s")
  show ?thesis
  proof (cases r)
    case None
    with dequeue_scan_order [OF d] d show ?thesis
      by (simp add: dequeue_local_def)
  next
    case (Some p)
    with dequeue_scan_order [OF d] obtain us l vs where l: "[0, 1, 2, 3] = us @ l # vs"
      "\<forall>m \<in> set us. rq_level s c m = []" "rq_level s c l = rq_level s' c l @ [p]"
      "\<forall>m. m \<noteq> l \<longrightarrow> rq_level s' c m = rq_level s c m"
      by auto
    have u: "[0..<4] = us @ l # vs"
      using l(1) by (simp add: upt_rec numeral_2_eq_2 numeral_3_eq_3)
    note split = upt_split [OF u]
    then have "\<forall>m < l. rq_level s c m = []"
      using l(2) by simp
    with split l(3,4) d Some show ?thesis
      unfolding dequeue_local_def by blast
  qed
qed

theorem dequeue_highest_witness:
  "fst (dequeue_local 0 busy_sched) = Some 2 \<and> rq_level (snd (dequeue_local 0 busy_sched)) 0 3 = [1]"
proof -
  have "rq_level busy_sched 0 l = (if l = 3 then [1, 2] else [])" for l
    by (simp add: busy_sched_def boot_sched_def boot_cpu_def)
  then show ?thesis
    using dequeue_highest [of 0 busy_sched] by (auto split: if_splits)
qed

section \<open>Priority boost\<close>

lemma boost_level_mset:
  assumes "boost_level c l n s = Some s'" and "l \<noteq> 0"
  shows "mset (rq_level s' c 0) + mset (rq_level s' c l) = mset (rq_level s c 0) + mset (rq_level s c l)"
  using assms
proof (induction n arbitrary: s)
  case (Suc n)
  show ?case
  proof (cases "rq_level s c l = []")
    case False
    let ?x = "last (rq_level s c l)"
    let ?s1 = "upd_cpu c (\<lambda>q. q\<lparr>levels := (levels q)(l := butlast (levels q l))\<rparr>) s"
    obtain s2 where p: "rq_push c 0 ?x (upd_task ?x boost_task ?s1) = Some s2"
      and b: "boost_level c l n s2 = Some s'"
      using Suc.prems False by (auto simp: rq_pop_def bind_eq_Some_conv)
    have "rq_level s2 c 0 = rq_level s c 0 @ [?x]" "rq_level s2 c l = butlast (rq_level s c l)"
      using p Suc.prems(2) by (auto simp: rq_push_def upd_defs split: if_splits)
    moreover have "mset (rq_level s c l) = add_mset ?x (mset (butlast (rq_level s c l)))"
      using False by (metis append_butlast_last_id mset.simps(2) mset_rev rev.simps(2) rev_rev_ident)
    ultimately show ?thesis
      using Suc.IH [OF b Suc.prems(2)] by simp
  qed (use Suc.prems in \<open>simp add: rq_pop_def\<close>)
qed simp

text \<open>The priority boost of a CPU leaves every task of its queues on level 0 and none elsewhere; no task is lost or
  duplicated. Its loops drain each lower level completely.\<close>

theorem boost_collects:
  assumes "boost_all c s = Some s'"
  shows "rq_level s' c 1 = [] \<and> rq_level s' c 2 = [] \<and> rq_level s' c 3 = [] \<and>
    mset (rq_level s' c 0) = mset (rq_level s c 0 @ rq_level s c 1 @ rq_level s c 2 @ rq_level s c 3)"
  using assms
proof (rule boost_all_steps)
  fix s1 s2 s3
  assume b: "boost_lower c 1 s = Some s1" "boost_lower c 2 s1 = Some s2" "boost_lower c 3 s2 = Some s3"
    and s': "s' = (if cur s3 c \<noteq> idle (cpu_of s3 c) then upd_task (cur s3 c) boost_task s3 else s3)"
    and e: "rq_level s3 c 1 = []" "rq_level s3 c 2 = []" "rq_level s3 c 3 = []"
  note b' = b [unfolded boost_lower_def]
  have "rq_level s1 c 1 = []" "rq_level s2 c 2 = []"
    using boost_level_empties(1) [OF b'(1)] boost_level_empties(1) [OF b'(2)] by simp_all
  moreover have "rq_level s1 c 2 = rq_level s c 2" "rq_level s1 c 3 = rq_level s c 3"
    "rq_level s2 c 3 = rq_level s1 c 3"
    using boost_level_empties(2) [OF b'(1)] boost_level_empties(2) [OF b'(2)] by simp_all
  ultimately have "mset (rq_level s3 c 0) =
      mset (rq_level s c 0 @ rq_level s c 1 @ rq_level s c 2 @ rq_level s c 3)"
    using boost_level_mset [OF b'(1)] boost_level_mset [OF b'(2)] boost_level_mset [OF b'(3)] e by simp
  moreover have "cpu_of s' = cpu_of s3"
    by (simp add: s' upd_task_def)
  ultimately show ?thesis
    using e by simp
qed

theorem boost_collects_witness:
  "\<exists>s'. boost_all 0 busy_sched = Some s' \<and> rq_level s' 0 3 = [] \<and> mset (rq_level s' 0 0) = {#1, 2#}"
proof -
  obtain s' where "boost_all 0 busy_sched = Some s'"
    by (simp add: boost_all_def boost_lower_def rq_pop_def rq_push_def upd_defs busy_sched_def boot_sched_def
        boot_cpu_def numeral_2_eq_2)
  with boost_collects [OF this] show ?thesis
    by (auto simp: busy_sched_def boot_sched_def boot_cpu_def)
qed

section \<open>Work stealing\<close>

text \<open>All tasks queued at a level, over the CPUs.\<close>

definition level_tasks :: "sched \<Rightarrow> nat \<Rightarrow> tid multiset" where
  "level_tasks s l = (\<Sum>c < num_cpus s. mset (rq_level s c l))"

definition same_load :: "sched \<Rightarrow> sched \<Rightarrow> bool" where
  "same_load s s' \<longleftrightarrow> num_cpus s' = num_cpus s \<and> task_of s' = task_of s \<and>
     (\<forall>l. level_tasks s' l = level_tasks s l) \<and> (\<forall>c. cur s' c = cur s c)"

lemma same_load_refl [simp]: "same_load s s"
  by (simp add: same_load_def)

lemma same_load_trans: "same_load s s' \<Longrightarrow> same_load s' s'' \<Longrightarrow> same_load s s''"
  by (simp add: same_load_def)

lemma same_load_levels:
  assumes "num_cpus s' = num_cpus s" and "task_of s' = task_of s" and "\<And>c. cur s' c = cur s c"
    and "\<And>c. levels (cpu_of s' c) = levels (cpu_of s c)"
  shows "same_load s s'"
  using assms by (simp add: same_load_def level_tasks_def)

text \<open>Moving the first task of one CPU's level to the end of another's.\<close>

lemma move_load:
  assumes "self < num_cpus s" and "victim < num_cpus s" and "self \<noteq> victim"
    and "rq_level s victim l = t # ts"
    and "rq_push self l t (add_running victim (-1) (upd_cpu victim (\<lambda>q. q\<lparr>levels := (levels q)(l := ts)\<rparr>) s)) = Some s2"
  shows "same_load s (add_running self 1 s2)" "num_cpus s2 = num_cpus s"
    "length (rq_level s2 self m) = length (rq_level s self m) + of_bool (m = l)"
proof -
  let ?s = "add_running self 1 s2"
  have lv: "rq_level ?s c m = (if m = l \<and> c = victim then ts
      else if m = l \<and> c = self then rq_level s self l @ [t] else rq_level s c m)" for c m
    using assms(3,5) by (auto simp: rq_push_def add_running_def upd_defs split: if_splits)
  have n: "num_cpus ?s = num_cpus s" "task_of ?s = task_of s" "\<And>c. cur ?s c = cur s c"
    using assms(5) by (auto simp: rq_push_def add_running_def upd_defs split: if_splits)
  have "level_tasks ?s m = level_tasks s m" for m
  proof -
    let ?A = "{..<num_cpus s} - {self} - {victim}"
    have split: "(\<Sum>c < num_cpus s. f c) = f self + (f victim + (\<Sum>c \<in> ?A. f c))" for f :: "nat \<Rightarrow> tid multiset"
      using assms(1-3) by (simp add: sum.remove [of "{..<num_cpus s}" self] sum.remove [of "{..<num_cpus s} - {self}" victim])
    show ?thesis
      using assms(3,4) by (simp add: level_tasks_def n split lv)
  qed
  with n show "same_load s ?s"
    by (simp add: same_load_def)
  show "num_cpus s2 = num_cpus s"
    "length (rq_level s2 self m) = length (rq_level s self m) + of_bool (m = l)"
    using assms(3,5) by (auto simp: rq_push_def add_running_def upd_defs split: if_splits)
qed

lemma steal_batch_load:
  assumes "steal_batch self victim l n s = Some s'" and "self < num_cpus s" and "victim < num_cpus s"
    and "self \<noteq> victim"
  shows "same_load s s' \<and> length (rq_level s' self m) \<le> length (rq_level s self m) + n"
  using assms
proof (induction n arbitrary: s)
  case (Suc n)
  show ?case
  proof (cases "rq_level s victim l")
    case (Cons t ts)
    with Suc.prems(1) obtain s2 where p: "rq_push self l t
        (add_running victim (-1) (upd_cpu victim (\<lambda>q. q\<lparr>levels := (levels q)(l := ts)\<rparr>) s)) = Some s2"
      and b: "steal_batch self victim l n (add_running self 1 s2) = Some s'"
      by (auto simp: bind_eq_Some_conv Let_def)
    note mv = move_load [OF Suc.prems(2-4) Cons p]
    have "num_cpus (add_running self 1 s2) = num_cpus s"
      using mv(2) by (simp add: add_running_def upd_defs)
    with Suc.IH [OF b] Suc.prems have "same_load (add_running self 1 s2) s'"
      "length (rq_level s' self m) \<le> length (rq_level s2 self m) + n"
      by (simp_all add: add_running_def upd_defs)
    with same_load_trans [OF mv(1)] mv(3) [of m] show ?thesis
      by (cases "m = l") auto
  qed (use Suc.prems in simp)
qed simp

lemma steal_levels_load:
  assumes "steal_levels self victim ls s = Some (took, s')" and "self < num_cpus s" and "victim < num_cpus s"
    and "self \<noteq> victim"
  shows "same_load s s' \<and> length (rq_level s' self m) \<le> length (rq_level s self m) + STEAL_BATCH \<and>
    (\<not> took \<longrightarrow> s' = s)"
  using assms
proof (induction ls)
  case (Cons l ls)
  show ?case
  proof (cases "rq_level s victim l = []")
    case False
    with Cons.prems(1) have took: "took"
      and b: "steal_batch self victim l (batch_size (length (rq_level s victim l))) s = Some s'"
      by auto
    have "batch_size k \<le> STEAL_BATCH" for k
      by (simp add: batch_size_def)
    with steal_batch_load [OF b Cons.prems(2-4), of m] took show ?thesis
      by (meson add_left_mono order_trans)
  qed (use Cons in simp)
qed simp

lemma rng_frame:
  assumes "steal_rng_next c tsc s = (r, s1)"
  shows "same_load s s1" "num_cpus s1 = num_cpus s" "levels (cpu_of s1 d) = levels (cpu_of s d)"
  using assms by (auto simp: steal_rng_next_def Let_def upd_defs intro!: same_load_levels)

lemma steal_attempts_load:
  assumes "steal_attempts n self tsc s = Some (took, s')" and "self < num_cpus s"
  shows "same_load s s' \<and> length (rq_level s' self m) \<le> length (rq_level s self m) + STEAL_BATCH"
  using assms
proof (induction n arbitrary: s)
  case (Suc n)
  obtain r s1 where r: "steal_rng_next self tsc s = (r, s1)"
    by (cases "steal_rng_next self tsc s")
  note fr = rng_frame [OF r]
  let ?v = "unat r mod num_cpus s1"
  have self: "self < num_cpus s1" and v: "?v < num_cpus s1"
    using Suc.prems(2) fr(2) by auto
  show ?case
  proof (cases "?v = self \<or> unat (nr_running (cpu_of s1 ?v)) < STEAL_MIN_TASKS")
    case True
    with Suc r have "same_load s1 s' \<and> length (rq_level s' self m) \<le> length (rq_level s1 self m) + STEAL_BATCH"
      using self by (simp add: Let_def)
    with fr same_load_trans show ?thesis
      by auto
  next
    case False
    with Suc.prems r obtain t2 s2 where l: "steal_levels self ?v [0, 1, 2, 3] s1 = Some (t2, s2)"
      and k: "(if t2 then Some (True, s2) else steal_attempts n self tsc s2) = Some (took, s')"
      by (auto simp: Let_def bind_eq_Some_conv)
    have sl: "same_load s1 s2" "length (rq_level s2 self m) \<le> length (rq_level s1 self m) + STEAL_BATCH"
      "\<not> t2 \<longrightarrow> s2 = s1"
      using steal_levels_load [OF l self v, of m] False by auto
    have "same_load s1 s' \<and> length (rq_level s' self m) \<le> length (rq_level s1 self m) + STEAL_BATCH"
      using k sl Suc.IH [of s1] self by (cases t2) auto
    with fr same_load_trans show ?thesis
      by auto
  qed
qed simp

text \<open>Work stealing moves tasks between run queues and does nothing else: at every level the queued tasks of the
  machine stay the same, no task changes its state or priority, no CPU changes what it runs, and
  a thief takes at most a batch.\<close>

theorem steal_conserves:
  assumes "sched_try_steal self tsc s = Some (took, s')" and "self < num_cpus s"
  shows "(\<forall>l. level_tasks s' l = level_tasks s l) \<and> task_of s' = task_of s \<and> (\<forall>c. cur s' c = cur s c) \<and>
    (\<forall>m. length (rq_level s' self m) \<le> length (rq_level s self m) + STEAL_BATCH)"
proof -
  have "same_load s s' \<and> length (rq_level s' self m) \<le> length (rq_level s self m) + STEAL_BATCH" for m
    using assms steal_attempts_load [of STEAL_ATTEMPTS self tsc s took s' m]
    by (auto simp: sched_try_steal_def split: if_splits)
  then show ?thesis
    by (simp add: same_load_def)
qed

text \<open>CPU 0 is loaded with two tasks, CPU 1 steals.\<close>

definition steal_sched :: sched where
  "steal_sched = boot_sched\<lparr>num_cpus := 2,
     cpu_of := (\<lambda>c. if c = 0 then boot_cpu\<lparr>levels := (\<lambda>_. [])(0 := [4, 5]), nr_running := 2\<rparr>
       else boot_cpu\<lparr>steal_rng := 2\<rparr>)\<rparr>"

lemma steal_rng_victim: "unat (ucast (xorshift64 2) :: u32) mod 2 = 0"
  by (simp add: xorshift64_def Let_def)

lemma steal_run:
  "\<exists>s'. sched_try_steal 1 0 steal_sched = Some (True, s') \<and> rq_level s' 1 0 = [4]"
proof -
  define s1 where "s1 = upd_cpu 1 (\<lambda>q. q\<lparr>steal_rng := xorshift64 2\<rparr>) steal_sched"
  have r: "steal_rng_next 1 0 steal_sched = (ucast (xorshift64 2), s1)"
    by (simp add: steal_rng_next_def s1_def steal_sched_def Let_def)
  have n: "num_cpus s1 = 2" "nr_running (cpu_of s1 0) = 2" "rq_level s1 0 0 = [4, 5]" "rq_level s1 1 0 = []"
    by (simp_all add: s1_def upd_defs steal_sched_def boot_cpu_def)
  obtain s2 where b: "steal_batch 1 0 0 (Suc 0) s1 = Some s2" "rq_level s2 1 0 = [4]"
    using n by (simp add: rq_push_def add_running_def upd_defs)
  have "steal_levels 1 0 [0, 1, 2, 3] s1 = Some (True, s2)"
    using b n by (simp add: batch_size_def)
  then have "steal_attempts (Suc 3) 1 0 steal_sched = Some (True, s2)"
    unfolding steal_attempts.simps(2) r Let_def prod.case n steal_rng_victim by (simp add: n)
  moreover have "num_cpus steal_sched = 2"
    by (simp add: steal_sched_def)
  ultimately show ?thesis
    using b by (simp add: sched_try_steal_def)
qed

theorem steal_conserves_witness:
  "\<exists>s'. sched_try_steal 1 0 steal_sched = Some (True, s') \<and> rq_level s' 1 0 = [4] \<and>
     level_tasks s' 0 = {#4, 5#}"
proof -
  obtain s' where s': "sched_try_steal 1 0 steal_sched = Some (True, s')" "rq_level s' 1 0 = [4]"
    using steal_run by blast
  have "1 < num_cpus steal_sched" "level_tasks steal_sched 0 = {#4, 5#}"
    by (simp_all add: steal_sched_def boot_cpu_def level_tasks_def lessThan_Suc numeral_2_eq_2)
  with steal_conserves [OF s'(1)] s' show ?thesis
    by auto
qed

end
