(* ===== verification/Free_List.thy ===== *)
theory Free_List
  imports MakaOS_Prelude
begin

text \<open>
  The free lists of the physical memory manager, \<^verbatim>\<open>kernel/mm/pmm.c\<close>: one doubly linked list per order, its
  links overlaid on the first bytes of each free block. A physical address is the number of its
  frame (all callers pass page-aligned addresses), so the direct map is the identity; \<open>None\<close> is the null
  pointer, and a result \<open>None\<close> is the panic on a clobbered link. The lists are shown to implement
  lists of frame numbers, as an interface that the buddy allocator relies on.
\<close>

section \<open>The linked lists\<close>

record free_lists =
  g_free_lists :: "nat \<Rightarrow> nat option"
  nexts :: "nat \<Rightarrow> nat option"
  prevs :: "nat \<Rightarrow> nat option"
  g_phys_ceiling :: nat

definition overlay_ptr_ok :: "free_lists \<Rightarrow> nat option \<Rightarrow> bool" where
  "overlay_ptr_ok m p = (case p of None \<Rightarrow> True | Some v \<Rightarrow> v < g_phys_ceiling m)"

definition set_next :: "nat \<Rightarrow> nat option \<Rightarrow> free_lists \<Rightarrow> free_lists" where
  "set_next x v m = m\<lparr>nexts := (nexts m)(x := v)\<rparr>"

definition set_prev :: "nat \<Rightarrow> nat option \<Rightarrow> free_lists \<Rightarrow> free_lists" where
  "set_prev x v m = m\<lparr>prevs := (prevs m)(x := v)\<rparr>"

definition set_head :: "nat \<Rightarrow> nat option \<Rightarrow> free_lists \<Rightarrow> free_lists" where
  "set_head k v m = m\<lparr>g_free_lists := (g_free_lists m)(k := v)\<rparr>"

definition free_list_push :: "nat \<Rightarrow> nat \<Rightarrow> free_lists \<Rightarrow> free_lists" where
  "free_list_push k x m =
     (let m1 = set_next x (g_free_lists m k) (set_prev x None m);
          m2 = (case g_free_lists m1 k of None \<Rightarrow> m1 | Some h \<Rightarrow> set_prev h (Some x) m1)
      in set_head k (Some x) m2)"

definition free_list_remove :: "nat \<Rightarrow> nat \<Rightarrow> free_lists \<Rightarrow> free_lists option" where
  "free_list_remove k x m =
     (if \<not> overlay_ptr_ok m (nexts m x) \<or> \<not> overlay_ptr_ok m (prevs m x) then None
      else
        (let m1 = (case prevs m x of Some p \<Rightarrow> set_next p (nexts m x) m
                     | None \<Rightarrow> set_head k (nexts m x) m);
             m2 = (case nexts m1 x of Some n \<Rightarrow> set_prev n (prevs m1 x) m1 | None \<Rightarrow> m1)
         in Some (set_next x None (set_prev x None m2))))"

definition free_list_pop :: "nat \<Rightarrow> free_lists \<Rightarrow> (nat option \<times> free_lists) option" where
  "free_list_pop k m =
     (case g_free_lists m k of
        None \<Rightarrow> Some (None, m)
      | Some x \<Rightarrow>
          if \<not> overlay_ptr_ok m (nexts m x) \<or> \<not> overlay_ptr_ok m (prevs m x) then None
          else
            (let m1 = set_head k (nexts m x) m;
                 m2 = (case g_free_lists m1 k of Some h \<Rightarrow> set_prev h None m1 | None \<Rightarrow> m1)
             in Some (Some x, set_prev x None (set_next x None m2))))"

section \<open>Abstraction to lists\<close>

text \<open>The nodes from a pointer on, each pointing back to its predecessor.\<close>

primrec dll :: "(nat \<Rightarrow> nat option) \<Rightarrow> (nat \<Rightarrow> nat option) \<Rightarrow> nat option \<Rightarrow> nat option \<Rightarrow> nat list \<Rightarrow> bool" where
  "dll nx pv p h [] \<longleftrightarrow> h = None"
| "dll nx pv p h (x # xs) \<longleftrightarrow> h = Some x \<and> pv x = p \<and> dll nx pv (Some x) (nx x) xs"

definition lists_of :: "free_lists \<Rightarrow> (nat \<Rightarrow> nat list) \<Rightarrow> bool" where
  "lists_of m L \<longleftrightarrow>
     (\<forall>k. dll (nexts m) (prevs m) None (g_free_lists m k) (L k) \<and> distinct (L k)) \<and>
     (\<forall>k j. k \<noteq> j \<longrightarrow> set (L k) \<inter> set (L j) = {}) \<and>
     (\<forall>k. \<forall>x \<in> set (L k). x < g_phys_ceiling m)"

section \<open>Lemmas\<close>

lemmas set_defs = set_next_def set_prev_def set_head_def

lemma dll_next_other: "x \<notin> set xs \<Longrightarrow> dll (nx(x := v)) pv p h xs = dll nx pv p h xs"
  by (induction xs arbitrary: p h) auto

lemma dll_prev_other: "x \<notin> set xs \<Longrightarrow> dll nx (pv(x := v)) p h xs = dll nx pv p h xs"
  by (induction xs arbitrary: p h) auto

lemma dll_head: "dll nx pv p h xs \<Longrightarrow> h = (case xs of [] \<Rightarrow> None | x # _ \<Rightarrow> Some x)"
  by (cases xs) auto

lemma dll_unique: "dll nx pv p h xs \<Longrightarrow> dll nx pv q h ys \<Longrightarrow> xs = ys"
proof (induction xs arbitrary: p q h ys)
  case (Cons x xs)
  then show ?case
    by (cases ys) auto
qed (auto dest: dll_head split: list.splits)

lemma lists_of_unique:
  assumes "lists_of m L" and "lists_of m M"
  shows "L = M"
proof
  show "L k = M k" for k
    using assms dll_unique unfolding lists_of_def by metis
qed

text \<open>Redirecting the back pointer of the first node.\<close>

lemma dll_new_prev:
  assumes "dll nx pv p (Some x) (x # xs)" and "distinct (x # xs)"
  shows "dll nx (pv(x := q)) q (Some x) (x # xs)"
  using assms by (simp add: dll_prev_other)

text \<open>Unlinking a node that is not the first: its predecessor and its successor are in the list.\<close>

definition link_prev :: "(nat \<Rightarrow> nat option) \<Rightarrow> nat option \<Rightarrow> nat option \<Rightarrow> (nat \<Rightarrow> nat option)" where
  "link_prev pv n p = (case n of None \<Rightarrow> pv | Some y \<Rightarrow> pv(y := p))"

lemma dll_unlink_first:
  assumes "dll nx pv p h (x # xs)" and "distinct (x # xs)"
  shows "dll nx (link_prev pv (nx x) p) p (nx x) xs"
  using assms by (cases xs) (auto simp: link_prev_def dll_prev_other)

lemma dll_pred:
  assumes "dll nx pv p h (y # ys)" and "x \<in> set ys" and "distinct (y # ys)"
  shows "\<exists>q. pv x = Some q \<and> q \<in> set (y # ys) \<and> q \<noteq> x"
  using assms
proof (induction ys arbitrary: y p h)
  case (Cons z zs)
  show ?case
  proof (cases "x = z")
    case False
    with Cons.IH [of "Some y" "Some z" z] Cons.prems show ?thesis
      by auto
  qed (use Cons.prems in auto)
qed simp

lemma dll_succ:
  assumes "dll nx pv p h ys" and "x \<in> set ys" and "distinct ys"
  shows "case nx x of None \<Rightarrow> True | Some n \<Rightarrow> n \<in> set ys \<and> n \<noteq> x"
  using assms
proof (induction ys arbitrary: p h)
  case (Cons z zs)
  show ?case
  proof (cases "x = z")
    case True
    with Cons.prems show ?thesis
      by (cases zs) auto
  next
    case False
    with Cons.IH [of "Some z" "nx z"] Cons.prems show ?thesis
      by (auto split: option.splits)
  qed
qed simp

lemma dll_unlink:
  assumes "dll nx pv p h (y # ys)" and "x \<in> set ys" and "distinct (y # ys)" and "pv x = Some q"
  shows "dll (nx(q := nx x)) (link_prev pv (nx x) (pv x)) p h (y # remove1 x ys)"
  using assms
proof (induction ys arbitrary: y p h)
  case (Cons z zs)
  show ?case
  proof (cases "x = z")
    case True
    with Cons.prems have q: "q = y" "nx y = Some z" "y \<notin> set zs" "x \<noteq> y"
      by auto
    have "dll nx (link_prev pv (nx x) (Some y)) (Some y) (nx x) zs"
      using dll_unlink_first [of nx pv "Some y" "Some z" x zs] Cons.prems True by auto
    moreover have "link_prev pv (nx x) (Some y) y = pv y"
      using dll_succ [of nx pv "Some y" "Some z" "z # zs" x] Cons.prems True
      by (auto simp: link_prev_def split: option.splits)
    ultimately have "dll (nx(y := nx x)) (link_prev pv (nx x) (Some y)) (Some y) (nx x) zs"
      by (simp only: dll_next_other [OF q(3)])
    then show ?thesis
      using Cons.prems True q \<open>link_prev pv (nx x) (Some y) y = pv y\<close> by (simp add: fun_upd_def)
  next
    case False
    have l: "dll nx pv (Some y) (Some z) (z # zs)" "nx y = Some z" "x \<in> set zs" "distinct (z # zs)"
      using Cons.prems False by auto
    have ih: "dll (nx(q := nx x)) (link_prev pv (nx x) (pv x)) (Some y) (Some z) (z # remove1 x zs)"
      by (rule Cons.IH [OF l(1,3,4) Cons.prems(4)])
    have "q \<noteq> y"
      using dll_pred [OF l(1,3,4)] Cons.prems(3,4) by auto
    moreover have "link_prev pv (nx x) (pv x) y = pv y"
      using dll_succ [OF l(1), of x] l(3,4) Cons.prems(3) by (auto simp: link_prev_def split: option.splits)
    ultimately show ?thesis
      using ih False Cons.prems(1) by (auto simp: fun_upd_def)
  qed
qed simp

text \<open>Lists that share no node with the changed ones keep their shape.\<close>

lemma dll_link_prev_other:
  "(case n of None \<Rightarrow> True | Some y \<Rightarrow> y \<notin> set xs) \<Longrightarrow> dll nx (link_prev pv n v) p h xs = dll nx pv p h xs"
  by (simp add: link_prev_def dll_prev_other split: option.splits)

lemma lists_ofD:
  assumes "lists_of m L"
  shows "dll (nexts m) (prevs m) None (g_free_lists m k) (L k)" "distinct (L k)"
    "k \<noteq> j \<Longrightarrow> x \<in> set (L k) \<Longrightarrow> x \<notin> set (L j)" "x \<in> set (L k) \<Longrightarrow> x < g_phys_ceiling m"
  using assms by (auto simp: lists_of_def)

lemma head_of: "lists_of m L \<Longrightarrow> g_free_lists m k = (case L k of [] \<Rightarrow> None | x # _ \<Rightarrow> Some x)"
  by (rule dll_head) (rule lists_ofD(1))

lemma push_lists:
  assumes m: "lists_of m L" and x: "\<And>j. x \<notin> set (L j)" and "x < g_phys_ceiling m"
  shows "lists_of (free_list_push k x m) (L(k := x # L k))"
proof -
  let ?m = "free_list_push k x m"
  have fld: "nexts ?m = (nexts m)(x := g_free_lists m k)"
    "prevs ?m = link_prev ((prevs m)(x := None)) (g_free_lists m k) (Some x)"
    "g_free_lists ?m = (g_free_lists m)(k := Some x)" "g_phys_ceiling ?m = g_phys_ceiling m"
    by (auto simp: free_list_push_def set_defs Let_def link_prev_def split: option.splits)
  have other: "dll (nexts ?m) (prevs ?m) None (g_free_lists m j) (L j)" if "j \<noteq> k" for j
  proof -
    have "case g_free_lists m k of None \<Rightarrow> True | Some y \<Rightarrow> y \<notin> set (L j)"
      using lists_ofD(3) [OF m, of k j] that by (auto simp: head_of [OF m] split: list.split)
    then show ?thesis
      using lists_ofD(1) [OF m] x by (simp add: fld dll_link_prev_other dll_next_other dll_prev_other)
  qed
  have "dll (nexts m) ((prevs m)(x := None)) None (g_free_lists m k) (L k)"
    using lists_ofD(1) [OF m, of k] x by (simp add: dll_prev_other)
  then have "dll (nexts m) (prevs ?m) (Some x) (g_free_lists m k) (L k)"
    using lists_ofD(2) [OF m, of k] by (cases "L k") (auto simp: fld link_prev_def dll_prev_other)
  moreover have "prevs ?m x = None"
    using x [of k] by (auto simp: fld link_prev_def head_of [OF m] split: option.splits list.splits)
  ultimately have "dll (nexts ?m) (prevs ?m) None (g_free_lists ?m k) (x # L k)"
    using x by (simp add: fld dll_next_other)
  with other show ?thesis
    using m x assms(3) by (auto simp: lists_of_def fld)
qed

lemma remove_lists:
  assumes m: "lists_of m L" and x: "x \<in> set (L k)"
  shows "\<exists>m'. free_list_remove k x m = Some m' \<and> lists_of m' (L(k := remove1 x (L k)))"
proof -
  note l = lists_ofD(1,2) [OF m, of k]
  obtain y ys where k: "L k = y # ys"
    using x by (cases "L k") auto
  have succ: "case nexts m x of None \<Rightarrow> True | Some n \<Rightarrow> n \<in> set (L k) \<and> n \<noteq> x"
    by (rule dll_succ [OF l(1) x l(2)])
  have pred: "case prevs m x of None \<Rightarrow> x = y | Some q \<Rightarrow> x \<in> set ys \<and> q \<in> set (L k) \<and> q \<noteq> x"
  proof (cases "x = y")
    case False
    with x k have "x \<in> set ys"
      by simp
    with dll_pred [of "nexts m" "prevs m" None "g_free_lists m k" y ys x] l k show ?thesis
      by auto
  qed (use l k in simp)
  define m1 where "m1 = (case prevs m x of Some p \<Rightarrow> set_next p (nexts m x) m
    | None \<Rightarrow> set_head k (nexts m x) m)"
  define m2 where "m2 = (case nexts m1 x of Some n \<Rightarrow> set_prev n (prevs m1 x) m1 | None \<Rightarrow> m1)"
  define m3 where "m3 = set_next x None (set_prev x None m2)"
  have ok: "overlay_ptr_ok m (nexts m x)" "overlay_ptr_ok m (prevs m x)"
    using succ pred lists_ofD(4) [OF m, of _ k] by (auto simp: overlay_ptr_ok_def split: option.splits)
  have rem: "free_list_remove k x m = Some m3"
    unfolding free_list_remove_def m1_def m2_def m3_def Let_def using ok by simp
  have nx1: "nexts m1 x = nexts m x" "prevs m1 x = prevs m x"
    using pred by (auto simp: m1_def set_defs split: option.splits)
  have fld: "prevs m3 = (link_prev (prevs m) (nexts m x) (prevs m x))(x := None)"
    "nexts m3 = (case prevs m x of None \<Rightarrow> nexts m | Some q \<Rightarrow> (nexts m)(q := nexts m x))(x := None)"
    "g_free_lists m3 = (case prevs m x of None \<Rightarrow> (g_free_lists m)(k := nexts m x) | Some q \<Rightarrow> g_free_lists m)"
    "g_phys_ceiling m3 = g_phys_ceiling m"
    by (auto simp: m3_def m2_def nx1 m1_def set_defs link_prev_def split: option.splits)
  have other: "dll (nexts m3) (prevs m3) None (g_free_lists m3 j) (L j)" if "j \<noteq> k" for j
  proof -
    have "case nexts m x of None \<Rightarrow> True | Some n \<Rightarrow> n \<notin> set (L j)" "x \<notin> set (L j)"
      "\<And>q. prevs m x = Some q \<Longrightarrow> q \<notin> set (L j)"
      using succ pred x that lists_ofD(3) [OF m, of k j] by (auto split: option.splits)
    then show ?thesis
      using lists_ofD(1) [OF m, of j] that
      by (auto simp: fld dll_link_prev_other dll_next_other dll_prev_other split: option.splits)
  qed
  have "dll (nexts m3) (prevs m3) None (g_free_lists m3 k) (remove1 x (L k))"
  proof (cases "prevs m x")
    case None
    with pred have "x = y"
      by simp
    with dll_unlink_first [of "nexts m" "prevs m" None "g_free_lists m k" x ys] l k None show ?thesis
      by (simp add: fld dll_next_other dll_prev_other)
  next
    case (Some q)
    with pred k have "x \<in> set ys" "x \<noteq> y" "distinct (y # ys)"
      using l by auto
    with dll_unlink [of "nexts m" "prevs m" None "g_free_lists m k" y ys x q] l k Some show ?thesis
      by (simp add: fld dll_next_other dll_prev_other)
  qed
  with other have dl: "dll (nexts m3) (prevs m3) None (g_free_lists m3 j) ((L(k := remove1 x (L k))) j)" for j
    by simp
  have sub: "set ((L(k := remove1 x (L k))) j) \<subseteq> set (L j)" for j
    using set_remove1_subset [of x "L k"] by simp
  have "lists_of m3 (L(k := remove1 x (L k)))"
    unfolding lists_of_def
  proof (intro conjI allI impI ballI)
    fix i j :: nat
    assume "i \<noteq> j"
    then show "set ((L(k := remove1 x (L k))) i) \<inter> set ((L(k := remove1 x (L k))) j) = {}"
      using sub [of i] sub [of j] lists_ofD(3) [OF m, of i j] by blast
  next
    fix j y
    assume "y \<in> set ((L(k := remove1 x (L k))) j)"
    then show "y < g_phys_ceiling m3"
      using sub [of j] lists_ofD(4) [OF m, of y j] by (auto simp only: fld)
  qed (use dl lists_ofD(2) [OF m] in \<open>simp_all del: dll.simps\<close>)
  with rem show ?thesis
    by blast
qed

text \<open>Popping removes the first node.\<close>

lemma pop_lists:
  assumes m: "lists_of m L"
  shows "case L k of
      [] \<Rightarrow> free_list_pop k m = Some (None, m)
    | x # xs \<Rightarrow> \<exists>m'. free_list_pop k m = Some (Some x, m') \<and> lists_of m' (L(k := xs))"
proof (cases "L k")
  case Nil
  then show ?thesis
    by (simp add: free_list_pop_def head_of [OF m])
next
  case (Cons x xs)
  then have h: "g_free_lists m k = Some x" and pr: "prevs m x = None"
    using lists_ofD(1) [OF m, of k] by auto
  have "free_list_pop k m = map_option (\<lambda>m'. (Some x, m')) (free_list_remove k x m)"
    by (auto simp: free_list_pop_def free_list_remove_def h pr set_defs Let_def split: option.splits)
  with remove_lists [OF m, of x k] Cons show ?thesis
    by auto
qed

section \<open>The interface\<close>

text \<open>What the buddy allocator relies on: per-order lists that hold every node at most once.\<close>

locale block_lists =
  fixes push :: "nat \<Rightarrow> nat \<Rightarrow> 'm \<Rightarrow> 'm" and remove :: "nat \<Rightarrow> nat \<Rightarrow> 'm \<Rightarrow> 'm option"
    and pop :: "nat \<Rightarrow> 'm \<Rightarrow> (nat option \<times> 'm) option" and rel :: "'m \<Rightarrow> (nat \<Rightarrow> nat list) \<Rightarrow> bool"
    and limit :: "'m \<Rightarrow> nat"
  assumes push_rel: "rel m L \<Longrightarrow> (\<And>j. x \<notin> set (L j)) \<Longrightarrow> x < limit m \<Longrightarrow> rel (push k x m) (L(k := x # L k))"
    and remove_rel: "rel m L \<Longrightarrow> x \<in> set (L k) \<Longrightarrow>
      \<exists>m'. remove k x m = Some m' \<and> rel m' (L(k := remove1 x (L k))) \<and> limit m' = limit m"
    and pop_rel: "rel m L \<Longrightarrow> L k = x # xs \<Longrightarrow>
      \<exists>m'. pop k m = Some (Some x, m') \<and> rel m' (L(k := xs)) \<and> limit m' = limit m"
    and push_limit: "limit (push k x m) = limit m"
    and rel_distinct: "rel m L \<Longrightarrow> distinct (L k)"
begin

text \<open>Putting a block on a list and taking it off again is the identity on the lists.\<close>

lemma push_remove:
  assumes "rel m L" and "\<And>j. x \<notin> set (L j)" and "x < limit m"
  shows "\<exists>m'. remove k x (push k x m) = Some m' \<and> rel m' L"
proof -
  have "rel (push k x m) (L(k := x # L k))"
    by (rule push_rel [OF assms])
  from remove_rel [OF this, of x k] show ?thesis
    by auto
qed

lemma push_pop:
  assumes "rel m L" and "\<And>j. x \<notin> set (L j)" and "x < limit m"
  shows "\<exists>m'. pop k (push k x m) = Some (Some x, m') \<and> rel m' L"
proof -
  have "rel (push k x m) (L(k := x # L k))"
    by (rule push_rel [OF assms])
  from pop_rel [OF this, of k x "L k"] show ?thesis
    by auto
qed

end

lemma pop_ceiling: "free_list_pop k m = Some (r, m') \<Longrightarrow> g_phys_ceiling m' = g_phys_ceiling m"
  by (auto simp: free_list_pop_def set_defs Let_def split: option.splits if_splits)

lemma remove_ceiling: "free_list_remove k x m = Some m' \<Longrightarrow> g_phys_ceiling m' = g_phys_ceiling m"
  by (auto simp: free_list_remove_def set_defs Let_def split: option.splits if_splits)

interpretation overlay: block_lists free_list_push free_list_remove free_list_pop lists_of g_phys_ceiling
proof
  fix m L k x xs
  show "lists_of m L \<Longrightarrow> L k = x # xs \<Longrightarrow>
      \<exists>m'. free_list_pop k m = Some (Some x, m') \<and> lists_of m' (L(k := xs)) \<and> g_phys_ceiling m' = g_phys_ceiling m"
    using pop_lists [of m L k] pop_ceiling by fastforce
  show "lists_of m L \<Longrightarrow> x \<in> set (L k) \<Longrightarrow>
      \<exists>m'. free_list_remove k x m = Some m' \<and> lists_of m' (L(k := remove1 x (L k))) \<and>
        g_phys_ceiling m' = g_phys_ceiling m"
    using remove_lists [of m L x k] remove_ceiling by blast
  show "g_phys_ceiling (free_list_push k x m) = g_phys_ceiling m"
    by (auto simp: free_list_push_def set_defs Let_def split: option.splits)
qed (auto intro: push_lists lists_ofD(2))

end
