(* ===== verification/Buddy.thy ===== *)
theory Buddy
  imports Free_List
begin

unbundle bit_operations_syntax

text \<open>
  The buddy allocator of \<^verbatim>\<open>kernel/mm/pmm.c\<close>, under its lock: allocation with splitting, freeing with
  merging driven by one coalescing bit per pair of buddies, and the per-frame reference and pin
  counts. Addresses are frame numbers. The lemmas show that the free blocks stay aligned, disjoint
  and merged as far as possible, that the bits tell which buddies are free, and that the free
  structure depends on nothing but which frames are free.
\<close>

section \<open>State\<close>

abbreviation (input) MAX_ORDER :: nat where "MAX_ORDER \<equiv> 32"

record pmm =
  mem :: free_lists
  g_buddy_coalesce :: "nat \<Rightarrow> nat \<Rightarrow> u64"
  g_total_frames :: nat
  g_frame_refcount :: "nat \<Rightarrow> u32"
  g_frame_pincount :: "nat \<Rightarrow> u16"
  g_free_pages :: u64

definition word_index :: "nat \<Rightarrow> nat" where
  "word_index i = i div 64"

definition bit_mask :: "nat \<Rightarrow> u64" where
  "bit_mask i = push_bit (i mod 64) 1"

definition bit_test :: "(nat \<Rightarrow> u64) \<Rightarrow> nat \<Rightarrow> bool" where
  "bit_test ws i \<longleftrightarrow> ws (word_index i) AND bit_mask i \<noteq> 0"

definition bit_toggle :: "(nat \<Rightarrow> u64) \<Rightarrow> nat \<Rightarrow> (nat \<Rightarrow> u64)" where
  "bit_toggle ws i = ws(word_index i := ws (word_index i) XOR bit_mask i)"

definition order_to_pages :: "nat \<Rightarrow> nat" where
  "order_to_pages k = 2 ^ k"

definition g_buddy_blocks :: "pmm \<Rightarrow> nat \<Rightarrow> nat" where
  "g_buddy_blocks s k = (g_total_frames s + order_to_pages k - 1) div 2 ^ k"

definition toggle :: "nat \<Rightarrow> nat \<Rightarrow> pmm \<Rightarrow> pmm" where
  "toggle k p s = s\<lparr>g_buddy_coalesce := (g_buddy_coalesce s)(k := bit_toggle (g_buddy_coalesce s k) p)\<rparr>"

definition push_block :: "nat \<Rightarrow> nat \<Rightarrow> pmm \<Rightarrow> pmm" where
  "push_block k x s = s\<lparr>mem := free_list_push k x (mem s)\<rparr>"

section \<open>Allocation\<close>

primrec split_down :: "nat \<Rightarrow> nat \<Rightarrow> nat \<Rightarrow> pmm \<Rightarrow> pmm" where
  "split_down k 0 b s = s"
| "split_down k (Suc n) b s =
     (let c = k + n; bb = 2 * b + 1
      in split_down k n (2 * b) (toggle c (bb div 2) (push_block c (bb * 2 ^ c) s)))"

definition pmm_buddy_alloc_locked :: "nat \<Rightarrow> pmm \<Rightarrow> (nat option \<times> pmm) option" where
  "pmm_buddy_alloc_locked k s =
     (if k > MAX_ORDER then Some (None, s)
      else case List.find (\<lambda>c. g_free_lists (mem s) c \<noteq> None) [k..<Suc MAX_ORDER] of
          None \<Rightarrow> Some (None, s)
        | Some c \<Rightarrow>
            (case free_list_pop c (mem s) of
               None \<Rightarrow> None
             | Some (None, m) \<Rightarrow> Some (None, s\<lparr>mem := m\<rparr>)
             | Some (Some x, m) \<Rightarrow>
                 let b = x div 2 ^ c;
                     s1 = split_down k (c - k) b (toggle c (b div 2) (s\<lparr>mem := m\<rparr>))
                 in Some (Some x, s1\<lparr>g_free_pages := g_free_pages s1 - of_nat (order_to_pages k)\<rparr>)))"

definition pmm_mark_allocated :: "nat \<Rightarrow> nat \<Rightarrow> pmm \<Rightarrow> pmm" where
  "pmm_mark_allocated x k s = s\<lparr>g_frame_refcount :=
     (\<lambda>f. if x \<le> f \<and> f < x + order_to_pages k \<and> f < g_total_frames s then 1 else g_frame_refcount s f)\<rparr>"

section \<open>Freeing\<close>

primrec merge_up :: "nat \<Rightarrow> nat \<Rightarrow> nat \<Rightarrow> nat \<Rightarrow> pmm \<Rightarrow> pmm option" where
  "merge_up 0 k b x s = Some (push_block k x s)"
| "merge_up (Suc n) k b x s =
     (let p = b div 2
      in if p \<ge> (g_buddy_blocks s k + 1) div 2 then Some (push_block k x s)
         else
           (let s1 = toggle k p s
            in if bit_test (g_buddy_coalesce s1 k) p then Some (push_block k x s1)
               else case free_list_remove k ((b XOR 1) * 2 ^ k) (mem s1) of
                   None \<Rightarrow> None
                 | Some m \<Rightarrow> merge_up n (k + 1) (b div 2) (unset_bit k x) (s1\<lparr>mem := m\<rparr>)))"

definition clear_refs :: "nat \<Rightarrow> nat \<Rightarrow> pmm \<Rightarrow> pmm" where
  "clear_refs x k s = s\<lparr>g_frame_refcount :=
     (\<lambda>f. if x \<le> f \<and> f < x + order_to_pages k \<and> f < g_total_frames s then 0 else g_frame_refcount s f)\<rparr>"

definition pmm_buddy_free_locked :: "nat \<Rightarrow> nat \<Rightarrow> pmm \<Rightarrow> pmm option" where
  "pmm_buddy_free_locked x k s =
     (if k > MAX_ORDER then Some s
      else if x \<ge> g_total_frames s then Some s
      else
        (let s1 = clear_refs x k s; b = x div 2 ^ k
         in if b \<ge> g_buddy_blocks s1 k then Some s1 else merge_up (MAX_ORDER - k) k b x s1))"

definition pmm_buddy_free_locked_for_pcp :: "nat \<Rightarrow> nat \<Rightarrow> pmm \<Rightarrow> pmm option" where
  "pmm_buddy_free_locked_for_pcp x k s =
     map_option (\<lambda>s1. s1\<lparr>g_free_pages := g_free_pages s1 + of_nat (order_to_pages k)\<rparr>)
       (pmm_buddy_free_locked x k s)"

section \<open>Reference and pin counts\<close>

definition pmm_ref_inc :: "nat \<Rightarrow> pmm \<Rightarrow> pmm" where
  "pmm_ref_inc f s =
     (if f \<ge> g_total_frames s then s
      else s\<lparr>g_frame_refcount := (g_frame_refcount s)(f := g_frame_refcount s f + 1)\<rparr>)"

definition pmm_ref_dec :: "nat \<Rightarrow> pmm \<Rightarrow> pmm option" where
  "pmm_ref_dec f s =
     (if f \<ge> g_total_frames s then Some s
      else if g_frame_refcount s f = 0 then Some s
      else
        (let s1 = s\<lparr>g_frame_refcount := (g_frame_refcount s)(f := g_frame_refcount s f - 1)\<rparr>
         in if g_frame_refcount s1 f = 0 then
              (if g_frame_pincount s1 f > 0 then Some s1
               else map_option (\<lambda>s2. s2\<lparr>g_free_pages := g_free_pages s2 + 1\<rparr>)
                      (pmm_buddy_free_locked f 0 s1))
            else Some s1))"

definition pmm_ref_zero :: "nat \<Rightarrow> pmm \<Rightarrow> pmm" where
  "pmm_ref_zero f s =
     (if f \<ge> g_total_frames s then s else s\<lparr>g_frame_refcount := (g_frame_refcount s)(f := 0)\<rparr>)"

definition pmm_ref_get :: "nat \<Rightarrow> pmm \<Rightarrow> u32" where
  "pmm_ref_get f s = (if f \<ge> g_total_frames s then 0 else g_frame_refcount s f)"

definition pmm_pin :: "nat \<Rightarrow> pmm \<Rightarrow> pmm" where
  "pmm_pin f s =
     (if f \<ge> g_total_frames s then s
      else s\<lparr>g_frame_pincount := (g_frame_pincount s)(f := g_frame_pincount s f + 1)\<rparr>)"

definition pmm_unpin :: "nat \<Rightarrow> pmm \<Rightarrow> pmm" where
  "pmm_unpin f s =
     (if f \<ge> g_total_frames s then s
      else if g_frame_pincount s f > 0
           then s\<lparr>g_frame_pincount := (g_frame_pincount s)(f := g_frame_pincount s f - 1)\<rparr>
           else s)"

definition pmm_pin_get :: "nat \<Rightarrow> pmm \<Rightarrow> u16" where
  "pmm_pin_get f s = (if f \<ge> g_total_frames s then 0 else g_frame_pincount s f)"

definition pmm_free_ratio_bp :: "pmm \<Rightarrow> nat" where
  "pmm_free_ratio_bp s =
     (let f = unat (g_free_pages s)
      in if g_total_frames s = 0 then 10000
         else if f \<ge> g_total_frames s then 10000
         else (f * 10000) div g_total_frames s)"

section \<open>Blocks\<close>

definition blk :: "nat \<Rightarrow> nat \<Rightarrow> nat set" where
  "blk k x = {x..<x + 2 ^ k}"

text \<open>The frames of the blocks on the lists.\<close>

definition free_frames :: "(nat \<Rightarrow> nat list) \<Rightarrow> nat set" where
  "free_frames L = (\<Union>k. \<Union>x \<in> set (L k). blk k x)"

definition placed :: "nat \<Rightarrow> nat \<Rightarrow> nat \<Rightarrow> bool" where
  "placed n k x \<longleftrightarrow> k \<le> MAX_ORDER \<and> 2 ^ k dvd x \<and> x + 2 ^ k \<le> n"

definition one_of_pair :: "(nat \<Rightarrow> nat list) \<Rightarrow> nat \<Rightarrow> nat \<Rightarrow> bool" where
  "one_of_pair L k p \<longleftrightarrow> (2 * p * 2 ^ k \<in> set (L k)) \<noteq> ((2 * p + 1) * 2 ^ k \<in> set (L k))"

definition blocks_ok :: "nat \<Rightarrow> (nat \<Rightarrow> nat list) \<Rightarrow> bool" where
  "blocks_ok n L \<longleftrightarrow>
     (\<forall>k. \<forall>x \<in> set (L k). placed n k x) \<and>
     (\<forall>k j. \<forall>x \<in> set (L k). \<forall>y \<in> set (L j). blk k x \<inter> blk j y \<noteq> {} \<longrightarrow> k = j \<and> x = y) \<and>
     (\<forall>k p. k < MAX_ORDER \<longrightarrow> \<not> (2 * p * 2 ^ k \<in> set (L k) \<and> (2 * p + 1) * 2 ^ k \<in> set (L k)))"

definition buddy_inv :: "pmm \<Rightarrow> (nat \<Rightarrow> nat list) \<Rightarrow> bool" where
  "buddy_inv s L \<longleftrightarrow> lists_of (mem s) L \<and> g_total_frames s \<le> g_phys_ceiling (mem s) \<and>
     blocks_ok (g_total_frames s) L \<and>
     (\<forall>k p. k < MAX_ORDER \<longrightarrow> bit_test (g_buddy_coalesce s k) p = one_of_pair L k p)"

text \<open>A block in nobody's hands but the caller's.\<close>

definition held :: "pmm \<Rightarrow> (nat \<Rightarrow> nat list) \<Rightarrow> nat \<Rightarrow> nat \<Rightarrow> bool" where
  "held s L k x \<longleftrightarrow> placed (g_total_frames s) k x \<and> blk k x \<inter> free_frames L = {}"

section \<open>Lemmas\<close>

lemma bit_test_iff: "bit_test ws i = bit (ws (i div 64)) (i mod 64)"
  by (simp add: bit_test_def bit_mask_def word_index_def and_exp_eq_0_iff_not_bit)

lemma bit_test_toggle: "bit_test (bit_toggle ws i) j = (bit_test ws j \<noteq> (i = j))"
proof -
  have eq: "i = j \<longleftrightarrow> i div 64 = j div 64 \<and> i mod 64 = j mod 64"
    by (metis div_mult_mod_eq)
  show ?thesis
    by (auto simp: bit_test_iff bit_toggle_def word_index_def bit_mask_def bit_xor_iff bit_exp_iff eq)
qed

subsection \<open>Arithmetic of aligned blocks\<close>

lemma blk_nonempty [simp]: "blk k x \<noteq> {}"
  by (simp add: blk_def)

lemma in_blk [simp]: "f \<in> blk k x \<longleftrightarrow> x \<le> f \<and> f < x + 2 ^ k"
  by (auto simp: blk_def)

lemma dvd_pow: "k \<le> j \<Longrightarrow> (2 :: nat) ^ j dvd x \<Longrightarrow> 2 ^ k dvd x"
  by (meson dvd_trans le_imp_power_dvd)

text \<open>Aligned blocks are nested or disjoint.\<close>

lemma blk_div: "2 ^ k dvd x \<Longrightarrow> f \<in> blk k x \<longleftrightarrow> f div 2 ^ k = x div 2 ^ k" for x f :: nat
proof
  assume "2 ^ k dvd x" and "f \<in> blk k x"
  then obtain b where b: "x = b * 2 ^ k" "b * 2 ^ k \<le> f" "f < (b + 1) * 2 ^ k"
    by (auto elim!: dvdE simp: mult.commute)
  then have "f div 2 ^ k = b"
    by (intro div_nat_eqI) (simp_all add: algebra_simps)
  with b(1) show "f div 2 ^ k = x div 2 ^ k"
    by simp
next
  assume d: "2 ^ k dvd x" and "f div 2 ^ k = x div 2 ^ k"
  then have "f div 2 ^ k * 2 ^ k = x"
    by simp
  then show "f \<in> blk k x"
    by (metis add.commute add_less_cancel_right div_mult_mod_eq in_blk le_add1 mod_less_divisor zero_less_numeral zero_less_power)
qed

lemma blk_nest:
  assumes "k \<le> j" and "2 ^ k dvd x" and "2 ^ j dvd y" and "blk k x \<inter> blk j y \<noteq> {}"
  shows "blk k x \<subseteq> blk j y"
proof
  fix f
  assume f: "f \<in> blk k x"
  obtain g where g: "g \<in> blk k x" "g \<in> blk j y"
    using assms(4) by blast
  have up: "h div 2 ^ j = h div 2 ^ k div 2 ^ (j - k)" for h :: nat
    using assms(1) by (metis div_mult2_eq le_add_diff_inverse power_add)
  have "f div 2 ^ j = g div 2 ^ j"
    using f g(1) assms(2) by (simp only: up blk_div)
  with g(2) assms(3) show "f \<in> blk j y"
    by (simp only: blk_div)
qed

lemma blk_same:
  assumes "2 ^ k dvd x" and "2 ^ k dvd y" and "blk k x \<inter> blk k y \<noteq> {}"
  shows "x = y"
proof -
  have "x \<in> blk k x"
    by simp
  then have "x \<in> blk k y"
    using blk_nest [OF order_refl assms] by blast
  then have "x div 2 ^ k = y div 2 ^ k"
    using assms(2) by (simp only: blk_div)
  with assms(1,2) show ?thesis
    by (metis dvd_div_mult_self)
qed

lemma blk_subset_order: "blk k x \<subseteq> blk j y \<Longrightarrow> k \<le> j"
proof -
  assume "blk k x \<subseteq> blk j y"
  then have "card (blk k x) \<le> card (blk j y)"
    by (intro card_mono) (simp_all add: blk_def)
  then show ?thesis
    by (simp add: blk_def)
qed

lemma blk_split: "blk (Suc k) x = blk k x \<union> blk k (x + 2 ^ k)" "blk k x \<inter> blk k (x + 2 ^ k) = {}"
  by (auto simp: blk_def)

subsection \<open>The two changes of the lists\<close>

lemma blocks_okD:
  assumes "blocks_ok n L"
  shows "x \<in> set (L k) \<Longrightarrow> placed n k x"
    "x \<in> set (L k) \<Longrightarrow> y \<in> set (L j) \<Longrightarrow> blk k x \<inter> blk j y \<noteq> {} \<Longrightarrow> k = j \<and> x = y"
    "k < MAX_ORDER \<Longrightarrow> \<not> (2 * p * 2 ^ k \<in> set (L k) \<and> (2 * p + 1) * 2 ^ k \<in> set (L k))"
  using assms unfolding blocks_ok_def by blast+

lemma in_free_frames: "f \<in> free_frames L \<longleftrightarrow> (\<exists>k. \<exists>x \<in> set (L k). f \<in> blk k x)"
  by (auto simp: free_frames_def)

lemma blk_free: "x \<in> set (L k) \<Longrightarrow> blk k x \<subseteq> free_frames L"
  unfolding free_frames_def by blast

lemma free_frames_disjoint:
  "blk k x \<inter> free_frames L = {} \<longleftrightarrow> (\<forall>j. \<forall>y \<in> set (L j). blk k x \<inter> blk j y = {})"
  by (auto simp: free_frames_def)

lemma free_frames_push: "free_frames (L(k := x # L k)) = blk k x \<union> free_frames L"
proof (intro equalityI subsetI)
  fix f
  assume "f \<in> blk k x \<union> free_frames L"
  then obtain j y where "f \<in> blk j y" "j = k \<and> y = x \<or> y \<in> set (L j)"
    unfolding Un_iff in_free_frames by blast
  then show "f \<in> free_frames (L(k := x # L k))"
    unfolding in_free_frames by (intro exI [of _ j] bexI [of _ y]) auto
qed (auto simp: in_free_frames split: if_splits)

lemma free_frames_remove:
  assumes "blocks_ok n L" and "x \<in> set (L k)" and "distinct (L k)"
  shows "free_frames (L(k := remove1 x (L k))) = free_frames L - blk k x"
proof (intro equalityI subsetI)
  fix f
  assume "f \<in> free_frames (L(k := remove1 x (L k)))"
  then obtain j y where j: "y \<in> set ((L(k := remove1 x (L k))) j)" "f \<in> blk j y"
    unfolding in_free_frames by blast
  then have "y \<in> set (L j)" "\<not> (j = k \<and> y = x)"
    using assms(3) by (auto split: if_splits dest: set_remove1_subset [THEN subsetD])
  moreover have "f \<notin> blk k x"
    using blocks_okD(2) [OF assms(1) \<open>y \<in> set (L j)\<close> assms(2)] calculation(2) j(2) by blast
  ultimately show "f \<in> free_frames L - blk k x"
    using j(2) unfolding Diff_iff in_free_frames by blast
next
  fix f
  assume "f \<in> free_frames L - blk k x"
  then obtain j y where "y \<in> set (L j)" "f \<in> blk j y" "\<not> (j = k \<and> y = x)"
    unfolding Diff_iff in_free_frames by blast
  then show "f \<in> free_frames (L(k := remove1 x (L k)))"
    unfolding in_free_frames using assms(3) by (intro exI [of _ j] bexI [of _ y]) auto
qed

text \<open>The buddy of a block, and the pair they form.\<close>

definition buddy :: "nat \<Rightarrow> nat \<Rightarrow> nat" where
  "buddy k x = (if even (x div 2 ^ k) then x + 2 ^ k else x - 2 ^ k)"

lemma pair_cases:
  assumes "2 ^ k dvd x"
  obtains (left) p where "x = 2 * p * 2 ^ k" "x div 2 ^ k div 2 = p" "buddy k x = (2 * p + 1) * 2 ^ k"
  | (right) p where "x = (2 * p + 1) * 2 ^ k" "x div 2 ^ k div 2 = p" "buddy k x = 2 * p * 2 ^ k"
proof -
  obtain b where b: "x = b * 2 ^ k"
    using assms by (auto elim: dvdE simp: mult.commute)
  show thesis
  proof (cases "even b")
    case True
    then obtain p where "b = 2 * p"
      by (auto elim: evenE)
    with b show thesis
      by (intro left [of p]) (auto simp: buddy_def algebra_simps)
  next
    case False
    then obtain p where "b = 2 * p + 1"
      by (auto elim: oddE)
    with b show thesis
      by (intro right [of p]) (auto simp: buddy_def algebra_simps)
  qed
qed

lemma pair_member:
  fixes x p :: nat
  assumes "2 ^ k dvd x"
  shows "x = 2 * p * 2 ^ k \<or> x = (2 * p + 1) * 2 ^ k \<longleftrightarrow> p = x div 2 ^ k div 2"
proof -
  obtain b where b: "x = b * 2 ^ k"
    using assms by (auto elim: dvdE simp: mult.commute)
  have "x = 2 * p * 2 ^ k \<or> x = (2 * p + 1) * 2 ^ k \<longleftrightarrow> b = 2 * p \<or> b = 2 * p + 1"
    unfolding b mult_cancel2 by simp
  also have "\<dots> \<longleftrightarrow> p = b div 2"
    by presburger
  finally show ?thesis
    by (simp add: b)
qed

lemma pair_other:
  fixes x p :: nat
  assumes "2 ^ k dvd x" and "p \<noteq> x div 2 ^ k div 2"
  shows "2 * p * 2 ^ k \<noteq> x" "(2 * p + 1) * 2 ^ k \<noteq> x"
  using pair_member [OF assms(1), of p] assms(2) by auto

lemma one_of_pair_push:
  assumes "2 ^ k dvd x" and "x \<notin> set (L k)"
  shows "one_of_pair (L(k := x # L k)) j p = (one_of_pair L j p \<noteq> (j = k \<and> p = x div 2 ^ k div 2))"
proof (cases "j = k \<and> p = x div 2 ^ k div 2")
  case True
  from assms(1) show ?thesis
    by (cases rule: pair_cases) (use True assms(2) in \<open>auto simp: one_of_pair_def\<close>)
next
  case False
  then show ?thesis
    using pair_other [OF assms(1), of p] by (cases "j = k") (auto simp: one_of_pair_def)
qed

lemma one_of_pair_remove:
  assumes "2 ^ k dvd x" and "x \<in> set (L k)" and "distinct (L k)"
  shows "one_of_pair (L(k := remove1 x (L k))) j p = (one_of_pair L j p \<noteq> (j = k \<and> p = x div 2 ^ k div 2))"
proof (cases "j = k \<and> p = x div 2 ^ k div 2")
  case True
  from assms(1) show ?thesis
    by (cases rule: pair_cases) (use True assms(2,3) in \<open>auto simp: one_of_pair_def\<close>)
next
  case False
  then show ?thesis
    using pair_other [OF assms(1), of p] assms(3) by (cases "j = k") (auto simp: one_of_pair_def)
qed

lemma blocks_ok_push:
  assumes ok: "blocks_ok n L" and x: "placed n k x" "blk k x \<inter> free_frames L = {}"
    and b: "k < MAX_ORDER \<Longrightarrow> buddy k x \<notin> set (L k)"
  shows "blocks_ok n (L(k := x # L k))"
proof -
  let ?L = "L(k := x # L k)"
  have al: "2 ^ k dvd x"
    using x(1) by (simp add: placed_def)
  have mem: "y \<in> set (?L j) \<longleftrightarrow> j = k \<and> y = x \<or> y \<in> set (L j)" for j y
    by auto
  have dis: "y \<in> set (L j) \<Longrightarrow> blk k x \<inter> blk j y = {}" "y \<in> set (L j) \<Longrightarrow> blk j y \<inter> blk k x = {}" for j y
    using x(2) unfolding free_frames_disjoint by blast+
  have "placed n j y" if "y \<in> set (?L j)" for j y
    using that x(1) blocks_okD(1) [OF ok] unfolding mem by blast
  moreover have "i = j \<and> y = z" if "y \<in> set (?L i)" "z \<in> set (?L j)" "blk i y \<inter> blk j z \<noteq> {}" for i j y z
    using that dis blocks_okD(2) [OF ok] unfolding mem by blast
  moreover have "\<not> (2 * p * 2 ^ j \<in> set (?L j) \<and> (2 * p + 1) * 2 ^ j \<in> set (?L j))" if "j < MAX_ORDER" for j p
  proof (cases "j = k \<and> p = x div 2 ^ k div 2")
    case True
    with that have "buddy k x \<notin> set (L k)"
      using b by simp
    with al True show ?thesis
      by (cases rule: pair_cases) auto
  next
    case False
    then show ?thesis
      using blocks_okD(3) [OF ok that, of p] pair_other [OF al, of p] unfolding mem by blast
  qed
  ultimately show ?thesis
    unfolding blocks_ok_def by blast
qed

lemma blocks_ok_remove:
  assumes "blocks_ok n L"
  shows "blocks_ok n (L(k := remove1 x (L k)))"
proof -
  have "y \<in> set (L j)" if "y \<in> set ((L(k := remove1 x (L k))) j)" for j y
    using that by (auto split: if_splits dest: set_remove1_subset [THEN subsetD])
  then show ?thesis
    using assms unfolding blocks_ok_def by blast
qed

lemma push_block_simps [simp]:
  "g_total_frames (push_block k x s) = g_total_frames s"
  "g_buddy_coalesce (push_block k x s) = g_buddy_coalesce s"
  "mem (push_block k x s) = free_list_push k x (mem s)"
  "g_free_pages (push_block k x s) = g_free_pages s"
  "g_frame_refcount (push_block k x s) = g_frame_refcount s"
  by (simp_all add: push_block_def)

lemma toggle_simps [simp]:
  "g_total_frames (toggle k p s) = g_total_frames s" "mem (toggle k p s) = mem s"
  "g_free_pages (toggle k p s) = g_free_pages s" "g_frame_refcount (toggle k p s) = g_frame_refcount s"
  "bit_test (g_buddy_coalesce (toggle k p s) j) q = (bit_test (g_buddy_coalesce s j) q \<noteq> (j = k \<and> p = q))"
  by (auto simp: toggle_def bit_test_toggle)

lemma buddy_invD:
  assumes "buddy_inv s L"
  shows "lists_of (mem s) L" "blocks_ok (g_total_frames s) L" "g_total_frames s \<le> g_phys_ceiling (mem s)"
    "k < MAX_ORDER \<Longrightarrow> bit_test (g_buddy_coalesce s k) p = one_of_pair L k p" "distinct (L k)"
  using assms by (auto simp: buddy_inv_def dest: lists_ofD(2))

lemma held_not_listed:
  assumes "held s L k x"
  shows "x \<notin> set (L j)"
proof
  assume "x \<in> set (L j)"
  moreover have "x \<in> blk k x" "x \<in> blk j x"
    by simp_all
  ultimately show False
    using assms unfolding held_def free_frames_disjoint by blast
qed

lemma placed_less: "placed n k x \<Longrightarrow> x < n"
proof -
  assume "placed n k x"
  then have "x + 2 ^ k \<le> n"
    by (simp add: placed_def)
  moreover have "x < x + 2 ^ k"
    by simp
  ultimately show ?thesis
    by (rule less_le_trans [rotated])
qed

lemma push_mem:
  assumes inv: "buddy_inv s L" and h: "held s L k x"
  shows "lists_of (free_list_push k x (mem s)) (L(k := x # L k))"
proof -
  have "x < g_total_frames s"
    using h placed_less unfolding held_def by blast
  then show ?thesis
    using buddy_invD(1,3) [OF inv] held_not_listed [OF h] by (intro overlay.push_rel) auto
qed

lemma push_inv:
  assumes inv: "buddy_inv s L" and h: "held s L k x" and b: "buddy k x \<notin> set (L k)"
  shows "buddy_inv (toggle k (x div 2 ^ k div 2) (push_block k x s)) (L(k := x # L k))"
proof -
  have al: "2 ^ k dvd x" and pl: "placed (g_total_frames s) k x" "blk k x \<inter> free_frames L = {}"
    using h by (auto simp: held_def placed_def)
  have nl: "x \<notin> set (L k)"
    by (rule held_not_listed [OF h])
  have "blocks_ok (g_total_frames s) (L(k := x # L k))"
    using blocks_ok_push [OF buddy_invD(2) [OF inv] pl] b by blast
  then show ?thesis
    using push_mem [OF inv h] buddy_invD(3,4) [OF inv]
    by (auto simp: buddy_inv_def one_of_pair_push [of k x L, OF al nl] overlay.push_limit)
qed

lemma push_inv_top:
  assumes inv: "buddy_inv s L" and h: "held s L MAX_ORDER x"
  shows "buddy_inv (push_block MAX_ORDER x s) (L(MAX_ORDER := x # L MAX_ORDER))"
proof -
  have al: "2 ^ MAX_ORDER dvd x" and pl: "placed (g_total_frames s) MAX_ORDER x" "blk MAX_ORDER x \<inter> free_frames L = {}"
    using h unfolding held_def placed_def by blast+
  have "one_of_pair (L(MAX_ORDER := x # L MAX_ORDER)) k p = one_of_pair L k p" if "k < MAX_ORDER" for k p
    using that by (simp add: one_of_pair_def)
  moreover have "blocks_ok (g_total_frames s) (L(MAX_ORDER := x # L MAX_ORDER))"
    using blocks_ok_push [OF buddy_invD(2) [OF inv] pl] by blast
  ultimately show ?thesis
    using push_mem [OF inv h] buddy_invD(3,4) [OF inv] by (auto simp: buddy_inv_def overlay.push_limit)
qed

lemma remove_inv:
  assumes inv: "buddy_inv s L" and x: "x \<in> set (L k)"
    and m: "lists_of m (L(k := remove1 x (L k)))" "g_phys_ceiling m = g_phys_ceiling (mem s)"
  shows "buddy_inv (toggle k (x div 2 ^ k div 2) (s\<lparr>mem := m\<rparr>)) (L(k := remove1 x (L k)))"
proof -
  have "2 ^ k dvd x"
    using blocks_okD(1) [OF buddy_invD(2) [OF inv] x] by (simp add: placed_def)
  note pair = one_of_pair_remove [of k x L, OF this x buddy_invD(5) [OF inv]]
  show ?thesis
    using m blocks_ok_remove [OF buddy_invD(2) [OF inv]] buddy_invD(3,4) [OF inv]
    by (auto simp: buddy_inv_def pair)
qed

subsection \<open>Splitting\<close>

lemma held_halves:
  assumes "held s L (Suc k) x"
  shows "held s L k x" "held s L k (x + 2 ^ k)" "buddy k (x + 2 ^ k) = x"
    "(x + 2 ^ k) div 2 ^ k div 2 = x div 2 ^ Suc k"
proof -
  have pl: "Suc k \<le> MAX_ORDER" "2 ^ Suc k dvd x" "x + 2 ^ Suc k \<le> g_total_frames s"
    and dis: "blk (Suc k) x \<inter> free_frames L = {}"
    using assms unfolding held_def placed_def by blast+
  obtain b where b: "x = b * 2 ^ Suc k"
    using pl(2) by (auto elim: dvdE simp: mult.commute)
  have "2 ^ k dvd x"
    by (rule dvd_pow [OF _ pl(2)]) simp
  with pl dis show "held s L k x" "held s L k (x + 2 ^ k)"
    unfolding held_def placed_def blk_split by auto
  have "(x + 2 ^ k) div 2 ^ k = 2 * b + 1"
    by (simp add: b)
  then show "(x + 2 ^ k) div 2 ^ k div 2 = x div 2 ^ Suc k" "buddy k (x + 2 ^ k) = x"
    by (simp_all add: b buddy_def)
qed

lemma held_push:
  assumes "held s L k x" and "blk k x \<inter> blk j y = {}"
  shows "held (toggle i p (push_block j y s)) (L(j := y # L j)) k x"
  using assms by (auto simp: held_def free_frames_push)

lemma split_down_inv:
  assumes "buddy_inv s L" and "held s L (k + n) x" and "b = x div 2 ^ (k + n)"
  shows "\<exists>L'. buddy_inv (split_down k n b s) L' \<and> held (split_down k n b s) L' k x \<and>
    free_frames L' = free_frames L \<union> (blk (k + n) x - blk k x) \<and>
    g_total_frames (split_down k n b s) = g_total_frames s \<and>
    g_free_pages (split_down k n b s) = g_free_pages s \<and>
    g_frame_refcount (split_down k n b s) = g_frame_refcount s"
  using assms
proof (induction n arbitrary: b s L)
  case 0
  then show ?case
    by (auto intro!: exI [of _ L])
next
  case (Suc n)
  let ?c = "k + n" and ?y = "x + 2 ^ (k + n)"
  have h: "held s L (Suc ?c) x"
    using Suc.prems(2) by simp
  note hh = held_halves [OF h]
  have b: "(2 * b + 1) * 2 ^ ?c = ?y" "(2 * b + 1) div 2 = x div 2 ^ Suc ?c" "2 * b = x div 2 ^ ?c"
  proof -
    obtain a where "x = a * 2 ^ Suc ?c"
      using h unfolding held_def placed_def by (metis dvd_def mult.commute)
    then show "(2 * b + 1) * 2 ^ ?c = ?y" "(2 * b + 1) div 2 = x div 2 ^ Suc ?c" "2 * b = x div 2 ^ ?c"
      using Suc.prems(3) by (simp_all add: algebra_simps)
  qed
  define s1 where "s1 = toggle ?c ((2 * b + 1) div 2) (push_block ?c ?y s)"
  define L1 where "L1 = L(?c := ?y # L ?c)"
  have sp: "split_down k (Suc n) b s = split_down k n (2 * b) s1"
    by (simp only: split_down.simps Let_def b(1) s1_def)
  have eq: "g_total_frames s1 = g_total_frames s" "g_free_pages s1 = g_free_pages s"
    "g_frame_refcount s1 = g_frame_refcount s"
    by (simp_all add: s1_def)
  have nb: "buddy ?c ?y \<notin> set (L ?c)"
    using held_not_listed [OF hh(1)] hh(3) by simp
  have i: "buddy_inv s1 L1"
    using push_inv [OF Suc.prems(1) hh(2) nb] unfolding s1_def L1_def b(2) hh(4) .
  have h1: "held s1 L1 ?c x"
    unfolding s1_def L1_def by (rule held_push [OF hh(1) blk_split(2)])
  have f1: "free_frames L1 = blk ?c ?y \<union> free_frames L"
    unfolding L1_def by (rule free_frames_push)
  obtain L' where L': "buddy_inv (split_down k n (2 * b) s1) L'" "held (split_down k n (2 * b) s1) L' k x"
    "free_frames L' = free_frames L1 \<union> (blk ?c x - blk k x)"
    "g_total_frames (split_down k n (2 * b) s1) = g_total_frames s1"
    "g_free_pages (split_down k n (2 * b) s1) = g_free_pages s1"
    "g_frame_refcount (split_down k n (2 * b) s1) = g_frame_refcount s1"
    using Suc.IH [OF i h1 b(3)] by blast
  have sub: "blk k x \<inter> blk ?c ?y = {}"
  proof -
    have "(2 :: nat) ^ k \<le> 2 ^ ?c"
      by simp
    then show ?thesis
      by (auto simp: blk_def)
  qed
  have "free_frames L' = free_frames L \<union> (blk (k + Suc n) x - blk k x)"
    using sub unfolding L'(3) f1 add_Suc_right blk_split(1) by blast
  with L' eq sp show ?case
    by (intro exI [of _ L']) simp
qed

subsection \<open>Allocation\<close>

lemma find_Some:
  assumes "List.find P [k..<n] = Some c"
  shows "P c" "k \<le> c" "c < n"
  using assms by (auto simp: find_Some_iff)

lemma list_order_bound: "buddy_inv s L \<Longrightarrow> x \<in> set (L c) \<Longrightarrow> c \<le> MAX_ORDER"
  using blocks_okD(1) [OF buddy_invD(2)] by (auto simp: placed_def)

lemma pop_inv:
  assumes inv: "buddy_inv s L" and c: "L c = x # xs"
  obtains m where "free_list_pop c (mem s) = Some (Some x, m)"
    "buddy_inv (toggle c (x div 2 ^ c div 2) (s\<lparr>mem := m\<rparr>)) (L(c := xs))"
    "held (toggle c (x div 2 ^ c div 2) (s\<lparr>mem := m\<rparr>)) (L(c := xs)) c x"
    "free_frames (L(c := xs)) = free_frames L - blk c x" "blk c x \<subseteq> free_frames L"
proof -
  obtain m where m: "free_list_pop c (mem s) = Some (Some x, m)" "lists_of m (L(c := xs))"
    "g_phys_ceiling m = g_phys_ceiling (mem s)"
    using overlay.pop_rel [OF buddy_invD(1) [OF inv] c] by blast
  have x: "x \<in> set (L c)" and xs: "remove1 x (L c) = xs"
    using c by simp_all
  have ff: "free_frames (L(c := xs)) = free_frames L - blk c x"
    using free_frames_remove [OF buddy_invD(2) [OF inv] x buddy_invD(5) [OF inv]] by (simp only: xs)
  moreover have "blk c x \<subseteq> free_frames L"
    using x by (auto simp: free_frames_def)
  moreover have "placed (g_total_frames s) c x"
    by (rule blocks_okD(1) [OF buddy_invD(2) [OF inv] x])
  ultimately show thesis
    using that [OF m(1)] remove_inv [OF inv x] m(2,3) by (simp add: xs held_def)
qed

lemma alloc_spec:
  assumes inv: "buddy_inv s L" and k: "k \<le> MAX_ORDER"
  shows "(pmm_buddy_alloc_locked k s = Some (None, s) \<and> (\<forall>c. k \<le> c \<longrightarrow> L c = [])) \<or>
    (\<exists>x s' L'. pmm_buddy_alloc_locked k s = Some (Some x, s') \<and> buddy_inv s' L' \<and> held s' L' k x \<and>
       blk k x \<subseteq> free_frames L \<and> free_frames L' = free_frames L - blk k x \<and>
       g_total_frames s' = g_total_frames s \<and> g_frame_refcount s' = g_frame_refcount s \<and>
       g_free_pages s' = g_free_pages s - of_nat (2 ^ k))"
proof -
  let ?P = "\<lambda>c. g_free_lists (mem s) c \<noteq> None"
  have P: "?P c \<longleftrightarrow> L c \<noteq> []" for c
    using head_of [OF buddy_invD(1) [OF inv], of c] by (simp split: list.splits)
  show ?thesis
  proof (cases "List.find ?P [k..<Suc MAX_ORDER]")
    case None
    then have small: "L c = []" if "k \<le> c" "c \<le> MAX_ORDER" for c
      using that P [of c] by (auto simp: find_None_iff)
    have "L c = []" if "k \<le> c" for c
      using that small [of c] list_order_bound [OF inv, of "hd (L c)" c] by (cases "L c") auto
    with None k show ?thesis
      by (simp add: pmm_buddy_alloc_locked_def)
  next
    case (Some c)
    note c = find_Some [OF Some]
    then obtain x xs where L: "L c = x # xs"
      using P by (cases "L c") auto
    from inv L obtain m where m: "free_list_pop c (mem s) = Some (Some x, m)"
      "buddy_inv (toggle c (x div 2 ^ c div 2) (s\<lparr>mem := m\<rparr>)) (L(c := xs))"
      "held (toggle c (x div 2 ^ c div 2) (s\<lparr>mem := m\<rparr>)) (L(c := xs)) c x"
      "free_frames (L(c := xs)) = free_frames L - blk c x" "blk c x \<subseteq> free_frames L"
      by (rule pop_inv)
    let ?s1 = "toggle c (x div 2 ^ c div 2) (s\<lparr>mem := m\<rparr>)"
    let ?s2 = "split_down k (c - k) (x div 2 ^ c) ?s1"
    have kc: "k + (c - k) = c"
      using c(2) by simp
    obtain L' where L': "buddy_inv ?s2 L'" "held ?s2 L' k x"
      "free_frames L' = free_frames (L(c := xs)) \<union> (blk c x - blk k x)"
      "g_total_frames ?s2 = g_total_frames ?s1" "g_free_pages ?s2 = g_free_pages ?s1"
      "g_frame_refcount ?s2 = g_frame_refcount ?s1"
      using split_down_inv [of ?s1 "L(c := xs)" k "c - k" x "x div 2 ^ c"] m(2,3) unfolding kc by blast
    define s' where "s' = ?s2\<lparr>g_free_pages := g_free_pages ?s2 - of_nat (order_to_pages k)\<rparr>"
    have res: "pmm_buddy_alloc_locked k s = Some (Some x, s')"
      using k Some m(1) unfolding pmm_buddy_alloc_locked_def s'_def by (simp add: Let_def)
    have eq: "buddy_inv s' L'" "held s' L' k x" "g_total_frames s' = g_total_frames s"
      "g_frame_refcount s' = g_frame_refcount s" "g_free_pages s' = g_free_pages s - of_nat (2 ^ k)"
      using L' by (simp_all add: s'_def buddy_inv_def held_def order_to_pages_def)
    have pl: "2 ^ c dvd x"
      using m(3) by (simp add: held_def placed_def)
    have sub: "blk k x \<subseteq> blk c x"
    proof -
      have "(2 :: nat) ^ k \<le> 2 ^ c"
        using c(2) by simp
      then show ?thesis
        by (auto simp: blk_def)
    qed
    have "free_frames L' = free_frames L - blk k x"
      using sub m(5) unfolding L'(3) m(4) by blast
    with res eq sub m(5) show ?thesis
      by blast
  qed
qed

subsection \<open>Merging\<close>

lemma xor_buddy: "2 ^ k dvd x \<Longrightarrow> (x div 2 ^ k XOR 1) * 2 ^ k = buddy k x" for x :: nat
  by (erule dvdE) (auto simp: buddy_def xor_Suc_0_eq algebra_simps)

lemma unset_bit_mult: "unset_bit k (b * 2 ^ k) = 2 * (b div 2) * 2 ^ k" for b :: nat
proof (induction k)
  case (Suc k)
  have "b * 2 ^ Suc k div 2 = b * 2 ^ k" "b * 2 ^ Suc k mod 2 = 0"
    by (simp_all add: mult.left_commute [of b])
  with Suc show ?case
    by (simp only: unset_bit_Suc) simp
qed (simp add: unset_bit_0)

lemma unset_merge: "2 ^ k dvd x \<Longrightarrow> unset_bit k x = 2 * (x div 2 ^ k div 2) * 2 ^ k" for x :: nat
  using unset_bit_mult [of k "x div 2 ^ k"] by simp

lemma merge_cases:
  assumes "2 ^ k dvd x"
  shows "x = unset_bit k x \<and> buddy k x = x + 2 ^ k \<or> buddy k x = unset_bit k x \<and> x = buddy k x + 2 ^ k"
  using assms
proof (cases rule: pair_cases)
  case (left p)
  then show ?thesis
    using unset_merge [OF assms] by (simp only: left) (simp add: algebra_simps)
next
  case (right p)
  then show ?thesis
    using unset_merge [OF assms] by (simp only: right) (simp add: algebra_simps)
qed

lemma merged_blk:
  assumes "2 ^ k dvd x"
  shows "blk (Suc k) (unset_bit k x) = blk k x \<union> blk k (buddy k x)" "blk k x \<inter> blk k (buddy k x) = {}"
    "2 ^ Suc k dvd unset_bit k x" "unset_bit k x div 2 ^ Suc k = x div 2 ^ k div 2"
    "2 ^ k dvd buddy k x" "buddy k x div 2 ^ k div 2 = x div 2 ^ k div 2"
    "unset_bit k x + 2 ^ Suc k = max x (buddy k x) + 2 ^ k"
proof -
  note u = unset_merge [OF assms]
  show "blk (Suc k) (unset_bit k x) = blk k x \<union> blk k (buddy k x)" "blk k x \<inter> blk k (buddy k x) = {}"
    "unset_bit k x + 2 ^ Suc k = max x (buddy k x) + 2 ^ k"
    using merge_cases [OF assms] blk_split [of k x] blk_split [of k "buddy k x"] by auto
  show "2 ^ Suc k dvd unset_bit k x" "unset_bit k x div 2 ^ Suc k = x div 2 ^ k div 2"
    by (simp_all add: u)
  from assms show "2 ^ k dvd buddy k x" "buddy k x div 2 ^ k div 2 = x div 2 ^ k div 2"
    by (cases rule: pair_cases; simp)+
qed

lemma pair_in_range:
  assumes "placed (g_total_frames s) k x"
  shows "x div 2 ^ k < g_buddy_blocks s k" "x div 2 ^ k div 2 < (g_buddy_blocks s k + 1) div 2"
proof -
  have "x div 2 ^ k + 1 \<le> g_total_frames s div 2 ^ k"
    using assms div_le_mono [of "x + 2 ^ k" "g_total_frames s" "2 ^ k"] by (simp add: placed_def)
  moreover have "g_total_frames s div 2 ^ k \<le> g_buddy_blocks s k"
    unfolding g_buddy_blocks_def order_to_pages_def
    by (intro div_le_mono) (use one_le_power [of "2 :: nat" k] in linarith)
  ultimately show b: "x div 2 ^ k < g_buddy_blocks s k"
    by linarith
  then show "x div 2 ^ k div 2 < (g_buddy_blocks s k + 1) div 2"
    by linarith
qed

lemma held_merge:
  assumes inv: "buddy_inv s L" and h: "held s L k x" and k: "k < MAX_ORDER" and b: "buddy k x \<in> set (L k)"
  shows "held s (L(k := remove1 (buddy k x) (L k))) (Suc k) (unset_bit k x)"
proof -
  have al: "2 ^ k dvd x" and pl: "x + 2 ^ k \<le> g_total_frames s" "blk k x \<inter> free_frames L = {}"
    using h unfolding held_def placed_def by blast+
  have "buddy k x + 2 ^ k \<le> g_total_frames s"
    using blocks_okD(1) [OF buddy_invD(2) [OF inv] b] by (simp add: placed_def)
  with pl(1) have "unset_bit k x + 2 ^ Suc k \<le> g_total_frames s"
    unfolding merged_blk(7) [OF al] by simp
  moreover have "blk (Suc k) (unset_bit k x) \<inter> (free_frames L - blk k (buddy k x)) = {}"
    using pl(2) unfolding merged_blk(1) [OF al] by blast
  ultimately show ?thesis
    using merged_blk(3) [OF al] k
    unfolding held_def placed_def free_frames_remove [OF buddy_invD(2) [OF inv] b buddy_invD(5) [OF inv]]
    by simp
qed

lemma push_toggle_commute: "push_block k x (toggle k p s) = toggle k p (push_block k x s)"
  and mem_toggle_commute: "(toggle k p s)\<lparr>mem := m\<rparr> = toggle k p (s\<lparr>mem := m\<rparr>)"
  by (simp_all add: push_block_def toggle_def)

lemma buddy_pair:
  assumes "2 ^ k dvd x" and "x \<notin> set (L k)"
  shows "one_of_pair L k (x div 2 ^ k div 2) \<longleftrightarrow> buddy k x \<in> set (L k)"
  using assms(1) by (cases rule: pair_cases) (use assms(2) in \<open>auto simp: one_of_pair_def\<close>)

definition freed :: "pmm \<Rightarrow> pmm \<Rightarrow> (nat \<Rightarrow> nat list) \<Rightarrow> nat set \<Rightarrow> bool" where
  "freed s s' L' F \<longleftrightarrow> buddy_inv s' L' \<and> free_frames L' = F \<and> g_total_frames s' = g_total_frames s \<and>
     g_free_pages s' = g_free_pages s \<and> g_frame_refcount s' = g_frame_refcount s"

lemma merge_up_inv:
  assumes "buddy_inv s L" and "held s L k x" and "k + n = MAX_ORDER" and "b = x div 2 ^ k"
  shows "\<exists>s' L'. merge_up n k b x s = Some s' \<and> freed s s' L' (free_frames L \<union> blk k x)"
  using assms
proof (induction n arbitrary: k b x s L)
  case 0
  then have k: "k = MAX_ORDER"
    by simp
  have "buddy_inv (push_block MAX_ORDER x s) (L(MAX_ORDER := x # L MAX_ORDER))"
    using push_inv_top 0(1,2) unfolding k by blast
  then show ?case
    unfolding k merge_up.simps freed_def using free_frames_push [of L MAX_ORDER x] by auto
next
  case (Suc n)
  have k: "k < MAX_ORDER"
    using Suc.prems(3) by simp
  have pl: "placed (g_total_frames s) k x" and al: "2 ^ k dvd x"
    using Suc.prems(2) unfolding held_def placed_def by blast+
  note nl = held_not_listed [OF Suc.prems(2), of k]
  let ?p = "b div 2"
  have p: "?p = x div 2 ^ k div 2" and rng: "\<not> ?p \<ge> (g_buddy_blocks s k + 1) div 2"
    using pair_in_range(2) [OF pl] Suc.prems(4) by simp_all
  have bt: "bit_test (g_buddy_coalesce (toggle k ?p s) k) ?p \<longleftrightarrow> buddy k x \<notin> set (L k)"
    using buddy_invD(4) [OF Suc.prems(1) k, of ?p] buddy_pair [of k x L, OF al nl] p by simp
  show ?case
  proof (cases "buddy k x \<in> set (L k)")
    case False
    then have "merge_up (Suc n) k b x s = Some (toggle k ?p (push_block k x s))"
      using rng bt by (simp add: Let_def push_toggle_commute)
    moreover have "freed s (toggle k ?p (push_block k x s)) (L(k := x # L k)) (free_frames L \<union> blk k x)"
      unfolding freed_def p using push_inv [OF Suc.prems(1,2) False] free_frames_push [of L k x] by auto
    ultimately show ?thesis
      by blast
  next
    case True
    obtain m where m: "free_list_remove k (buddy k x) (mem s) = Some m"
      "lists_of m (L(k := remove1 (buddy k x) (L k)))" "g_phys_ceiling m = g_phys_ceiling (mem s)"
      using overlay.remove_rel [OF buddy_invD(1) [OF Suc.prems(1)] True] by blast
    define s1 where "s1 = toggle k ?p (s\<lparr>mem := m\<rparr>)"
    define L1 where "L1 = L(k := remove1 (buddy k x) (L k))"
    have i: "buddy_inv s1 L1"
      using remove_inv [OF Suc.prems(1) True m(2,3)] unfolding merged_blk(6) [OF al] s1_def L1_def p .
    have h: "held s1 L1 (Suc k) (unset_bit k x)"
      using held_merge [OF Suc.prems(1,2) k True] by (simp add: held_def s1_def L1_def)
    have x1: "(b XOR 1) * 2 ^ k = buddy k x"
      using xor_buddy [OF al] Suc.prems(4) by simp
    have step: "merge_up (Suc n) k b x s = merge_up n (Suc k) ?p (unset_bit k x) s1"
      using rng bt True m(1) x1 by (simp add: Let_def s1_def mem_toggle_commute del: xor_Suc_0_eq)
    have n: "Suc k + n = MAX_ORDER" and q: "?p = unset_bit k x div 2 ^ Suc k"
      using Suc.prems(3) merged_blk(4) [OF al] p by simp_all
    obtain s' L' where s': "merge_up n (Suc k) ?p (unset_bit k x) s1 = Some s'"
      "freed s1 s' L' (free_frames L1 \<union> blk (Suc k) (unset_bit k x))"
      using Suc.IH [OF i h n q] by blast
    have "blk k (buddy k x) \<subseteq> free_frames L"
      using True by (auto simp: free_frames_def)
    then have "free_frames L1 \<union> blk (Suc k) (unset_bit k x) = free_frames L \<union> blk k x"
      using free_frames_remove [OF buddy_invD(2) [OF Suc.prems(1)] True buddy_invD(5) [OF Suc.prems(1)]]
      unfolding L1_def merged_blk(1) [OF al] by blast
    with s' step show ?thesis
      by (auto simp: freed_def s1_def)
  qed
qed

lemma held_clear: "held (clear_refs x k s) L j y = held s L j y"
  and inv_clear: "buddy_inv (clear_refs x k s) L = buddy_inv s L"
  and clear_simps [simp]: "g_total_frames (clear_refs x k s) = g_total_frames s"
    "g_free_pages (clear_refs x k s) = g_free_pages s"
  by (simp_all add: clear_refs_def held_def buddy_inv_def)

lemma free_spec:
  assumes inv: "buddy_inv s L" and h: "held s L k x"
  shows "\<exists>s' L'. pmm_buddy_free_locked x k s = Some s' \<and>
    freed (clear_refs x k s) s' L' (free_frames L \<union> blk k x)"
proof -
  have pl: "placed (g_total_frames s) k x"
    using h by (simp add: held_def)
  then have k: "k \<le> MAX_ORDER" "\<not> x \<ge> g_total_frames s"
    using placed_less [OF pl] by (simp_all add: placed_def)
  have "pmm_buddy_free_locked x k s = merge_up (MAX_ORDER - k) k (x div 2 ^ k) x (clear_refs x k s)"
    using k pair_in_range(1) [of "clear_refs x k s" k x] pl by (simp add: pmm_buddy_free_locked_def Let_def)
  then show ?thesis
    using merge_up_inv [of "clear_refs x k s" L k x "MAX_ORDER - k"] inv h k(1) by (simp add: held_clear inv_clear)
qed

end
