(* ===== verification/Buddy_Props.thy ===== *)
theory Buddy_Props
  imports Buddy
begin

text \<open>
  What the buddy allocator of theory Buddy guarantees: blocks handed out never overlap, the free structure is
  determined by the free frames, freeing undoes allocating, and a frame returns to the allocator
  exactly when its last reference goes and nothing pins it.
\<close>

section \<open>The free structure is canonical\<close>

text \<open>An aligned block of free frames lies inside one free block, since buddies are merged.\<close>

lemma free_block_covers:
  assumes ok: "blocks_ok n L" and "k \<le> MAX_ORDER" and "2 ^ k dvd x" and "blk k x \<subseteq> free_frames L"
  shows "\<exists>j y. y \<in> set (L j) \<and> blk k x \<subseteq> blk j y"
  using assms(2-4)
proof (induction k arbitrary: x)
  case 0
  have "x \<in> blk 0 x"
    by simp
  then obtain j y where "y \<in> set (L j)" "x \<in> blk j y"
    using 0(3) unfolding subset_iff in_free_frames by blast
  moreover have "blk 0 x = {x}"
    by (auto simp: blk_def)
  ultimately show ?case
    by (intro exI [of _ j] exI [of _ y]) simp
next
  case (Suc k)
  let ?y = "x + 2 ^ k"
  have al: "2 ^ k dvd x" "2 ^ k dvd ?y"
    using dvd_pow [OF _ Suc.prems(2), of k] by simp_all
  have sub: "blk k x \<subseteq> free_frames L" "blk k ?y \<subseteq> free_frames L"
    using Suc.prems(3) unfolding blk_split(1) by blast+
  obtain i u where u: "u \<in> set (L i)" "blk k x \<subseteq> blk i u"
    using Suc.IH [OF _ al(1) sub(1)] Suc.prems(1) by auto
  obtain j v where v: "v \<in> set (L j)" "blk k ?y \<subseteq> blk j v"
    using Suc.IH [OF _ al(2) sub(2)] Suc.prems(1) by auto
  have big: "blk (Suc k) x \<subseteq> blk l w" if w: "w \<in> set (L l)" "blk k z \<subseteq> blk l w" "z = x \<or> z = ?y" "l \<noteq> k" for l w z
  proof (rule blk_nest)
    have "k \<le> l"
      by (rule blk_subset_order [OF w(2)])
    with w(4) show "Suc k \<le> l"
      by simp
    show "2 ^ Suc k dvd x"
      by (rule Suc.prems(2))
    show "2 ^ l dvd w"
      using blocks_okD(1) [OF ok w(1)] by (simp add: placed_def)
    have "z \<in> blk k z" "blk k z \<subseteq> blk (Suc k) x"
      using w(3) unfolding blk_split(1) by auto
    with w(2) show "blk (Suc k) x \<inter> blk l w \<noteq> {}"
      by blast
  qed
  show ?case
  proof (cases "i = k \<and> j = k")
    case False
    then show ?thesis
      using big [OF u(1,2)] big [OF v(1,2)] u(1) v(1) by blast
  next
    case True
    have "2 ^ k dvd u" "2 ^ k dvd v"
      using blocks_okD(1) [OF ok u(1)] blocks_okD(1) [OF ok v(1)] True by (simp_all add: placed_def)
    then have "u = x" "v = ?y"
      using blk_same [of k u x] blk_same [of k v ?y] al u(2) v(2) True by (auto simp: Int_absorb1)
    moreover obtain p where "x = 2 * p * 2 ^ k"
      using Suc.prems(2) by (auto elim!: dvdE simp: mult_ac)
    ultimately have "2 * p * 2 ^ k \<in> set (L k)" "(2 * p + 1) * 2 ^ k \<in> set (L k)"
      using u(1) v(1) True by (auto simp: algebra_simps)
    then show ?thesis
      using blocks_okD(3) [OF ok, of k p] Suc.prems(1) by simp
  qed
qed

lemma canonical_subset:
  assumes A: "blocks_ok n A" and B: "blocks_ok n B" and eq: "free_frames A = free_frames B" and x: "x \<in> set (A k)"
  shows "x \<in> set (B k)"
proof -
  have pl: "placed n k x"
    by (rule blocks_okD(1) [OF A x])
  have "blk k x \<subseteq> free_frames B"
    using blk_free [of x A k] x eq by simp
  then obtain j y where y: "y \<in> set (B j)" "blk k x \<subseteq> blk j y"
    using free_block_covers [OF B] pl unfolding placed_def by blast
  have ply: "placed n j y"
    by (rule blocks_okD(1) [OF B y(1)])
  have "blk j y \<subseteq> free_frames A"
    using blk_free [of y B j] y(1) eq by simp
  then obtain i z where z: "z \<in> set (A i)" "blk j y \<subseteq> blk i z"
    using free_block_covers [OF A] ply unfolding placed_def by blast
  have "blk k x \<inter> blk i z \<noteq> {}"
    using y(2) z(2) blk_nonempty [of k x] by blast
  then have "k = i \<and> x = z"
    by (rule blocks_okD(2) [OF A x z(1)])
  then have "blk j y = blk k x"
    using y(2) z(2) by blast
  moreover have "j = k"
    using blk_subset_order [OF y(2)] blk_subset_order [of j y k x] calculation by simp
  ultimately have "y = x"
    using blk_same [of k y x] pl ply by (simp add: placed_def)
  with y \<open>j = k\<close> show ?thesis
    by simp
qed

text \<open>Two consistent states with the same free frames hold the same blocks in every list.\<close>

lemma canonical:
  assumes "buddy_inv s L" and "buddy_inv t M" and "g_total_frames s = g_total_frames t"
    and "free_frames L = free_frames M"
  shows "set (L k) = set (M k)"
  using canonical_subset [OF buddy_invD(2) [OF assms(1)] _ assms(4)]
    canonical_subset [OF buddy_invD(2) [OF assms(2)] _ assms(4) [symmetric]]
    buddy_invD(2) [OF assms(1)] buddy_invD(2) [OF assms(2)] assms(3) by auto

section \<open>Allocation and freeing\<close>

text \<open>C27: An allocation of a given order succeeds exactly when some list of that order or above is not empty; it never
  panics; the block it returns is aligned, was free, and is no longer.\<close>

theorem buddy_alloc_correct:
  assumes "buddy_inv s L" and "k \<le> MAX_ORDER"
  shows "if \<forall>c \<ge> k. L c = [] then pmm_buddy_alloc_locked k s = Some (None, s)
    else \<exists>x s' L'. pmm_buddy_alloc_locked k s = Some (Some x, s') \<and> buddy_inv s' L' \<and>
      2 ^ k dvd x \<and> x + 2 ^ k \<le> g_total_frames s \<and> blk k x \<subseteq> free_frames L \<and>
      free_frames L' = free_frames L - blk k x"
proof (cases "\<forall>c \<ge> k. L c = []")
  case True
  have "\<not> blk k x \<subseteq> free_frames L" if al: "2 ^ k dvd x" for x
  proof
    assume "blk k x \<subseteq> free_frames L"
    then obtain j y where j: "y \<in> set (L j)" "blk k x \<subseteq> blk j y"
      using free_block_covers [OF buddy_invD(2) [OF assms(1)] assms(2) al] by blast
    then have "k \<le> j"
      using blk_subset_order by blast
    with True j(1) show False
      by simp
  qed
  then show ?thesis
    using alloc_spec [OF assms] True by (auto simp: held_def placed_def)
next
  case False
  then show ?thesis
    using alloc_spec [OF assms] by (auto simp: held_def placed_def)
qed

text \<open>A small machine: eight frames, free as one block of order 3.\<close>

definition small_lists :: "nat \<Rightarrow> nat list" where
  "small_lists = (\<lambda>_. [])(3 := [0])"

definition small_pmm :: pmm where
  "small_pmm = \<lparr>mem = \<lparr>g_free_lists = (\<lambda>_. None)(3 := Some 0), nexts = (\<lambda>_. None), prevs = (\<lambda>_. None),
     g_phys_ceiling = 8\<rparr>, g_buddy_coalesce = (\<lambda>k w. if k = 3 \<and> w = 0 then 1 else 0), g_total_frames = 8,
     g_frame_refcount = (\<lambda>_. 0), g_frame_pincount = (\<lambda>_. 0), g_free_pages = 8\<rparr>"

lemma small_inv: "buddy_inv small_pmm small_lists"
proof -
  have "lists_of (mem small_pmm) small_lists"
    by (auto simp: lists_of_def small_pmm_def small_lists_def)
  moreover have "blocks_ok 8 small_lists"
    by (auto simp: blocks_ok_def small_lists_def placed_def)
  moreover have "bit_test (g_buddy_coalesce small_pmm k) p = one_of_pair small_lists k p" for k p
    by (auto simp: bit_test_iff one_of_pair_def small_pmm_def small_lists_def bit_1_iff)
  ultimately show ?thesis
    by (simp add: buddy_inv_def small_pmm_def)
qed

lemma small_frames: "free_frames small_lists = {0..<8}"
  by (auto simp: in_free_frames small_lists_def intro!: exI [of _ 3])

lemma small_alloc:
  obtains x s L where "pmm_buddy_alloc_locked 2 small_pmm = Some (Some x, s)" "buddy_inv s L" "held s L 2 x"
    "blk 2 x \<subseteq> free_frames small_lists" "free_frames L = free_frames small_lists - blk 2 x"
    "g_total_frames s = g_total_frames small_pmm"
proof -
  have "small_lists 3 \<noteq> []" "2 \<le> (3 :: nat)" "2 \<le> MAX_ORDER"
    by (simp_all add: small_lists_def)
  then show thesis
    using alloc_spec [OF small_inv, of 2] that by blast
qed

theorem buddy_alloc_correct_witness:
  "\<exists>x s' L'. pmm_buddy_alloc_locked 2 small_pmm = Some (Some x, s') \<and> buddy_inv s' L' \<and> 4 dvd x \<and>
     free_frames L' = {0..<8} - blk 2 x"
proof -
  have "\<not> (\<forall>c \<ge> 2. small_lists c = [])"
    by (auto simp: small_lists_def)
  then have "\<exists>x s' L'. pmm_buddy_alloc_locked 2 small_pmm = Some (Some x, s') \<and> buddy_inv s' L' \<and>
      2 ^ 2 dvd x \<and> x + 2 ^ 2 \<le> g_total_frames small_pmm \<and> blk 2 x \<subseteq> free_frames small_lists \<and>
      free_frames L' = free_frames small_lists - blk 2 x"
    using buddy_alloc_correct [OF small_inv, of 2] by (simp only: if_False)
  then show ?thesis
    unfolding small_frames by auto
qed

section \<open>Sequences of calls\<close>

text \<open>Any sequence of allocations and frees, with the blocks handed out and not yet returned.\<close>

inductive buddy_run :: "pmm \<Rightarrow> pmm \<Rightarrow> (nat \<times> nat) set \<Rightarrow> bool" for s0 where
  run_start: "buddy_run s0 s0 {}"
| run_alloc: "buddy_run s0 s out \<Longrightarrow> k \<le> MAX_ORDER \<Longrightarrow> pmm_buddy_alloc_locked k s = Some (Some x, s') \<Longrightarrow>
    buddy_run s0 s' (insert (k, x) out)"
| run_fail: "buddy_run s0 s out \<Longrightarrow> k \<le> MAX_ORDER \<Longrightarrow> pmm_buddy_alloc_locked k s = Some (None, s') \<Longrightarrow>
    buddy_run s0 s' out"
| run_free: "buddy_run s0 s out \<Longrightarrow> (k, x) \<in> out \<Longrightarrow> pmm_buddy_free_locked_for_pcp x k s = Some s' \<Longrightarrow>
    buddy_run s0 s' (out - {(k, x)})"

definition out_frames :: "(nat \<times> nat) set \<Rightarrow> nat set" where
  "out_frames out = (\<Union>(k, x) \<in> out. blk k x)"

definition out_ok :: "nat \<Rightarrow> (nat \<times> nat) set \<Rightarrow> bool" where
  "out_ok n out \<longleftrightarrow> (\<forall>k x. (k, x) \<in> out \<longrightarrow> placed n k x) \<and>
     (\<forall>k x j y. (k, x) \<in> out \<longrightarrow> (j, y) \<in> out \<longrightarrow> (k, x) \<noteq> (j, y) \<longrightarrow> blk k x \<inter> blk j y = {})"

definition run_inv :: "pmm \<Rightarrow> nat set \<Rightarrow> pmm \<Rightarrow> (nat \<times> nat) set \<Rightarrow> (nat \<Rightarrow> nat list) \<Rightarrow> bool" where
  "run_inv s0 F s out L \<longleftrightarrow> buddy_inv s L \<and> g_total_frames s = g_total_frames s0 \<and> finite out \<and>
     out_ok (g_total_frames s0) out \<and>
     out_frames out \<inter> free_frames L = {} \<and> out_frames out \<union> free_frames L = F \<and>
     g_free_pages s + of_nat (\<Sum>(k, x) \<in> out. 2 ^ k) = g_free_pages s0"

lemma out_ok_insert:
  assumes "out_ok n out" and "placed n k x" and "\<And>j y. (j, y) \<in> out \<Longrightarrow> blk j y \<inter> blk k x = {}"
  shows "out_ok n (insert (k, x) out)"
proof -
  have "blk k x \<inter> blk j y = {}" if "(j, y) \<in> out" for j y
    using assms(3) [OF that] by blast
  with assms show ?thesis
    unfolding out_ok_def insert_iff by blast
qed

lemma out_ok_remove: "out_ok n out \<Longrightarrow> out_ok n (out - {b})"
  unfolding out_ok_def by blast

lemma pages_take: "a - of_nat m + of_nat (m + n) = a + (of_nat n :: u64)"
  and pages_give: "a + of_nat m + of_nat n = a + (of_nat (m + n) :: u64)"
  by simp_all

lemma run_inv_alloc:
  assumes inv: "run_inv s0 F s out L" and k: "k \<le> MAX_ORDER"
    and a: "pmm_buddy_alloc_locked k s = Some (Some x, s')"
  shows "\<exists>L'. run_inv s0 F s' (insert (k, x) out) L'"
proof -
  have bi: "buddy_inv s L" and tot: "g_total_frames s = g_total_frames s0" and fin: "finite out"
    and d: "out_frames out \<inter> free_frames L = {}"
    using inv unfolding run_inv_def by blast+
  obtain L' where L': "buddy_inv s' L'" "held s' L' k x" "blk k x \<subseteq> free_frames L"
    "free_frames L' = free_frames L - blk k x" "g_total_frames s' = g_total_frames s"
    "g_free_pages s' = g_free_pages s - of_nat (2 ^ k)"
    using alloc_spec [OF bi k] a by auto
  have dis: "blk j y \<inter> blk k x = {}" if "(j, y) \<in> out" for j y
    using that d L'(3) unfolding out_frames_def by blast
  then have new: "(k, x) \<notin> out"
    using blk_nonempty [of k x] by blast
  have "out_frames (insert (k, x) out) = blk k x \<union> out_frames out"
    by (auto simp: out_frames_def)
  moreover have "placed (g_total_frames s0) k x"
    using L'(2,5) tot by (simp add: held_def)
  moreover have "g_free_pages s' + of_nat (\<Sum>(k, x) \<in> insert (k, x) out. 2 ^ k) = g_free_pages s0"
  proof -
    have "(\<Sum>(k, x) \<in> insert (k, x) out. 2 ^ k :: nat) = 2 ^ k + (\<Sum>(k, x) \<in> out. 2 ^ k)"
      using new fin by simp
    then show ?thesis
      unfolding L'(6) using pages_take [of "g_free_pages s" "2 ^ k"] inv unfolding run_inv_def by metis
  qed
  moreover have "out_ok (g_total_frames s0) (insert (k, x) out)"
    by (rule out_ok_insert [OF _ _ dis]) (use inv calculation(2) in \<open>simp_all add: run_inv_def\<close>)
  moreover have "out_frames out \<union> free_frames L = F"
    using inv by (simp add: run_inv_def)
  ultimately show ?thesis
    using L' tot fin d unfolding run_inv_def by (intro exI [of _ L'] conjI) (auto simp del: in_blk)
qed

lemma run_inv_held:
  assumes "run_inv s0 F s out L" and "(k, x) \<in> out"
  shows "held s L k x"
proof -
  have "out_frames out \<inter> free_frames L = {}" "placed (g_total_frames s) k x"
    using assms unfolding run_inv_def out_ok_def by auto
  moreover have "blk k x \<subseteq> out_frames out"
    using assms(2) unfolding out_frames_def by blast
  ultimately show ?thesis
    unfolding held_def by blast
qed

lemma run_free_returns:
  assumes "run_inv s0 F s out L" and "(k, x) \<in> out"
  shows "\<exists>s'. pmm_buddy_free_locked_for_pcp x k s = Some s'"
  using free_spec [OF _ run_inv_held [OF assms]] assms(1)
  by (auto simp: run_inv_def pmm_buddy_free_locked_for_pcp_def)

lemma run_inv_free:
  assumes inv: "run_inv s0 F s out L" and kx: "(k, x) \<in> out"
    and f: "pmm_buddy_free_locked_for_pcp x k s = Some s'"
  shows "\<exists>L'. run_inv s0 F s' (out - {(k, x)}) L'"
proof -
  have bi: "buddy_inv s L" and tot: "g_total_frames s = g_total_frames s0" and fin: "finite out"
    and d: "out_frames out \<inter> free_frames L = {}"
    and dj: "\<And>j y. (j, y) \<in> out \<Longrightarrow> (j, y) \<noteq> (k, x) \<Longrightarrow> blk j y \<inter> blk k x = {}"
    using inv kx unfolding run_inv_def out_ok_def by blast+
  obtain s1 L' where L': "pmm_buddy_free_locked x k s = Some s1"
    "freed (clear_refs x k s) s1 L' (free_frames L \<union> blk k x)"
    using free_spec [OF bi run_inv_held [OF inv kx]] by blast
  have s': "s' = s1\<lparr>g_free_pages := g_free_pages s1 + of_nat (order_to_pages k)\<rparr>"
    using f L'(1) by (simp add: pmm_buddy_free_locked_for_pcp_def)
  have eq: "buddy_inv s' L'" "free_frames L' = free_frames L \<union> blk k x" "g_total_frames s' = g_total_frames s"
    "g_free_pages s' = g_free_pages s + of_nat (2 ^ k)"
    using L'(2) by (auto simp: s' freed_def buddy_inv_def order_to_pages_def)
  have of: "out_frames out = blk k x \<union> out_frames (out - {(k, x)})"
    using kx unfolding out_frames_def by blast
  have "blk k x \<inter> out_frames (out - {(k, x)}) = {}"
    using dj unfolding out_frames_def by blast
  moreover have "(\<Sum>(k, x) \<in> out. 2 ^ k :: nat) = 2 ^ k + (\<Sum>(k, x) \<in> out - {(k, x)}. 2 ^ k)"
    using sum.remove [OF fin kx, of "\<lambda>(k, x). 2 ^ k"] by simp
  then have "g_free_pages s' + of_nat (\<Sum>(k, x) \<in> out - {(k, x)}. 2 ^ k) = g_free_pages s0"
    unfolding eq(4) using pages_give [of "g_free_pages s" "2 ^ k"] inv unfolding run_inv_def by metis
  moreover have "out_ok (g_total_frames s0) (out - {(k, x)})" "out_frames out \<union> free_frames L = F"
    using inv out_ok_remove by (auto simp: run_inv_def)
  ultimately show ?thesis
    using eq tot fin d of unfolding run_inv_def by (intro exI [of _ L'] conjI) (auto simp del: in_blk)
qed

lemma run_inv_run:
  assumes "buddy_run s0 s out" and "buddy_inv s0 L0"
  shows "\<exists>L. run_inv s0 (free_frames L0) s out L"
  using assms(1)
proof (induction rule: buddy_run.induct)
  case run_start
  then show ?case
    using assms(2) by (auto simp: run_inv_def out_frames_def out_ok_def)
next
  case (run_alloc s out k x s')
  then show ?case
    using run_inv_alloc by blast
next
  case (run_fail s out k s')
  then obtain L where "run_inv s0 (free_frames L0) s out L"
    by blast
  then show ?case
    using run_fail alloc_spec [of s L k] by (auto simp: run_inv_def)
next
  case (run_free s out k x s')
  then show ?case
    using run_inv_free by blast
qed

text \<open>C2: In any sequence of allocations and frees, the blocks in use are aligned, inside memory and pairwise disjoint,
  none of them overlaps a free block, no frame is lost or gained, every block in use can be freed
  without a panic, and the counter of free pages is exact.\<close>

theorem buddy_no_overlap:
  assumes "buddy_inv s0 L0" and "buddy_run s0 s out"
  shows "(\<forall>(k, x) \<in> out. 2 ^ k dvd x \<and> x + 2 ^ k \<le> g_total_frames s0) \<and>
    (\<forall>(k, x) \<in> out. \<forall>(j, y) \<in> out. (k, x) \<noteq> (j, y) \<longrightarrow> blk k x \<inter> blk j y = {}) \<and>
    (\<exists>L. buddy_inv s L \<and> out_frames out \<inter> free_frames L = {} \<and>
       out_frames out \<union> free_frames L = free_frames L0) \<and>
    (\<forall>(k, x) \<in> out. pmm_buddy_free_locked_for_pcp x k s \<noteq> None) \<and>
    g_free_pages s = g_free_pages s0 - of_nat (\<Sum>(k, x) \<in> out. 2 ^ k)"
proof -
  obtain L where L: "run_inv s0 (free_frames L0) s out L"
    using run_inv_run [OF assms(2,1)] by blast
  then have pages: "g_free_pages s = g_free_pages s0 - of_nat (\<Sum>(k, x) \<in> out. 2 ^ k)"
    by (metis (no_types, lifting) add_diff_cancel_right' run_inv_def)
  have "pmm_buddy_free_locked_for_pcp x k s \<noteq> None" if "(k, x) \<in> out" for k x
    using run_free_returns [OF L that] by auto
  then have "\<forall>(k, x) \<in> out. pmm_buddy_free_locked_for_pcp x k s \<noteq> None"
    by blast
  with L pages show ?thesis
    unfolding run_inv_def out_ok_def placed_def by blast
qed

theorem buddy_no_overlap_witness:
  "\<exists>x s. buddy_run small_pmm s {(2, x)} \<and> g_free_pages s = 4"
proof -
  obtain x s where a: "pmm_buddy_alloc_locked 2 small_pmm = Some (Some x, s)"
    by (rule small_alloc)
  then have "buddy_run small_pmm s {(2, x)}"
    using run_alloc [OF run_start, of 2 small_pmm x s] by simp
  with buddy_no_overlap [OF small_inv this] show ?thesis
    by (intro exI [of _ x] exI [of _ s]) (simp add: small_pmm_def)
qed

text \<open>C12: The free structure has no memory. Whatever sequences of allocations, failed allocations and frees led
  to two states from the same start, if the same frames are in use then every list holds the same
  blocks: everything that can be merged is merged, and fragmentation is never left behind.\<close>

theorem buddy_history_free:
  assumes "buddy_inv s0 L0" and "buddy_run s0 s out" and "buddy_run s0 t out'"
    and "out_frames out = out_frames out'"
  shows "\<exists>L M. lists_of (mem s) L \<and> lists_of (mem t) M \<and> (\<forall>k. set (L k) = set (M k))"
proof -
  obtain L M where L: "run_inv s0 (free_frames L0) s out L" and M: "run_inv s0 (free_frames L0) t out' M"
    using run_inv_run [OF _ assms(1)] assms(2,3) by meson
  then have "free_frames L = free_frames M"
    using assms(4) unfolding run_inv_def by blast
  then have "\<forall>k. set (L k) = set (M k)"
    using canonical [of s L t M] L M by (simp add: run_inv_def)
  with L M show ?thesis
    unfolding run_inv_def using buddy_invD(1) by blast
qed

theorem buddy_history_free_witness:
  "\<exists>x s1 s2 L. pmm_buddy_alloc_locked 2 small_pmm = Some (Some x, s1) \<and>
     pmm_buddy_free_locked_for_pcp x 2 s1 = Some s2 \<and> lists_of (mem s2) L \<and>
     (\<forall>k. set (L k) = set (small_lists k))"
proof -
  obtain x s1 where a: "pmm_buddy_alloc_locked 2 small_pmm = Some (Some x, s1)"
    by (rule small_alloc)
  then have r1: "buddy_run small_pmm s1 {(2, x)}"
    using run_alloc [OF run_start, of 2 small_pmm x s1] by simp
  obtain L1 where L1: "run_inv small_pmm (free_frames small_lists) s1 {(2, x)} L1"
    using run_inv_run [OF r1 small_inv] by blast
  obtain s2 where f: "pmm_buddy_free_locked_for_pcp x 2 s1 = Some s2"
    using run_free_returns [OF L1, of 2 x] by auto
  then have "buddy_run small_pmm s2 {}"
    using run_free [OF r1, of 2 x s2] by simp
  then obtain L M where "lists_of (mem s2) L" "lists_of (mem small_pmm) M" "\<forall>k. set (L k) = set (M k)"
    using buddy_history_free [OF small_inv _ run_start] by blast
  moreover from this have "M k = small_lists k" for k
    using lists_of_unique [of "mem small_pmm" M small_lists] buddy_invD(1) [OF small_inv] by simp
  ultimately show ?thesis
    using a f by auto
qed

section \<open>Reference counts\<close>

text \<open>C28: Dropping a reference to a frame in use: while others remain the frame stays in use; the last one gives it back
  to the allocator, unless it is pinned, in which case it is not given back: no frame under DMA
  becomes free.\<close>

theorem pmm_ref_dec_correct:
  assumes inv: "buddy_inv s L" and f: "f < g_total_frames s" and out: "f \<notin> free_frames L"
    and rc: "g_frame_refcount s f \<noteq> 0"
  shows "\<exists>s' L'. pmm_ref_dec f s = Some s' \<and> buddy_inv s' L' \<and> g_frame_refcount s' f = g_frame_refcount s f - 1 \<and>
    (if g_frame_refcount s f = 1 \<and> g_frame_pincount s f = 0
     then free_frames L' = insert f (free_frames L) \<and> g_free_pages s' = g_free_pages s + 1
     else L' = L \<and> g_free_pages s' = g_free_pages s)"
proof -
  define s1 where "s1 = s\<lparr>g_frame_refcount := (g_frame_refcount s)(f := g_frame_refcount s f - 1)\<rparr>"
  have s1: "buddy_inv s1 L" "g_frame_refcount s1 f = g_frame_refcount s f - 1" "g_free_pages s1 = g_free_pages s"
    "g_frame_pincount s1 f = g_frame_pincount s f" "g_total_frames s1 = g_total_frames s"
    using inv by (simp_all add: s1_def buddy_inv_def)
  have dec: "pmm_ref_dec f s = (if g_frame_refcount s f = 1 then
      if g_frame_pincount s f > 0 then Some s1
      else map_option (\<lambda>s2. s2\<lparr>g_free_pages := g_free_pages s2 + 1\<rparr>) (pmm_buddy_free_locked f 0 s1)
    else Some s1)"
    using f rc s1(2,4) by (simp add: pmm_ref_dec_def s1_def Let_def)
  show ?thesis
  proof (cases "g_frame_refcount s f = 1 \<and> g_frame_pincount s f = 0")
    case False
    with dec s1 show ?thesis
      by (intro exI [of _ s1] exI [of _ L]) (auto simp: word_gt_0)
  next
    case True
    have b: "blk 0 f = {f}"
      by (auto simp: blk_def)
    have "held s1 L 0 f"
      using f out s1(5) by (simp add: held_def placed_def b)
    then obtain s2 L2 where s2: "pmm_buddy_free_locked f 0 s1 = Some s2"
      "freed (clear_refs f 0 s1) s2 L2 (free_frames L \<union> blk 0 f)"
      using free_spec [OF s1(1)] by blast
    have "g_frame_refcount (clear_refs f 0 s1) f = 0"
      using f s1(5) by (simp add: clear_refs_def order_to_pages_def)
    moreover have "pmm_ref_dec f s = Some (s2\<lparr>g_free_pages := g_free_pages s2 + 1\<rparr>)"
      using dec True s2(1) by simp
    ultimately show ?thesis
      using True s2(2) s1(3) b
      by (intro exI [of _ "s2\<lparr>g_free_pages := g_free_pages s2 + 1\<rparr>"] exI [of _ L2])
        (auto simp: freed_def buddy_inv_def)
  qed
qed

definition all_used_pmm :: pmm where
  "all_used_pmm = small_pmm\<lparr>mem := (mem small_pmm)\<lparr>g_free_lists := (\<lambda>_. None)\<rparr>, g_buddy_coalesce := (\<lambda>_ _. 0),
     g_frame_refcount := (\<lambda>_. 1), g_free_pages := 0\<rparr>"

lemma all_used_inv: "buddy_inv all_used_pmm (\<lambda>_. [])"
  by (auto simp: buddy_inv_def lists_of_def blocks_ok_def one_of_pair_def bit_test_iff all_used_pmm_def small_pmm_def)

theorem pmm_ref_dec_correct_witness:
  "\<exists>s L. pmm_ref_dec 5 all_used_pmm = Some s \<and> buddy_inv s L \<and> free_frames L = {5} \<and> g_free_pages s = 1"
  using pmm_ref_dec_correct [OF all_used_inv, of 5]
  by (auto simp: all_used_pmm_def small_pmm_def free_frames_def)

end
