(* ===== verification/Buddy_Init.thy ===== *)
theory Buddy_Init
  imports Buddy_Props
begin

text \<open>
  The start of the physical memory manager, \<^verbatim>\<open>pmm_mem_survey\<close> and \<^verbatim>\<open>pmm_buddy_init_from_map\<close> of
  \<^verbatim>\<open>kernel/mm/pmm.c\<close>: from the firmware's memory map to the first free lists. Region bounds are bytes,
  in natural numbers (no region of the map reaches past the end of the address space); the base and
  the reserved size of the kernel image, set at boot, are arguments.
\<close>

section \<open>Memory map\<close>

record e820_entry =
  e_base :: nat
  e_length :: nat
  e_type :: nat

abbreviation (input) PAGE_SIZE :: nat where "PAGE_SIZE \<equiv> 4096"
abbreviation (input) MAX_FRAMES :: nat where "MAX_FRAMES \<equiv> 16777216"
abbreviation (input) PMM_RESERVED_FRAMES :: nat where "PMM_RESERVED_FRAMES \<equiv> 1024"

definition align_down :: "nat \<Rightarrow> nat" where
  "align_down a = a div PAGE_SIZE * PAGE_SIZE"

definition align_up :: "nat \<Rightarrow> nat" where
  "align_up a = (a + PAGE_SIZE - 1) div PAGE_SIZE * PAGE_SIZE"

definition bytes_for_bits :: "nat \<Rightarrow> nat" where
  "bytes_for_bits n = (n + 63) div 64 * 8"

text \<open>The kernel image as a range of frames.\<close>

record image =
  kernel_start :: nat
  kernel_end :: nat

definition kernel_image :: "nat \<Rightarrow> nat \<Rightarrow> image" where
  "kernel_image base len = \<lparr>kernel_start = align_down base div PAGE_SIZE,
     kernel_end = align_up (base + len) div PAGE_SIZE\<rparr>"

record survey =
  hole_base :: "nat option"
  hole_size :: nat
  phys_ceiling :: nat

definition take_hole :: "nat \<Rightarrow> nat \<Rightarrow> survey \<Rightarrow> survey" where
  "take_hole b n v = (if n \<le> hole_size v then v else v\<lparr>hole_base := Some b, hole_size := n\<rparr>)"

definition survey_entry :: "image \<Rightarrow> e820_entry \<Rightarrow> survey \<Rightarrow> survey" where
  "survey_entry im e v0 =
     (if e_type e \<noteq> 1 then v0
      else
        (let stop = e_base e + e_length e;
             v = v0\<lparr>phys_ceiling := max (phys_ceiling v0) stop\<rparr>;
             s0 = align_up (e_base e) div PAGE_SIZE;
             t0 = align_down stop div PAGE_SIZE;
             ks = kernel_start im; ke = kernel_end im
         in if t0 \<le> PMM_RESERVED_FRAMES then v
            else
              (let s = max s0 PMM_RESERVED_FRAMES
               in if s \<ge> ks \<and> t0 \<le> ke then v
                  else if s \<ge> MAX_FRAMES then v
                  else
                    (let t = min t0 MAX_FRAMES
                     in if s \<ge> t then v
                        else if s < ke \<and> t > ks then
                          (let v1 = (if s \<ge> ks then v else take_hole s (ks - s) v)
                           in if t \<le> ke then v1 else take_hole ke (t - ke) v1)
                        else take_hole s (t - s) v))))"

definition pmm_mem_survey :: "image \<Rightarrow> e820_entry list \<Rightarrow> survey" where
  "pmm_mem_survey im m =
     fold (survey_entry im) m \<lparr>hole_base = None, hole_size = 0, phys_ceiling = 0\<rparr>"

section \<open>Layout\<close>

record layout =
  total_frames :: nat
  meta_start :: nat
  meta_end :: nat
  the_image :: image
  ceiling_frames :: nat

definition meta_size_bytes :: "nat \<Rightarrow> nat" where
  "meta_size_bytes n =
     (\<Sum>k \<le> MAX_ORDER. bytes_for_bits (((n + 2 ^ k - 1) div 2 ^ k + 1) div 2)) + n * 4 + n * 2 + n * 8 + n * 8"

definition hole_frames :: "nat \<Rightarrow> e820_entry list \<Rightarrow> nat" where
  "hole_frames hole m =
     (case List.find (\<lambda>e. e_type e = 1 \<and> align_up (e_base e) \<le> hole \<and> hole < align_down (e_base e + e_length e)) m of
        None \<Rightarrow> 0
      | Some e \<Rightarrow> (align_down (e_base e + e_length e) - hole) div PAGE_SIZE)"

definition init_layout :: "image \<Rightarrow> e820_entry list \<Rightarrow> layout option" where
  "init_layout im m =
     (let v = pmm_mem_survey im m
      in case hole_base v of
          None \<Rightarrow> None
        | Some h \<Rightarrow>
            (let n = min (phys_ceiling v div PAGE_SIZE) MAX_FRAMES;
                 frames = align_up (meta_size_bytes n) div PAGE_SIZE
             in if hole_frames (h * PAGE_SIZE) m < frames then None
                else Some \<lparr>total_frames = n, meta_start = h, meta_end = h + frames, the_image = im,
                       ceiling_frames = (phys_ceiling v + PAGE_SIZE - 1) div PAGE_SIZE\<rparr>))"

section \<open>Populating the free lists\<close>

fun ctz :: "nat \<Rightarrow> nat" where
  "ctz n = (if n = 0 \<or> odd n then 0 else Suc (ctz (n div 2)))"

fun log2 :: "nat \<Rightarrow> nat" where
  "log2 n = (if n \<le> 1 then 0 else Suc (log2 (n div 2)))"

declare ctz.simps [simp del] log2.simps [simp del]

definition calculate_max_order :: "nat \<Rightarrow> nat \<Rightarrow> nat" where
  "calculate_max_order f t =
     (let align_order = (if f = 0 then MAX_ORDER else ctz f);
          pages = t - f;
          range_order = (if pages = 0 then 0 else log2 pages)
      in min (min align_order range_order) MAX_ORDER)"

definition block_overlaps_forbidden :: "layout \<Rightarrow> nat \<Rightarrow> nat \<Rightarrow> bool" where
  "block_overlaps_forbidden y f k \<longleftrightarrow>
     (let stop = f + order_to_pages k
      in f < PMM_RESERVED_FRAMES \<or>
         (f < meta_end y \<and> stop > meta_start y) \<or>
         (f < kernel_end (the_image y) \<and> stop > kernel_start (the_image y)) \<or>
         stop > total_frames y)"

definition frame_forbidden :: "layout \<Rightarrow> nat \<Rightarrow> bool" where
  "frame_forbidden y f \<longleftrightarrow> f < PMM_RESERVED_FRAMES \<or> (meta_start y \<le> f \<and> f < meta_end y) \<or>
     (kernel_start (the_image y) \<le> f \<and> f < kernel_end (the_image y))"

primrec reduce_order :: "layout \<Rightarrow> nat \<Rightarrow> nat \<Rightarrow> nat" where
  "reduce_order y f 0 = 0"
| "reduce_order y f (Suc k) =
     (if \<not> block_overlaps_forbidden y f (Suc k) then Suc k else reduce_order y f k)"

function populate :: "layout \<Rightarrow> nat \<Rightarrow> nat \<Rightarrow> pmm \<Rightarrow> pmm option" where
  "populate y t f s =
     (if f \<ge> t then Some s
      else if frame_forbidden y f then populate y t (f + 1) s
      else
        (let k = reduce_order y f (calculate_max_order f t)
         in if block_overlaps_forbidden y f k then populate y t (f + 1) s
            else Option.bind (pmm_buddy_free_locked f k s) (populate y t (f + order_to_pages k))))"
  by pat_completeness auto
termination
  by (relation "measure (\<lambda>(y, t, f, s). t - f)") (auto simp: order_to_pages_def intro!: diff_less_mono2)

declare populate.simps [simp del]

definition entry_start :: "e820_entry \<Rightarrow> nat" where
  "entry_start e = align_up (e_base e) div PAGE_SIZE"

definition entry_stop :: "layout \<Rightarrow> e820_entry \<Rightarrow> nat" where
  "entry_stop y e = min (align_down (e_base e + e_length e) div PAGE_SIZE) (total_frames y)"

definition populate_entry :: "layout \<Rightarrow> e820_entry \<Rightarrow> pmm \<Rightarrow> pmm option" where
  "populate_entry y e s =
     (if e_type e \<noteq> 1 then Some s
      else if entry_start e \<ge> entry_stop y e then Some s
      else populate y (entry_stop y e) (entry_start e) s)"

primrec populate_all :: "layout \<Rightarrow> e820_entry list \<Rightarrow> pmm \<Rightarrow> pmm option" where
  "populate_all y [] s = Some s"
| "populate_all y (e # m) s = Option.bind (populate_entry y e s) (populate_all y m)"

text \<open>Counting the pages on the lists; a list is walked from its head with at most as many steps as there are
  frames.\<close>

primrec walk_length :: "nat \<Rightarrow> (nat \<Rightarrow> nat option) \<Rightarrow> nat option \<Rightarrow> nat" where
  "walk_length 0 nx p = 0"
| "walk_length (Suc n) nx p = (case p of None \<Rightarrow> 0 | Some x \<Rightarrow> Suc (walk_length n nx (nx x)))"

definition pmm_count_free_pages :: "pmm \<Rightarrow> pmm" where
  "pmm_count_free_pages s =
     s\<lparr>g_free_pages := of_nat (\<Sum>k \<le> MAX_ORDER.
         order_to_pages k * walk_length (g_total_frames s) (nexts (mem s)) (g_free_lists (mem s) k))\<rparr>"

definition empty_pmm :: "layout \<Rightarrow> pmm" where
  "empty_pmm y = \<lparr>mem = \<lparr>g_free_lists = (\<lambda>_. None), nexts = (\<lambda>_. None), prevs = (\<lambda>_. None),
     g_phys_ceiling = ceiling_frames y\<rparr>, g_buddy_coalesce = (\<lambda>_ _. 0), g_total_frames = total_frames y,
     g_frame_refcount = (\<lambda>_. 0), g_frame_pincount = (\<lambda>_. 0), g_free_pages = 0\<rparr>"

definition pmm_buddy_init_from_map :: "image \<Rightarrow> e820_entry list \<Rightarrow> pmm option option" where
  "pmm_buddy_init_from_map im m =
     (case init_layout im m of
        None \<Rightarrow> None
      | Some y \<Rightarrow> Some (map_option pmm_count_free_pages (populate_all y m (empty_pmm y))))"

section \<open>Lemmas\<close>

lemma ctz_dvd: "2 ^ ctz n dvd n"
proof (induction n rule: ctz.induct)
  case (1 n)
  show ?case
  proof (cases "n = 0 \<or> odd n")
    case False
    then have "n = 2 * (n div 2)" and c: "ctz n = Suc (ctz (n div 2))"
      by (auto simp: ctz.simps [of n])
    moreover have "2 ^ ctz (n div 2) dvd n div 2"
      using 1 False by simp
    ultimately show ?thesis
      by (metis mult_dvd_mono dvd_refl power_Suc)
  qed (auto simp: ctz.simps [of n])
qed

lemma log2_le: "n \<noteq> 0 \<Longrightarrow> 2 ^ log2 n \<le> n"
proof (induction n rule: log2.induct)
  case (1 n)
  show ?case
  proof (cases "n \<le> 1")
    case False
    then have "2 ^ log2 (n div 2) \<le> n div 2" "log2 n = Suc (log2 (n div 2))"
      using 1 by (auto simp: log2.simps [of n])
    then show ?thesis
      by simp
  qed (use 1 in \<open>simp add: log2.simps [of n]\<close>)
qed

lemma max_order_ok:
  assumes "f < t" and "j \<le> calculate_max_order f t"
  shows "j \<le> MAX_ORDER" "2 ^ j dvd f" "f + 2 ^ j \<le> t"
proof -
  let ?k = "calculate_max_order f t"
  show "j \<le> MAX_ORDER"
    using assms(2) by (simp add: calculate_max_order_def)
  have "2 ^ ?k dvd f"
  proof (cases "f = 0")
    case False
    then have "?k \<le> ctz f"
      by (simp add: calculate_max_order_def)
    then show ?thesis
      by (rule dvd_pow [OF _ ctz_dvd])
  qed simp
  then show "2 ^ j dvd f"
    by (rule dvd_pow [OF assms(2)])
  have "?k \<le> log2 (t - f)"
    using assms(1) by (simp add: calculate_max_order_def)
  then have "(2 :: nat) ^ j \<le> 2 ^ log2 (t - f)"
    using assms(2) by (intro power_increasing) auto
  also have "\<dots> \<le> t - f"
    using assms(1) by (intro log2_le) simp
  finally show "f + 2 ^ j \<le> t"
    using assms(1) by simp
qed

lemma reduce_le: "reduce_order y f k \<le> k"
  by (induction k) (auto intro: le_SucI)

text \<open>A block that overlaps nothing forbidden consists of frames that are not.\<close>

lemma block_frames:
  assumes "\<not> block_overlaps_forbidden y f k"
  shows "f + 2 ^ k \<le> total_frames y" "g \<in> blk k f \<Longrightarrow> \<not> frame_forbidden y g"
  using assms by (auto simp: block_overlaps_forbidden_def frame_forbidden_def order_to_pages_def Let_def)

lemma single_frame:
  assumes "\<not> frame_forbidden y f" and "f < total_frames y"
  shows "\<not> block_overlaps_forbidden y f 0"
  using assms by (auto simp: block_overlaps_forbidden_def frame_forbidden_def order_to_pages_def Let_def)

lemma reduce_ok:
  assumes "\<not> frame_forbidden y f" and "f < total_frames y"
  shows "\<not> block_overlaps_forbidden y f (reduce_order y f k)"
  using single_frame [OF assms] by (induction k) auto

definition good_frames :: "layout \<Rightarrow> nat \<Rightarrow> nat \<Rightarrow> nat set" where
  "good_frames y f t = {g. f \<le> g \<and> g < t \<and> \<not> frame_forbidden y g}"

lemma good_skip: "frame_forbidden y f \<Longrightarrow> good_frames y f t = good_frames y (f + 1) t"
  by (auto simp: good_frames_def) (metis Suc_leI le_neq_implies_less)

lemma good_block:
  assumes "\<And>g. g \<in> blk k f \<Longrightarrow> \<not> frame_forbidden y g" and "f + 2 ^ k \<le> t"
  shows "good_frames y f t = blk k f \<union> good_frames y (f + 2 ^ k) t"
proof (intro equalityI subsetI)
  fix g
  assume "g \<in> good_frames y f t"
  then show "g \<in> blk k f \<union> good_frames y (f + 2 ^ k) t"
    by (cases "g < f + 2 ^ k") (auto simp: good_frames_def)
next
  fix g
  assume "g \<in> blk k f \<union> good_frames y (f + 2 ^ k) t"
  then show "g \<in> good_frames y f t"
    using assms by (auto simp: good_frames_def)
qed

lemma populate_inv:
  assumes "buddy_inv s L" and "g_total_frames s = total_frames y" and "t \<le> total_frames y"
    and "free_frames L \<inter> {f..<t} = {}"
  shows "\<exists>s' L'. populate y t f s = Some s' \<and> buddy_inv s' L' \<and> g_total_frames s' = total_frames y \<and>
    free_frames L' = free_frames L \<union> good_frames y f t"
  using assms
proof (induction y t f s arbitrary: L rule: populate.induct)
  case (1 y t f s)
  note prems = "1.prems"
  consider "f \<ge> t" | "f < t" "frame_forbidden y f" | "f < t" "\<not> frame_forbidden y f"
    by linarith
  then show ?case
  proof cases
    case 1
    then have "populate y t f s = Some s" "good_frames y f t = {}"
      by (auto simp: good_frames_def populate.simps [of y t f s])
    with prems show ?thesis
      by (metis Un_empty_right)
  next
    case 2
    have "free_frames L \<inter> {f + 1..<t} = {}"
      using prems(4) by auto
    moreover have "populate y t f s = populate y t (f + 1) s"
      using 2 by (simp add: populate.simps [of y t f s])
    ultimately show ?thesis
      using "1.IH"(1) [OF _ 2(2) prems(1-3)] 2(1) good_skip [OF 2(2)] by auto
  next
    case 3
    let ?k = "reduce_order y f (calculate_max_order f t)"
    have ok: "\<not> block_overlaps_forbidden y f ?k"
      using reduce_ok [OF 3(2)] 3(1) prems(3) by simp
    note mo = max_order_ok [OF 3(1) reduce_le [of y f]]
    have "blk ?k f \<subseteq> {f..<t}"
      using mo(3) by auto
    then have h: "held s L ?k f"
      using mo(1,2) block_frames(1) [OF ok] prems(2,4) unfolding held_def placed_def by auto
    obtain s1 L1 where s1: "pmm_buddy_free_locked f ?k s = Some s1"
      "freed (clear_refs f ?k s) s1 L1 (free_frames L \<union> blk ?k f)"
      using free_spec [OF prems(1) h] by blast
    have i1: "buddy_inv s1 L1" "g_total_frames s1 = total_frames y" "free_frames L1 = free_frames L \<union> blk ?k f"
      using s1(2) prems(2) by (simp_all add: freed_def)
    have step: "populate y t f s = populate y t (f + order_to_pages ?k) s1"
      using 3 ok s1(1) by (subst populate.simps) (simp add: Let_def)
    have "free_frames L1 \<inter> {f + order_to_pages ?k..<t} = {}"
      using prems(4) by (auto simp: i1(3) order_to_pages_def)
    then obtain s' L' where "populate y t (f + order_to_pages ?k) s1 = Some s'" "buddy_inv s' L'"
      "g_total_frames s' = total_frames y"
      "free_frames L' = free_frames L1 \<union> good_frames y (f + order_to_pages ?k) t"
      using "1.IH"(3) [OF _ 3(2) refl ok s1(1) i1(1,2) prems(3)] 3(1) by auto
    moreover have "good_frames y f t = blk ?k f \<union> good_frames y (f + 2 ^ ?k) t"
      using good_block [of ?k f y t] block_frames(2) [OF ok] mo(3) by blast
    ultimately show ?thesis
      using step i1(3) by (auto simp: order_to_pages_def Un_assoc)
  qed
qed

section \<open>Properties\<close>

text \<open>The frames that the map offers and nothing else claims.\<close>

definition usable :: "layout \<Rightarrow> e820_entry list \<Rightarrow> nat set" where
  "usable y m = (\<Union>e \<in> set m. if e_type e = 1 then good_frames y (entry_start e) (entry_stop y e) else {})"

definition entry_range :: "layout \<Rightarrow> e820_entry \<Rightarrow> nat set" where
  "entry_range y e = (if e_type e = 1 then {entry_start e..<entry_stop y e} else {})"

text \<open>No two regions of the map share a frame.\<close>

fun regions_disjoint :: "layout \<Rightarrow> e820_entry list \<Rightarrow> bool" where
  "regions_disjoint y [] \<longleftrightarrow> True"
| "regions_disjoint y (e # m) \<longleftrightarrow> (\<forall>d \<in> set m. entry_range y e \<inter> entry_range y d = {}) \<and> regions_disjoint y m"

lemma populate_all_inv:
  assumes "buddy_inv s L" and "g_total_frames s = total_frames y" and "regions_disjoint y m"
    and "\<forall>e \<in> set m. free_frames L \<inter> entry_range y e = {}"
  shows "\<exists>s' L'. populate_all y m s = Some s' \<and> buddy_inv s' L' \<and> g_total_frames s' = total_frames y \<and>
    free_frames L' = free_frames L \<union> usable y m"
  using assms
proof (induction m arbitrary: s L)
  case Nil
  then show ?case
    by (auto simp: usable_def)
next
  case (Cons e m)
  let ?t = "entry_stop y e" and ?f = "entry_start e"
  let ?G = "if e_type e = 1 then good_frames y ?f ?t else {}"
  have sub: "?G \<subseteq> entry_range y e"
    by (auto simp: good_frames_def entry_range_def)
  have u: "usable y (e # m) = ?G \<union> usable y m"
    by (simp add: usable_def)
  have "\<exists>s1 L1. populate_entry y e s = Some s1 \<and> buddy_inv s1 L1 \<and> g_total_frames s1 = total_frames y \<and>
      free_frames L1 = free_frames L \<union> ?G"
  proof (cases "e_type e = 1 \<and> ?f < ?t")
    case True
    then have "free_frames L \<inter> {?f..<?t} = {}"
      using Cons.prems(4) by (simp add: entry_range_def)
    moreover have "?t \<le> total_frames y"
      by (simp add: entry_stop_def)
    ultimately show ?thesis
      using populate_inv [OF Cons.prems(1,2)] True by (simp add: populate_entry_def)
  next
    case False
    then have "populate_entry y e s = Some s" "?G = {}"
      by (auto simp: populate_entry_def good_frames_def)
    with Cons.prems(1,2) show ?thesis
      by auto
  qed
  then obtain s1 L1 where s1: "populate_entry y e s = Some s1" "buddy_inv s1 L1" "g_total_frames s1 = total_frames y"
    "free_frames L1 = free_frames L \<union> ?G"
    by blast
  have "\<forall>d \<in> set m. free_frames L1 \<inter> entry_range y d = {}"
    using Cons.prems(3,4) sub unfolding s1(4) by fastforce
  with Cons.IH [OF s1(2,3)] Cons.prems(3) obtain s' L' where
    "populate_all y m s1 = Some s'" "buddy_inv s' L'" "g_total_frames s' = total_frames y"
    "free_frames L' = free_frames L1 \<union> usable y m"
    by auto
  with s1 u show ?case
    by (auto simp: Un_assoc)
qed

text \<open>Counting: the walk of a list ends at its end, and the blocks on the lists partition the free frames.\<close>

lemma walk_dll: "dll nx pv p h xs \<Longrightarrow> length xs \<le> n \<Longrightarrow> walk_length n nx h = length xs"
proof (induction xs arbitrary: n p h)
  case Nil
  then show ?case
    by (cases n) auto
next
  case (Cons x xs)
  then obtain n' where "n = Suc n'"
    by (cases n) auto
  with Cons show ?case
    by auto
qed

lemma list_fits:
  assumes "buddy_inv s L"
  shows "length (L k) \<le> g_total_frames s"
proof -
  have "distinct (L k)" "set (L k) \<subseteq> {..<g_total_frames s}"
    using buddy_invD(5) [OF assms] placed_less [OF blocks_okD(1) [OF buddy_invD(2) [OF assms]]] by auto
  then show ?thesis
    by (metis card_lessThan card_mono distinct_card finite_lessThan)
qed

lemma free_frames_card:
  assumes "buddy_inv s L"
  shows "card (free_frames L) = (\<Sum>k \<le> MAX_ORDER. 2 ^ k * length (L k))"
proof -
  note ok = buddy_invD(2) [OF assms]
  define B where "B k = (\<Union>x \<in> set (L k). blk k x)" for k
  have empty: "L k = []" if "\<not> k \<le> MAX_ORDER" for k
    using that list_order_bound [OF assms] by (metis list.set_intros(1) list.exhaust)
  have "free_frames L = (\<Union>k \<le> MAX_ORDER. B k)"
    using empty unfolding free_frames_def B_def by fastforce
  moreover have "B k \<inter> B j = {}" if "k \<noteq> j" for k j
    using that blocks_okD(2) [OF ok] unfolding B_def by blast
  moreover have fin: "finite (B k)" for k
    by (simp add: B_def blk_def)
  moreover have "card (B k) = 2 ^ k * length (L k)" for k
  proof -
    have "distinct (L k)"
      by (rule buddy_invD(5) [OF assms])
    moreover have "card (B k) = (\<Sum>x \<in> set (L k). card (blk k x))"
      unfolding B_def using blocks_okD(2) [OF ok] by (intro card_UN_disjoint) (auto simp: blk_def)
    ultimately show ?thesis
      by (simp add: blk_def distinct_card mult.commute)
  qed
  ultimately show ?thesis
    by (simp add: card_UN_disjoint)
qed

lemma count_free:
  assumes "buddy_inv s L"
  shows "g_free_pages (pmm_count_free_pages s) = of_nat (card (free_frames L))"
proof -
  have "walk_length (g_total_frames s) (nexts (mem s)) (g_free_lists (mem s) k) = length (L k)" for k
    using assms list_fits [OF assms] by (intro walk_dll) (auto simp: buddy_inv_def lists_of_def)
  then show ?thesis
    unfolding pmm_count_free_pages_def free_frames_card [OF assms] by (simp add: order_to_pages_def)
qed

lemma buddy_inv_empty:
  assumes "init_layout im m = Some y"
  shows "buddy_inv (empty_pmm y) (\<lambda>_. [])" and "total_frames y \<le> MAX_FRAMES"
proof -
  have "total_frames y \<le> ceiling_frames y \<and> total_frames y \<le> MAX_FRAMES"
    using assms unfolding init_layout_def Let_def
    by (auto split: option.splits if_splits intro: le_trans [OF min.cobounded1] div_le_mono)
  then show "buddy_inv (empty_pmm y) (\<lambda>_. [])" "total_frames y \<le> MAX_FRAMES"
    by (simp_all add: buddy_inv_def empty_pmm_def lists_of_def blocks_ok_def one_of_pair_def bit_test_iff)
qed

lemma buddy_inv_count: "buddy_inv (pmm_count_free_pages s) L = buddy_inv s L"
  by (simp add: buddy_inv_def pmm_count_free_pages_def)


text \<open>Two machines with the kernel at 16 MiB: one with 64 MiB of memory, one with 48 MiB and a small region
  just below 7 GiB.\<close>

definition the_kernel :: image where
  "the_kernel = kernel_image 16777216 33554432"

definition small_map :: "e820_entry list" where
  "small_map = [\<lparr>e_base = 0, e_length = 654336, e_type = 1\<rparr>, \<lparr>e_base = 983040, e_length = 65536, e_type = 2\<rparr>,
     \<lparr>e_base = 1048576, e_length = 66060288, e_type = 1\<rparr>]"

definition small_layout :: layout where
  "small_layout = \<lparr>total_frames = 16384, meta_start = 12288, meta_end = 12377, the_image = the_kernel,
     ceiling_frames = 16384\<rparr>"

definition sparse_map :: "e820_entry list" where
  "sparse_map = [\<lparr>e_base = 0, e_length = 654336, e_type = 1\<rparr>, \<lparr>e_base = 1048576, e_length = 49283072, e_type = 1\<rparr>,
     \<lparr>e_base = 7516192768, e_length = 4194304, e_type = 1\<rparr>]"

lemma upto_MAX_ORDER: "{..MAX_ORDER} = set [0,1,2,3,4,5,6,7,8,9,10,11,12,13,14,15,16,17,18,19,20,21,22,23,24,25,26,27,28,29,30,31,32]"
  by (auto simp: atMost_def) presburger

lemma meta_sizes: "meta_size_bytes 16384 = 362688" "meta_size_bytes 1836032 = 40622408"
  by (simp_all add: meta_size_bytes_def upto_MAX_ORDER bytes_for_bits_def)

lemmas map_eval = pmm_mem_survey_def small_map_def sparse_map_def survey_entry_def the_kernel_def
  kernel_image_def align_up_def align_down_def take_hole_def init_layout_def hole_frames_def meta_sizes

lemma layout_small: "init_layout the_kernel small_map = Some small_layout"
  by (simp add: map_eval small_layout_def)

lemma disjoint_small: "regions_disjoint small_layout small_map"
  by (auto simp: map_eval small_layout_def entry_range_def entry_start_def entry_stop_def)

lemma usable_small: "usable small_layout small_map = {1024..<4096} \<union> {12377..<16384}"
  by (auto simp: map_eval small_layout_def usable_def good_frames_def entry_start_def entry_stop_def frame_forbidden_def)


text \<open>The check that the metadata fits its hole measures to the end of the region of the map, not to the
  start of the kernel image: with the kernel at 16 MiB in a region of 48 MiB and a few frames near
  7 GiB, the metadata is laid over the kernel image, which initialisation then fills with zeros.\<close>

theorem meta_overlaps_kernel:
  "\<exists>y. init_layout the_kernel sparse_map = Some y \<and> meta_start y < kernel_start (the_image y) \<and>
     kernel_start (the_image y) < meta_end y"
  by (simp add: map_eval)

end
