(* ===== verification/Vma.thy ===== *)
theory Vma
  imports MakaOS_Prelude "HOL-Library.Monad_Syntax"
begin

text \<open>
  The regions of a process's address space, \<^verbatim>\<open>kernel/mm/mm.c\<close>: a list of areas sorted by address, with
  insertion, removal by trimming and splitting, search for a gap, and cloning. Writers hold the
  list's lock, so each operation is one step. An area refers to the file or shared-memory object that
  backs it by number; the counts of references to both are part of the state. Areas that are
  unlinked wait in \<open>doomed\<close> for the end of a grace period. Whether an allocation succeeds is an argument.
\<close>

section \<open>State\<close>

record vma =
  v_start :: u64
  v_end :: u64
  v_flags :: u32
  v_shmem :: "nat option"
  v_pgoff :: u32
  v_file :: "nat option"
  v_foff :: u64
  v_flen :: u64

record mm =
  vmas :: "vma list"
  brk_start :: u64
  brk :: u64
  mmap_base :: u64
  shm_refs :: "nat \<Rightarrow> nat"
  file_refs :: "nat \<Rightarrow> nat"
  doomed :: "vma list"

abbreviation (input) VMA_R :: u32 where "VMA_R \<equiv> 1"
abbreviation (input) VMA_W :: u32 where "VMA_W \<equiv> 2"
abbreviation (input) VMA_X :: u32 where "VMA_X \<equiv> 4"
abbreviation (input) VMA_ANON :: u32 where "VMA_ANON \<equiv> 8"
abbreviation (input) VMA_SHARED :: u32 where "VMA_SHARED \<equiv> 16"
abbreviation (input) VMA_MMIO :: u32 where "VMA_MMIO \<equiv> 32"
abbreviation (input) VMA_FILE :: u32 where "VMA_FILE \<equiv> 64"
abbreviation (input) VMM_MMAP_BASE :: u64 where "VMM_MMAP_BASE \<equiv> 0x00007FF000000000"
abbreviation (input) PAGE_MASK :: u64 where "PAGE_MASK \<equiv> 0xFFF"

definition aligned :: "u64 \<Rightarrow> bool" where
  "aligned a \<longleftrightarrow> a AND PAGE_MASK = 0"

definition mm_create :: "mm \<Rightarrow> mm" where
  "mm_create env = env\<lparr>vmas := [], brk_start := 0, brk := 0, mmap_base := VMM_MMAP_BASE\<rparr>"

definition count_ref :: "nat option \<Rightarrow> (nat \<Rightarrow> nat) \<Rightarrow> (nat \<Rightarrow> nat)" where
  "count_ref p r = (case p of None \<Rightarrow> r | Some x \<Rightarrow> r(x := r x + 1))"

definition count_unref :: "nat option \<Rightarrow> (nat \<Rightarrow> nat) \<Rightarrow> (nat \<Rightarrow> nat)" where
  "count_unref p r = (case p of None \<Rightarrow> r | Some x \<Rightarrow> r(x := r x - 1))"

definition take_refs :: "vma \<Rightarrow> mm \<Rightarrow> mm" where
  "take_refs v mm = mm\<lparr>shm_refs := count_ref (v_shmem v) (shm_refs mm), file_refs := count_ref (v_file v) (file_refs mm)\<rparr>"

definition drop_refs :: "vma \<Rightarrow> mm \<Rightarrow> mm" where
  "drop_refs v mm = mm\<lparr>shm_refs := count_unref (v_shmem v) (shm_refs mm), file_refs := count_unref (v_file v) (file_refs mm)\<rparr>"

text \<open>The end of the grace period of the oldest unlinked area.\<close>

definition vma_free_rcu :: "mm \<Rightarrow> mm" where
  "vma_free_rcu mm = (case doomed mm of [] \<Rightarrow> mm | v # vs \<Rightarrow> drop_refs v (mm\<lparr>doomed := vs\<rparr>))"

section \<open>Adding and finding\<close>

definition overlaps :: "u64 \<Rightarrow> u64 \<Rightarrow> vma \<Rightarrow> bool" where
  "overlaps s e v \<longleftrightarrow> s < v_end v \<and> e > v_start v"

primrec insert_walk :: "vma \<Rightarrow> vma list \<Rightarrow> vma list" where
  "insert_walk v [] = [v]"
| "insert_walk v (n # ns) = (if v_start n < v_start v then n # insert_walk v ns else v # n # ns)"

fun vma_insert :: "vma \<Rightarrow> vma list \<Rightarrow> vma list" where
  "vma_insert v [] = [v]"
| "vma_insert v (p # ps) = (if v_start v < v_start p then v # p # ps else p # insert_walk v ps)"

definition anon_vma :: "u64 \<Rightarrow> u64 \<Rightarrow> u32 \<Rightarrow> vma" where
  "anon_vma s e fl = \<lparr>v_start = s, v_end = e, v_flags = fl, v_shmem = None, v_pgoff = 0,
     v_file = None, v_foff = 0, v_flen = 0\<rparr>"

definition mm_vma_add :: "bool \<Rightarrow> u64 \<Rightarrow> u64 \<Rightarrow> u32 \<Rightarrow> mm \<Rightarrow> bool \<times> mm" where
  "mm_vma_add ok s e fl mm =
     (if s \<ge> e then (False, mm)
      else if \<not> aligned s then (False, mm)
      else if \<not> aligned e then (False, mm)
      else if \<not> ok then (False, mm)
      else if list_ex (overlaps s e) (vmas mm) then (False, mm)
      else (True, mm\<lparr>vmas := vma_insert (anon_vma s e fl) (vmas mm)\<rparr>))"

definition mm_vma_add_file :: "bool \<Rightarrow> u64 \<Rightarrow> u64 \<Rightarrow> u32 \<Rightarrow> nat option \<Rightarrow> u64 \<Rightarrow> u64 \<Rightarrow> mm \<Rightarrow> bool \<times> mm" where
  "mm_vma_add_file ok s e fl file off len mm =
     (if file = None then (False, mm)
      else if s \<ge> e then (False, mm)
      else if \<not> aligned s then (False, mm)
      else if \<not> aligned e then (False, mm)
      else if \<not> ok then (False, mm)
      else
        (let v = (anon_vma s e (VMA_FILE OR fl))\<lparr>v_file := file, v_foff := off, v_flen := len\<rparr>;
             mm1 = mm\<lparr>file_refs := count_ref file (file_refs mm)\<rparr>
         in if list_ex (overlaps s e) (vmas mm1)
            then (False, mm1\<lparr>file_refs := count_unref file (file_refs mm1)\<rparr>)
            else (True, mm1\<lparr>vmas := vma_insert v (vmas mm1)\<rparr>)))"

definition mm_vma_find :: "mm \<Rightarrow> u64 \<Rightarrow> vma option" where
  "mm_vma_find mm a = List.find (\<lambda>v. a \<ge> v_start v \<and> a < v_end v) (vmas mm)"

section \<open>Cloning\<close>

definition mm_destroy :: "mm \<Rightarrow> mm" where
  "mm_destroy mm = (fold drop_refs (vmas mm) mm)\<lparr>vmas := []\<rparr>"

text \<open>Giving the copy of an area the backing of the original.\<close>

definition attach_backing :: "vma \<Rightarrow> vma \<Rightarrow> vma" where
  "attach_backing w v =
     (let v1 = (if v_shmem w = None then v else v\<lparr>v_shmem := v_shmem w, v_pgoff := v_pgoff w\<rparr>)
      in if v_file w = None then v1 else v1\<lparr>v_file := v_file w, v_foff := v_foff w, v_flen := v_flen w\<rparr>)"

primrec attach_at :: "u64 \<Rightarrow> vma \<Rightarrow> vma list \<Rightarrow> vma list" where
  "attach_at a w [] = []"
| "attach_at a w (v # vs) = (if a \<ge> v_start v \<and> a < v_end v then attach_backing w v # vs else v # attach_at a w vs)"

definition clone_one :: "bool \<Rightarrow> vma \<Rightarrow> mm \<Rightarrow> mm option" where
  "clone_one ok w dst =
     (case mm_vma_add ok (v_start w) (v_end w) (v_flags w) dst of
        (False, d) \<Rightarrow> None
      | (True, d) \<Rightarrow>
          if v_shmem w \<noteq> None \<or> v_file w \<noteq> None
          then (case mm_vma_find d (v_start w) of
                  None \<Rightarrow> Some d
                | Some _ \<Rightarrow> Some (take_refs w (d\<lparr>vmas := attach_at (v_start w) w (vmas d)\<rparr>)))
          else Some d)"

text \<open>On failure the part built so far is destroyed. The result carries the reference counts.\<close>

fun clone_all :: "(nat \<Rightarrow> bool) \<Rightarrow> nat \<Rightarrow> vma list \<Rightarrow> mm \<Rightarrow> bool \<times> mm" where
  "clone_all ok k [] dst = (True, dst)"
| "clone_all ok k (w # ws) dst =
     (case clone_one (ok k) w dst of
        None \<Rightarrow> (False, mm_destroy dst)
      | Some d \<Rightarrow> clone_all ok (k + 1) ws d)"

definition mm_clone :: "bool \<Rightarrow> bool \<Rightarrow> (nat \<Rightarrow> bool) \<Rightarrow> mm \<Rightarrow> bool \<times> mm" where
  "mm_clone ok_mm ok_snap ok src =
     (if \<not> ok_mm then (False, src\<lparr>vmas := []\<rparr>)
      else
        (let dst = (mm_create src)\<lparr>brk_start := brk_start src, brk := brk src, mmap_base := mmap_base src\<rparr>
         in if vmas src = [] then (True, dst)
            else if \<not> ok_snap then (False, mm_destroy dst)
            else clone_all ok 0 (vmas src) dst))"

section \<open>Removing\<close>

definition right_fragment :: "u64 \<Rightarrow> vma \<Rightarrow> vma" where
  "right_fragment e v =
     (let d = e - v_start v;
          r = v\<lparr>v_start := e, v_pgoff := v_pgoff v + ucast (d div 4096)\<rparr>
      in case v_file v of
           None \<Rightarrow> r\<lparr>v_file := None, v_foff := 0, v_flen := 0\<rparr>
         | Some f \<Rightarrow> r\<lparr>v_foff := v_foff v + d, v_flen := (if v_flen v > d then v_flen v - d else 0)\<rparr>)"

text \<open>What remains of the list, the areas unlinked, the fragments created, and whether anything was touched.\<close>

primrec remove_walk :: "(vma \<Rightarrow> bool) \<Rightarrow> u64 \<Rightarrow> u64 \<Rightarrow> vma list \<Rightarrow> vma list \<times> vma list \<times> vma list \<times> bool" where
  "remove_walk ok s e [] = ([], [], [], False)"
| "remove_walk ok s e (v # vs) =
     (case remove_walk ok s e vs of
        (ks, ds, fs, w) \<Rightarrow>
          if v_start v \<ge> e \<or> v_end v \<le> s then (v # ks, ds, fs, w)
          else if v_start v \<ge> s \<and> v_end v \<le> e then (ks, v # ds, fs, True)
          else if v_start v < s \<and> v_end v > e then
            (if \<not> ok v then (v # ks, ds, fs, True)
             else (v\<lparr>v_end := s\<rparr> # right_fragment e v # ks, ds, right_fragment e v # fs, True))
          else if v_start v < s then (v\<lparr>v_end := s\<rparr> # ks, ds, fs, True)
          else (v\<lparr>v_start := e\<rparr> # ks, ds, fs, True))"

definition mm_vma_remove :: "(vma \<Rightarrow> bool) \<Rightarrow> u64 \<Rightarrow> u64 \<Rightarrow> mm \<Rightarrow> bool \<times> mm" where
  "mm_vma_remove ok s e mm =
     (if s \<ge> e then (False, mm)
      else case remove_walk ok s e (vmas mm) of
        (ks, ds, fs, w) \<Rightarrow> (w, fold take_refs fs (mm\<lparr>vmas := ks, doomed := doomed mm @ ds\<rparr>)))"

section \<open>Finding a gap\<close>

text \<open>The search loop, which returns \<open>Some None\<close> when it runs out of room; \<open>None\<close> is a loop that never ends.\<close>

partial_function (option) find_free_loop :: "u64 \<Rightarrow> u64 \<Rightarrow> vma list \<Rightarrow> u64 \<Rightarrow> u64 option option" where
  "find_free_loop lower len vs hint =
     (if hint \<ge> lower + len then
        (let c = (hint - len) AND NOT PAGE_MASK
         in case List.find (overlaps c (c + len)) vs of
              Some v \<Rightarrow> find_free_loop lower len vs (v_start v)
            | None \<Rightarrow> Some (Some c))
      else Some None)"

definition round_up :: "u64 \<Rightarrow> u64" where
  "round_up len = (len + PAGE_MASK) AND NOT PAGE_MASK"

definition mm_vma_find_free :: "u64 \<Rightarrow> mm \<Rightarrow> (u64 \<times> mm) option" where
  "mm_vma_find_free len mm =
     (if len = 0 then Some (0, mm)
      else
        do {
          r \<leftarrow> find_free_loop (brk mm + 0x4000000) (round_up len) (vmas mm) (mmap_base mm);
          Some (case r of None \<Rightarrow> (0, mm) | Some c \<Rightarrow> (c, mm\<lparr>mmap_base := c\<rparr>))
        })"

definition mm_vma_pte_flags :: "u32 \<Rightarrow> u64" where
  "mm_vma_pte_flags fl =
     (let p = 0x1 OR 0x4;
          p1 = (if fl AND VMA_W \<noteq> 0 then p OR 0x2 else p)
      in if fl AND VMA_X = 0 then p1 OR 0x8000000000000000 else p1)"

section \<open>Invariant and view\<close>

text \<open>Areas are not empty, sorted and disjoint.\<close>

primrec vmas_ok :: "vma list \<Rightarrow> bool" where
  "vmas_ok [] \<longleftrightarrow> True"
| "vmas_ok (v # vs) \<longleftrightarrow> v_start v < v_end v \<and> (\<forall>w \<in> set vs. v_end v \<le> v_start w) \<and> vmas_ok vs"

definition vmas_aligned :: "vma list \<Rightarrow> bool" where
  "vmas_aligned vs \<longleftrightarrow> (\<forall>v \<in> set vs. aligned (v_start v) \<and> aligned (v_end v))"

definition covers :: "vma \<Rightarrow> u64 \<Rightarrow> bool" where
  "covers v a \<longleftrightarrow> v_start v \<le> a \<and> a < v_end v"

text \<open>The area at an address.\<close>

definition at :: "vma list \<Rightarrow> u64 \<Rightarrow> vma option" where
  "at vs a = List.find (\<lambda>v. covers v a) vs"

text \<open>Where an address of an area is backed: the file with its offset and whether that is within the
  file's part, the shared object with its page.\<close>

definition backing :: "vma \<Rightarrow> u64 \<Rightarrow> (nat \<times> u64 \<times> bool) option \<times> (nat \<times> u32) option" where
  "backing v a =
     (map_option (\<lambda>f. (f, v_foff v + (a - v_start v), a - v_start v < v_flen v)) (v_file v),
      map_option (\<lambda>x. (x, v_pgoff v + ucast ((a - v_start v) div 4096))) (v_shmem v))"

section \<open>Lemmas\<close>

lemma find_at: "mm_vma_find mm a = at (vmas mm) a"
  by (simp add: mm_vma_find_def at_def covers_def)

lemma at_simps [simp]:
  "at [] a = None"
  "at (v # vs) a = (if covers v a then Some v else at vs a)"
  by (simp_all add: at_def)

lemma vmas_ok_bounds: "vmas_ok vs \<Longrightarrow> v \<in> set vs \<Longrightarrow> v_start v < v_end v"
  by (induction vs) auto

lemma at_SomeD: "at vs a = Some v \<Longrightarrow> v \<in> set vs \<and> covers v a"
  by (induction vs) (auto split: if_splits)

lemma at_None_iff: "at vs a = None \<longleftrightarrow> (\<forall>v \<in> set vs. \<not> covers v a)"
  by (induction vs) auto

lemma at_member:
  assumes "vmas_ok vs" and "v \<in> set vs" and "covers v a"
  shows "at vs a = Some v"
  using assms
proof (induction vs)
  case (Cons w vs)
  show ?case
  proof (cases "v = w")
    case False
    then have "v_end w \<le> v_start v"
      using Cons.prems by auto
    then have "\<not> covers w a"
      using Cons.prems(3) by (auto simp: covers_def)
    with False Cons show ?thesis
      by auto
  qed (use Cons.prems in auto)
qed simp

subsection \<open>Insertion\<close>

lemma overlaps_iff: "v_start v < v_end v \<Longrightarrow> s < e \<Longrightarrow> \<not> overlaps s e v \<longleftrightarrow> v_end v \<le> s \<or> e \<le> v_start v"
  by (auto simp: overlaps_def)

lemma insert_walk_set: "set (insert_walk v vs) = insert v (set vs)"
  by (induction vs) auto

lemma vma_insert_set [simp]: "set (vma_insert v vs) = insert v (set vs)"
  by (cases vs) (auto simp: insert_walk_set)

lemma insert_walk_ok:
  assumes "vmas_ok vs" and "v_start v < v_end v" and "\<forall>w \<in> set vs. \<not> overlaps (v_start v) (v_end v) w"
  shows "vmas_ok (insert_walk v vs)"
  using assms
proof (induction vs)
  case (Cons n ns)
  have n: "v_start n < v_end n" "v_end n \<le> v_start v \<or> v_end v \<le> v_start n"
    using Cons.prems overlaps_iff [of n "v_start v" "v_end v"] by auto
  show ?case
  proof (cases "v_start n < v_start v")
    case True
    then have "v_end n \<le> v_start v"
      using n Cons.prems(2) by auto
    with True Cons show ?thesis
      by (auto simp: insert_walk_set)
  next
    case False
    then have le: "v_end v \<le> v_start n"
      using n by auto
    have "v_end v \<le> v_start w" if "w \<in> set ns" for w
    proof -
      have "v_end n \<le> v_start w"
        using that Cons.prems(1) by simp
      then show ?thesis
        by (rule order_trans [OF order_trans [OF le less_imp_le [OF n(1)]]])
    qed
    with le show ?thesis
      using False Cons.prems by auto
  qed
qed simp

lemma vma_insert_walk: "vmas_ok vs \<Longrightarrow> vma_insert v vs = insert_walk v vs \<or> (\<exists>p ps. vs = p # ps \<and> v_start v = v_start p)"
  by (cases vs) auto

lemma vma_insert_ok:
  assumes "vmas_ok vs" and "v_start v < v_end v" and "\<forall>w \<in> set vs. \<not> overlaps (v_start v) (v_end v) w"
  shows "vmas_ok (vma_insert v vs)"
proof (cases "\<exists>p ps. vs = p # ps \<and> v_start v = v_start p")
  case True
  then obtain p ps where "vs = p # ps" "v_start v = v_start p"
    by blast
  then show ?thesis
    using assms vmas_ok_bounds [OF assms(1), of p] by (auto simp: overlaps_def)
next
  case False
  then have "vma_insert v vs = insert_walk v vs"
    using vma_insert_walk [OF assms(1)] by blast
  then show ?thesis
    using insert_walk_ok [OF assms] by simp
qed

lemma at_insert:
  assumes "vmas_ok (vma_insert v vs)" and "vmas_ok vs"
  shows "at (vma_insert v vs) a = (if covers v a then Some v else at vs a)"
proof (cases "covers v a")
  case False
  show ?thesis
  proof (cases "at vs a")
    case None
    then show ?thesis
      using False at_None_iff [of "vma_insert v vs" a] at_None_iff [of vs a] by auto
  next
    case (Some w)
    then show ?thesis
      using False at_SomeD [OF Some] at_member [OF assms(1), of w a] by auto
  qed
qed (use at_member [OF assms(1)] in auto)

subsection \<open>Removal\<close>

text \<open>What remains of one area.\<close>

definition remains :: "(vma \<Rightarrow> bool) \<Rightarrow> u64 \<Rightarrow> u64 \<Rightarrow> vma \<Rightarrow> vma list" where
  "remains ok s e v =
     (if v_start v \<ge> e \<or> v_end v \<le> s then [v]
      else if v_start v \<ge> s \<and> v_end v \<le> e then []
      else if v_start v < s \<and> v_end v > e then
        (if ok v then [v\<lparr>v_end := s\<rparr>, right_fragment e v] else [v])
      else if v_start v < s then [v\<lparr>v_end := s\<rparr>]
      else [v\<lparr>v_start := e\<rparr>])"

definition split_off :: "(vma \<Rightarrow> bool) \<Rightarrow> u64 \<Rightarrow> u64 \<Rightarrow> vma \<Rightarrow> vma list" where
  "split_off ok s e v = (if v_start v < s \<and> v_end v > e \<and> ok v then [right_fragment e v] else [])"

lemma remove_walk_eq:
  "s < e \<Longrightarrow> remove_walk ok s e vs =
     (concat (map (remains ok s e) vs), filter (\<lambda>v. overlaps s e v \<and> v_start v \<ge> s \<and> v_end v \<le> e) vs,
      concat (map (split_off ok s e) vs), list_ex (overlaps s e) vs)"
  by (induction vs) (auto simp: remains_def split_off_def overlaps_def not_le)

lemma right_fragment_simps [simp]:
  "v_start (right_fragment e v) = e" "v_end (right_fragment e v) = v_end v" "v_flags (right_fragment e v) = v_flags v"
  "v_file (right_fragment e v) = v_file v" "v_shmem (right_fragment e v) = v_shmem v"
  by (simp_all add: right_fragment_def Let_def split: option.split)

lemma remains_within:
  assumes "s < e" and "v_start v < v_end v"
  shows "vmas_ok (remains ok s e v)" "p \<in> set (remains ok s e v) \<Longrightarrow> v_start v \<le> v_start p \<and> v_end p \<le> v_end v"
  using assms by (auto simp: remains_def split: if_splits)

text \<open>Replacing each area by pieces of it.\<close>

lemma vmas_ok_append:
  "vmas_ok (xs @ ys) \<longleftrightarrow> vmas_ok xs \<and> vmas_ok ys \<and> (\<forall>x \<in> set xs. \<forall>y \<in> set ys. v_end x \<le> v_start y)"
  by (induction xs) auto

lemma at_append: "at (xs @ ys) a = (case at xs a of None \<Rightarrow> at ys a | Some v \<Rightarrow> Some v)"
  by (induction xs) auto

lemma pieces_ok:
  assumes "vmas_ok vs" and "\<And>v. v \<in> set vs \<Longrightarrow> vmas_ok (f v)"
    and "\<And>v p. v \<in> set vs \<Longrightarrow> p \<in> set (f v) \<Longrightarrow> v_start v \<le> v_start p \<and> v_end p \<le> v_end v"
  shows "vmas_ok (concat (map f vs))"
  using assms
proof (induction vs)
  case (Cons v vs)
  have "v_end x \<le> v_start y" if "x \<in> set (f v)" "w \<in> set vs" "y \<in> set (f w)" for x w y
  proof -
    have "v_end x \<le> v_end v" "v_end v \<le> v_start w" "v_start w \<le> v_start y"
      using that Cons.prems by auto
    then show ?thesis
      by order
  qed
  with Cons show ?case
    by (auto simp: vmas_ok_append)
qed simp

lemma pieces_at:
  assumes "vmas_ok vs"
    and "\<And>v p. v \<in> set vs \<Longrightarrow> p \<in> set (f v) \<Longrightarrow> v_start v \<le> v_start p \<and> v_end p \<le> v_end v"
  shows "at (concat (map f vs)) a = Option.bind (at vs a) (\<lambda>v. at (f v) a)"
  using assms
proof (induction vs)
  case (Cons v vs)
  have out: "at (f w) a = None" if "w \<in> set (v # vs)" "\<not> covers w a" for w
    using that Cons.prems(2) [of w] by (fastforce simp: at_None_iff covers_def)
  have "at vs a = None" if "covers v a"
    using that Cons.prems(1) by (fastforce simp: at_None_iff covers_def)
  with Cons out [of v] show ?case
    by (auto simp: at_append split: option.splits)
qed simp

lemma at_remains:
  assumes "s < e" and "covers v a" and "ok v"
  shows "at (remains ok s e v) a =
    (if s \<le> a \<and> a < e then None
     else Some (if a < s then (if v_end v \<le> s then v else v\<lparr>v_end := s\<rparr>)
                else if e \<le> v_start v then v
                else if v_start v < s then right_fragment e v
                else v\<lparr>v_start := e\<rparr>))"
  using assms by (auto simp: remains_def covers_def)

subsection \<open>Backing\<close>

lemma aligned_dvd: "aligned a \<longleftrightarrow> 4096 dvd unat a"
proof -
  have "a AND PAGE_MASK = take_bit 12 a"
    by (simp add: take_bit_eq_mask mask_eq_exp_minus_1)
  then have "unat (a AND PAGE_MASK) = unat a mod 4096"
    by (simp add: take_bit_eq_mod unat_mod)
  then show ?thesis
    unfolding aligned_def by (metis dvd_eq_mod_eq_0 unat_eq_zero)
qed

lemma pages_between:
  fixes a b c :: u64
  assumes "a \<le> b" and "b \<le> c" and "aligned a" and "aligned b"
  shows "(ucast ((b - a) div 4096) + ucast ((c - b) div 4096) :: u32) = ucast ((c - a) div 4096)"
proof -
  have "unat (c - a) = unat (b - a) + unat (c - b)" "4096 dvd unat (b - a)"
    using assms by (auto simp: unat_sub word_le_nat_alt aligned_dvd)
  then have "unat ((c - a) div 4096) = unat ((b - a) div 4096) + unat ((c - b) div 4096)"
    by (simp add: unat_div div_plus_div_distrib_dvd_left)
  then show ?thesis
    by (metis of_nat_add of_nat_unat)
qed

lemma less_shift:
  fixes a b c n :: u64
  assumes "a \<le> b" and "b \<le> c"
  shows "c - b < (if n > b - a then n - (b - a) else 0) \<longleftrightarrow> c - a < n"
proof -
  have "unat (c - a) = unat (b - a) + unat (c - b)"
    using assms by (simp add: unat_sub word_le_nat_alt)
  then show ?thesis
    by (auto simp: word_less_nat_alt unat_sub word_le_nat_alt)
qed

lemma backing_right:
  assumes "v_start v \<le> e" and "e \<le> a" and "aligned (v_start v)" and "aligned e"
  shows "backing (right_fragment e v) a = backing v a"
  using pages_between [OF assms] less_shift [OF assms(1,2), of "v_flen v"]
  by (cases "v_file v") (simp_all add: backing_def right_fragment_def Let_def add.assoc split: option.split)

lemma backing_shrink [simp]: "backing (v\<lparr>v_end := x\<rparr>) a = backing v a"
  by (simp add: backing_def)

text \<open>What an address gives a process that touches it.\<close>

definition seen :: "vma list \<Rightarrow> u64 \<Rightarrow> (u32 \<times> (nat \<times> u64 \<times> bool) option \<times> (nat \<times> u32) option) option" where
  "seen vs a = map_option (\<lambda>v. (v_flags v, backing v a)) (at vs a)"

definition prot :: "vma list \<Rightarrow> u64 \<Rightarrow> u32 option" where
  "prot vs a = map_option v_flags (at vs a)"

text \<open>An area that begins inside the removed range and goes on beyond it.\<close>

definition front_cut :: "u64 \<Rightarrow> u64 \<Rightarrow> vma \<Rightarrow> bool" where
  "front_cut s e v \<longleftrightarrow> s \<le> v_start v \<and> v_start v < e \<and> e < v_end v"

lemma vmas_remove:
  assumes "s < e"
  shows "vmas (snd (mm_vma_remove ok s e mm)) = concat (map (remains ok s e) (vmas mm))"
proof -
  have "vmas (fold take_refs fs m) = vmas m" for fs m
    by (induction fs arbitrary: m) (simp_all add: take_refs_def)
  then show ?thesis
    using assms by (simp add: mm_vma_remove_def remove_walk_eq not_le [symmetric])
qed

lemma remove_ok:
  assumes "vmas_ok (vmas mm)"
  shows "vmas_ok (vmas (snd (mm_vma_remove ok s e mm)))"
proof (cases "s < e")
  case True
  then show ?thesis
    unfolding vmas_remove [OF True]
    by (intro pieces_ok [OF assms]) (use remains_within vmas_ok_bounds [OF assms] in blast)+
qed (use assms in \<open>simp add: mm_vma_remove_def not_less\<close>)

lemma at_remove:
  assumes "vmas_ok (vmas mm)" and "s < e"
  shows "at (vmas (snd (mm_vma_remove ok s e mm))) a = Option.bind (at (vmas mm) a) (\<lambda>v. at (remains ok s e v) a)"
  unfolding vmas_remove [OF assms(2)]
  by (rule pieces_at [OF assms(1)]) (use remains_within [OF assms(2)] vmas_ok_bounds [OF assms(1)] in blast)

lemma prot_remove:
  assumes "vmas_ok (vmas mm)" and "s < e" and "\<forall>v \<in> set (vmas mm). ok v"
  shows "prot (vmas (snd (mm_vma_remove ok s e mm))) a = (if s \<le> a \<and> a < e then None else prot (vmas mm) a)"
proof (cases "at (vmas mm) a")
  case (Some v)
  then have "v \<in> set (vmas mm)" "covers v a"
    using at_SomeD by blast+
  then show ?thesis
    using Some assms(3) at_remains [OF assms(2), of v a ok] by (simp add: prot_def at_remove [OF assms(1,2)])
qed (simp add: prot_def at_remove [OF assms(1,2)])

lemma seen_remove:
  assumes "vmas_ok (vmas mm)" and "s < e" and "\<forall>v \<in> set (vmas mm). ok v" and "vmas_aligned (vmas mm)" and "aligned e"
    and "\<forall>v \<in> set (vmas mm). \<not> front_cut s e v"
  shows "seen (vmas (snd (mm_vma_remove ok s e mm))) a = (if s \<le> a \<and> a < e then None else seen (vmas mm) a)"
proof (cases "at (vmas mm) a")
  case (Some v)
  then have v: "v \<in> set (vmas mm)" "covers v a"
    using at_SomeD by blast+
  then have "backing (right_fragment e v) a = backing v a" if "v_start v < s" "\<not> a < e"
    using that assms(2,4,5) by (intro backing_right) (auto simp: vmas_aligned_def)
  moreover have "\<not> front_cut s e v" "ok v"
    using assms(3,6) v(1) by auto
  ultimately show ?thesis
    using Some v(2) at_remains [OF assms(2) v(2), of ok] assms(2)
    by (auto simp: seen_def at_remove [OF assms(1,2)] front_cut_def covers_def not_less)
qed (simp add: seen_def at_remove [OF assms(1,2)])

end
