(* ===== verification/Vma_Props.thy ===== *)
theory Vma_Props
  imports Vma
begin

text \<open>
  What the operations on areas of theory Vma guarantee together: the list stays sorted, disjoint and
  aligned, the reference counts are exact through deferred frees, a clone shows the same memory, and the
  search for a gap ends, finds only free ranges and finds one if there is one below its starting point.
\<close>

section \<open>Reference counts\<close>

text \<open>The number of areas that refer to an object.\<close>

definition held :: "(vma \<Rightarrow> nat option) \<Rightarrow> vma list \<Rightarrow> nat \<Rightarrow> nat" where
  "held f vs x = length (filter (\<lambda>v. f v = Some x) vs)"

lemma held_simps [simp]:
  "held f [] x = 0"
  "held f (v # vs) x = (if f v = Some x then 1 else 0) + held f vs x"
  "held f (vs @ ws) x = held f vs x + held f ws x"
  by (simp_all add: held_def)

lemma count_ref_apply: "count_ref p r x = r x + (if p = Some x then 1 else 0)"
  by (auto simp: count_ref_def split: option.split)

lemma count_unref_apply: "count_unref p r x = r x - (if p = Some x then 1 else 0)"
  by (auto simp: count_unref_def split: option.split)

lemma take_refs_simps [simp]:
  "vmas (take_refs v mm) = vmas mm" "doomed (take_refs v mm) = doomed mm" "brk (take_refs v mm) = brk mm"
  "mmap_base (take_refs v mm) = mmap_base mm" "brk_start (take_refs v mm) = brk_start mm"
  "shm_refs (take_refs v mm) x = shm_refs mm x + (if v_shmem v = Some x then 1 else 0)"
  "file_refs (take_refs v mm) x = file_refs mm x + (if v_file v = Some x then 1 else 0)"
  by (simp_all add: take_refs_def count_ref_apply)

lemma drop_refs_simps [simp]:
  "vmas (drop_refs v mm) = vmas mm" "doomed (drop_refs v mm) = doomed mm"
  "shm_refs (drop_refs v mm) x = shm_refs mm x - (if v_shmem v = Some x then 1 else 0)"
  "file_refs (drop_refs v mm) x = file_refs mm x - (if v_file v = Some x then 1 else 0)"
  by (simp_all add: drop_refs_def count_unref_apply)

lemma fold_take_refs:
  "vmas (fold take_refs fs mm) = vmas mm" "doomed (fold take_refs fs mm) = doomed mm"
  "shm_refs (fold take_refs fs mm) x = shm_refs mm x + held v_shmem fs x"
  "file_refs (fold take_refs fs mm) x = file_refs mm x + held v_file fs x"
  by (induction fs arbitrary: mm) simp_all

lemma fold_drop_refs:
  "vmas (fold drop_refs fs mm) = vmas mm" "doomed (fold drop_refs fs mm) = doomed mm"
  "shm_refs (fold drop_refs fs mm) x = shm_refs mm x - held v_shmem fs x"
  "file_refs (fold drop_refs fs mm) x = file_refs mm x - held v_file fs x"
  by (induction fs arbitrary: mm) simp_all

lemma held_insert [simp]: "held f (vma_insert v vs) x = held f (v # vs) x"
proof -
  have "held f (insert_walk v ws) x = held f (v # ws) x" for ws
    by (induction ws) auto
  then show ?thesis
    by (cases vs) auto
qed

text \<open>Pieces of an area refer to what it refers to; the area itself is either kept or unlinked.\<close>

lemma held_remove:
  assumes "s < e" and "f = v_shmem \<or> f = v_file"
  shows "held f (concat (map (remains ok s e) vs)) x +
      held f (filter (\<lambda>v. overlaps s e v \<and> v_start v \<ge> s \<and> v_end v \<le> e) vs) x =
    held f vs x + held f (concat (map (split_off ok s e) vs)) x"
  using assms by (induction vs) (auto simp: remains_def split_off_def overlaps_def not_le)

section \<open>Invariant\<close>

text \<open>Everything but the areas holds \<open>bs\<close> references to shared objects and \<open>bf\<close> to files.\<close>

definition mm_inv :: "(nat \<Rightarrow> nat) \<Rightarrow> (nat \<Rightarrow> nat) \<Rightarrow> mm \<Rightarrow> bool" where
  "mm_inv bs bf mm \<longleftrightarrow> vmas_ok (vmas mm) \<and> vmas_aligned (vmas mm) \<and>
     (\<forall>x. shm_refs mm x = bs x + held v_shmem (vmas mm @ doomed mm) x) \<and>
     (\<forall>x. file_refs mm x = bf x + held v_file (vmas mm @ doomed mm) x)"

lemma no_overlap: "\<not> list_ex (overlaps s e) vs \<longleftrightarrow> (\<forall>w \<in> set vs. \<not> overlaps s e w)"
  by (simp add: list_ex_iff)

lemma add_inv:
  assumes "mm_inv bs bf mm"
  shows "mm_inv bs bf (snd (mm_vma_add ok s e fl mm))"
  using assms vma_insert_ok [of "vmas mm" "anon_vma s e fl"]
  by (auto simp: mm_vma_add_def mm_inv_def vmas_aligned_def no_overlap anon_vma_def not_le)

lemma add_file_inv:
  assumes "mm_inv bs bf mm"
  shows "mm_inv bs bf (snd (mm_vma_add_file ok s e fl file off len mm))"
proof -
  define v where "v = (anon_vma s e (VMA_FILE OR fl))\<lparr>v_file := file, v_foff := off, v_flen := len\<rparr>"
  have v: "v_start v = s" "v_end v = e" "v_file v = file" "v_shmem v = None"
    by (simp_all add: v_def anon_vma_def)
  show ?thesis
    using assms vma_insert_ok [of "vmas mm" v]
    by (auto simp: mm_vma_add_file_def Let_def mm_inv_def vmas_aligned_def no_overlap v count_ref_apply
        count_unref_apply not_le simp flip: v_def)
qed

lemma remains_aligned:
  "p \<in> set (remains ok s e v) \<Longrightarrow> aligned (v_start v) \<Longrightarrow> aligned (v_end v) \<Longrightarrow> aligned s \<Longrightarrow> aligned e \<Longrightarrow>
    aligned (v_start p) \<and> aligned (v_end p)"
  by (auto simp: remains_def split: if_splits)

lemma area_remove_inv:
  assumes "mm_inv bs bf mm" and "aligned s" and "aligned e"
  shows "mm_inv bs bf (snd (mm_vma_remove ok s e mm))"
proof (cases "s < e")
  case True
  let ?m = "snd (mm_vma_remove ok s e mm)"
  have r: "vmas ?m = concat (map (remains ok s e) (vmas mm))"
    "doomed ?m = doomed mm @ filter (\<lambda>v. overlaps s e v \<and> v_start v \<ge> s \<and> v_end v \<le> e) (vmas mm)"
    "shm_refs ?m x = shm_refs mm x + held v_shmem (concat (map (split_off ok s e) (vmas mm))) x"
    "file_refs ?m x = file_refs mm x + held v_file (concat (map (split_off ok s e) (vmas mm))) x" for x
    using True by (simp_all add: mm_vma_remove_def remove_walk_eq fold_take_refs not_le [symmetric])
  have "vmas_aligned (vmas ?m)"
    using assms remains_aligned unfolding mm_inv_def vmas_aligned_def r(1) by fastforce
  moreover have "vmas_ok (vmas ?m)"
    using assms(1) by (intro remove_ok) (simp add: mm_inv_def)
  ultimately show ?thesis
    using assms(1) held_remove [OF True, of v_shmem ok "vmas mm"] held_remove [OF True, of v_file ok "vmas mm"]
    unfolding mm_inv_def r by (simp add: algebra_simps)
qed (use assms in \<open>simp add: mm_vma_remove_def not_less\<close>)

lemma free_rcu_inv:
  assumes "mm_inv bs bf mm"
  shows "mm_inv bs bf (vma_free_rcu mm)"
  using assms by (auto simp: vma_free_rcu_def mm_inv_def split: list.split)

lemma find_free_inv:
  assumes "mm_inv bs bf mm" and "mm_vma_find_free len mm = Some (c, mm')"
  shows "mm_inv bs bf mm'"
  using assms by (auto simp: mm_vma_find_free_def mm_inv_def split: if_splits bind_splits option.splits)

section \<open>The search for a gap\<close>

definition page_floor :: "u64 \<Rightarrow> u64" where
  "page_floor a = a AND NOT PAGE_MASK"

lemma page_mask: "PAGE_MASK = mask 12"
  by (simp add: mask_eq_exp_minus_1)

lemma page_floor_diff: "page_floor a = a - take_bit 12 a"
proof -
  have "page_floor a + take_bit 12 a = page_floor a OR take_bit 12 a"
    by (rule disjunctive_add_eq_or, rule bit_word_eqI) (auto simp: page_floor_def page_mask bit_simps)
  also have "\<dots> = a"
    by (rule bit_word_eqI) (auto simp: page_floor_def page_mask bit_simps)
  finally show ?thesis
    by (simp add: eq_diff_eq)
qed

lemma aligned_take_bit: "aligned a \<longleftrightarrow> take_bit 12 a = 0"
  by (simp add: aligned_def page_mask take_bit_eq_mask)

lemma page_floor_aligned: "aligned (page_floor a)"
  unfolding aligned_take_bit by (rule bit_word_eqI) (auto simp: page_floor_def page_mask bit_simps)

lemma page_floor_le: "page_floor a \<le> a"
  by (simp add: page_floor_def word_and_le2)

lemma unat_page_floor: "unat (page_floor a) = unat a - unat a mod 4096"
proof -
  have "take_bit 12 a \<le> a"
    by (simp add: take_bit_eq_mask word_and_le2)
  then show ?thesis
    by (simp add: page_floor_diff unat_sub word_le_nat_alt take_bit_eq_mod unat_mod)
qed

lemma unat_sub_mod:
  assumes "aligned n"
  shows "unat (h - n) mod 4096 = unat h mod 4096"
proof -
  have "(unat (h - n) + unat n) mod 2 ^ 64 = unat h"
    using unat_word_ariths(1) [of "h - n" n] by simp
  then have "(unat (h - n) + unat n) mod 2 ^ 64 mod 4096 = unat h mod 4096"
    by simp
  moreover have "(unat (h - n) + unat n) mod 2 ^ 64 mod 4096 = (unat (h - n) + unat n) mod 4096"
    by (rule mod_mod_cancel) simp
  ultimately show ?thesis
    using assms by (auto simp: aligned_dvd mod_add_right_eq [symmetric, of _ "unat n"])
qed

lemma page_floor_sub: "aligned n \<Longrightarrow> page_floor (h - n) + n = page_floor h"
proof -
  assume "aligned n"
  then have "unat (take_bit 12 (h - n)) = unat (take_bit 12 h)"
    using unat_sub_mod by (simp add: take_bit_eq_mod unat_mod)
  then have "take_bit 12 (h - n) = take_bit 12 h"
    by (rule unsigned_word_eqI)
  then show ?thesis
    by (simp add: page_floor_diff)
qed

lemma round_up_aligned: "aligned (round_up n)"
  using page_floor_aligned by (simp add: round_up_def page_floor_def)

lemma find_SomeD: "List.find P xs = Some x \<Longrightarrow> x \<in> set xs \<and> P x"
  by (auto simp: find_Some_iff)

text \<open>One step of the search: the next starting point is lower, and no range between the two is free.\<close>

lemma gap_step:
  assumes "aligned n" and "c = page_floor (h - n)" and "List.find (overlaps c (c + n)) vs = Some v"
  shows "v_start v < h" and "v \<in> set vs"
    and "aligned d \<Longrightarrow> unat d + unat n \<le> unat h \<Longrightarrow> unat h \<ge> unat n \<Longrightarrow> \<not> unat d + unat n \<le> unat (v_start v) \<Longrightarrow> overlaps d (d + n) v"
proof -
  have v: "v \<in> set vs" "c < v_end v" "v_start v < page_floor h"
    using find_SomeD [OF assms(3)] page_floor_sub [OF assms(1), of h] assms(2) by (auto simp: overlaps_def)
  then show "v_start v < h" "v \<in> set vs"
    using page_floor_le [of h] by auto
  assume d: "aligned d" "unat d + unat n \<le> unat h" "unat h \<ge> unat n" "\<not> unat d + unat n \<le> unat (v_start v)"
  have "unat h < 2 ^ 64"
    using unat_bound [of h] by simp
  then have dn: "unat (d + n) = unat d + unat n"
    using d(2) by (simp add: unat_word_ariths)
  have "unat d + unat n \<le> unat (page_floor h)"
  proof -
    have "4096 dvd unat d + unat n"
      using d(1) assms(1) by (simp add: aligned_dvd)
    then obtain k where k: "unat d + unat n = 4096 * k"
      by (rule dvdE)
    then have "k \<le> unat h div 4096"
      using d(2) by (simp add: less_eq_div_iff_mult_less_eq mult.commute)
    then show ?thesis
      unfolding k unat_page_floor by (simp add: minus_mod_eq_mult_div)
  qed
  moreover have "unat c + unat n = unat (page_floor h)"
  proof -
    have "n \<le> h"
      using d(3) by (simp add: word_le_nat_alt)
    then have "unat c + unat n \<le> unat h"
      using page_floor_le [of "h - n"] assms(2) by (simp add: unat_sub word_le_nat_alt)
    then have "unat (c + n) = unat c + unat n"
      using \<open>unat h < 2 ^ 64\<close> by (simp add: unat_word_ariths)
    then show ?thesis
      using page_floor_sub [OF assms(1), of h] assms(2) by simp
  qed
  ultimately have "d \<le> c"
    by (simp add: word_le_nat_alt)
  then show "overlaps d (d + n) v"
    using v(2) d(4) dn by (auto simp: overlaps_def word_less_nat_alt word_le_nat_alt)
qed

text \<open>The search ends. What it returns is free and below the starting point; if it gives up, no aligned range of
  the size between the limit and the starting point is free.\<close>

lemma find_free_loop_correct:
  assumes "aligned n" and "unat lower + unat n < 2 ^ 64"
  shows "\<exists>r. find_free_loop lower n vs h = Some r \<and>
    (case r of
       Some c \<Rightarrow> aligned c \<and> unat lower < unat c + 4096 \<and> unat c + unat n \<le> unat h \<and> (\<forall>v \<in> set vs. \<not> overlaps c (c + n) v)
     | None \<Rightarrow> \<forall>d. aligned d \<and> unat lower \<le> unat d \<and> unat d + unat n \<le> unat h \<longrightarrow>
         (\<exists>v \<in> set vs. overlaps d (d + n) v))"
proof (induction "unat h" arbitrary: h rule: less_induct)
  case less
  let ?c = "page_floor (h - n)"
  have ln: "unat (lower + n) = unat lower + unat n"
    using assms(2) by (simp add: unat_word_ariths)
  show ?case
  proof (cases "h \<ge> lower + n")
    case False
    then have "unat h < unat lower + unat n"
      using ln by (simp add: word_le_nat_alt)
    then show ?thesis
      using False by (subst find_free_loop.simps) auto
  next
    case True
    then have h: "unat lower + unat n \<le> unat h"
      using ln by (simp add: word_le_nat_alt)
    have hn: "unat (h - n) = unat h - unat n"
      using h by (simp add: unat_sub word_le_nat_alt)
    have m: "unat (h - n) mod 4096 < 4096"
      by simp
    have c: "unat ?c \<le> unat h - unat n" "unat lower < unat ?c + 4096"
      using h m unfolding unat_page_floor hn by linarith+
    show ?thesis
    proof (cases "List.find (overlaps ?c (?c + n)) vs")
      case None
      then have "find_free_loop lower n vs h = Some (Some ?c)"
        using True by (subst find_free_loop.simps) (simp add: Let_def page_floor_def)
      moreover have "\<forall>v \<in> set vs. \<not> overlaps ?c (?c + n) v"
        using None by (simp add: find_None_iff)
      ultimately show ?thesis
        using c h page_floor_aligned by auto
    next
      case (Some v)
      note g = gap_step [OF assms(1) refl Some]
      have eq: "find_free_loop lower n vs h = find_free_loop lower n vs (v_start v)"
        using True Some by (subst find_free_loop.simps) (simp add: Let_def page_floor_def)
      obtain r where r: "find_free_loop lower n vs (v_start v) = Some r"
        "case r of Some c \<Rightarrow> aligned c \<and> unat lower < unat c + 4096 \<and> unat c + unat n \<le> unat (v_start v) \<and>
             (\<forall>v \<in> set vs. \<not> overlaps c (c + n) v)
         | None \<Rightarrow> \<forall>d. aligned d \<and> unat lower \<le> unat d \<and> unat d + unat n \<le> unat (v_start v) \<longrightarrow>
             (\<exists>v \<in> set vs. overlaps d (d + n) v)"
        using less [of "v_start v"] g(1) by (auto simp: word_less_nat_alt)
      have "unat (v_start v) \<le> unat h"
        using g(1) by (simp add: word_less_nat_alt)
      then show ?thesis
        using r g(2,3) h unfolding eq by (cases r) (auto dest: le_trans)
    qed
  qed
qed

section \<open>Cloning\<close>

text \<open>An area without the fields that mean nothing for it.\<close>

definition tidy :: "vma \<Rightarrow> vma" where
  "tidy v = attach_backing v (anon_vma (v_start v) (v_end v) (v_flags v))"

lemma tidy_simps [simp]:
  "v_start (tidy v) = v_start v" "v_end (tidy v) = v_end v" "v_flags (tidy v) = v_flags v"
  "v_shmem (tidy v) = v_shmem v" "v_file (tidy v) = v_file v" "backing (tidy v) a = backing v a"
  by (auto simp: tidy_def attach_backing_def anon_vma_def backing_def Let_def)

lemma tidy_plain: "v_shmem v = None \<Longrightarrow> v_file v = None \<Longrightarrow> tidy v = anon_vma (v_start v) (v_end v) (v_flags v)"
  by (simp add: tidy_def attach_backing_def)

lemma held_tidy [simp]: "held v_shmem (map tidy vs) x = held v_shmem vs x" "held v_file (map tidy vs) x = held v_file vs x"
  by (induction vs) simp_all

lemma seen_tidy: "seen (map tidy vs) a = seen vs a"
  by (induction vs) (auto simp: seen_def covers_def)

lemma insert_last:
  assumes "\<forall>p \<in> set ps. v_start p < v_start x"
  shows "vma_insert x ps = ps @ [x]"
proof -
  have "\<forall>p \<in> set qs. v_start p < v_start x \<Longrightarrow> insert_walk x qs = qs @ [x]" for qs
    by (induction qs) auto
  with assms show ?thesis
    by (cases ps) auto
qed

lemma attach_last:
  "\<forall>p \<in> set ps. \<not> covers p a \<Longrightarrow> covers x a \<Longrightarrow> attach_at a w (ps @ [x]) = ps @ [attach_backing w x]"
  by (induction ps) (auto simp: covers_def)

text \<open>One area after the ones already copied.\<close>

lemma clone_one_spec:
  assumes "vmas_ok (vmas dst @ [w])" and "aligned (v_start w)" and "aligned (v_end w)"
  shows "clone_one False w dst = None"
    "clone_one True w dst = Some (take_refs w (dst\<lparr>vmas := vmas dst @ [tidy w]\<rparr>))"
proof -
  let ?x = "anon_vma (v_start w) (v_end w) (v_flags w)"
  let ?d = "dst\<lparr>vmas := vmas dst @ [?x]\<rparr>"
  show "clone_one False w dst = None"
    by (simp add: clone_one_def mm_vma_add_def)
  have w: "v_start w < v_end w" "\<forall>p \<in> set (vmas dst). v_end p \<le> v_start w" "vmas_ok (vmas dst)"
    using assms(1) by (auto simp: vmas_ok_append)
  have p: "v_start p < v_start w" if "p \<in> set (vmas dst)" for p
    using that w vmas_ok_bounds [OF w(3)] by (meson less_le_trans)
  have x: "covers ?x (v_start w)" "v_start ?x = v_start w"
    using w(1) by (simp_all add: covers_def anon_vma_def)
  have no: "\<not> covers p (v_start w)" "\<not> overlaps (v_start w) (v_end w) p" if "p \<in> set (vmas dst)" for p
    using that w(2) by (auto simp: covers_def overlaps_def not_less)
  have add: "mm_vma_add True (v_start w) (v_end w) (v_flags w) dst = (True, ?d)"
    using w(1) assms(2,3) no(2) insert_last [of "vmas dst" ?x] p x(2)
    by (simp add: mm_vma_add_def list_ex_iff not_le)
  have "mm_vma_find ?d (v_start w) = Some ?x"
    using no(1) x(1) by (simp add: find_at at_append at_None_iff [THEN iffD2])
  moreover have "attach_at (v_start w) w (vmas dst @ [?x]) = vmas dst @ [tidy w]"
    using attach_last [of "vmas dst" "v_start w" ?x w] no(1) x(1) by (simp add: tidy_def)
  ultimately show "clone_one True w dst = Some (take_refs w (dst\<lparr>vmas := vmas dst @ [tidy w]\<rparr>))"
    using add by (auto simp: clone_one_def tidy_plain take_refs_def count_ref_def)
qed

lemma clone_all_spec:
  assumes "vmas_ok (vmas dst @ ws)" and "vmas_aligned ws"
  shows "case clone_all ok k ws dst of (r, d) \<Rightarrow>
    r = (\<forall>i < length ws. ok (k + i)) \<and>
    (if r then vmas d = vmas dst @ map tidy ws \<and> brk d = brk dst \<and> brk_start d = brk_start dst \<and>
         mmap_base d = mmap_base dst \<and> (\<forall>x. shm_refs d x = shm_refs dst x + held v_shmem ws x) \<and>
         (\<forall>x. file_refs d x = file_refs dst x + held v_file ws x)
     else (\<forall>x. shm_refs d x = shm_refs dst x - held v_shmem (vmas dst) x) \<and>
       (\<forall>x. file_refs d x = file_refs dst x - held v_file (vmas dst) x))"
  using assms
proof (induction ws arbitrary: k dst)
  case (Cons w ws)
  have pre: "vmas_ok (vmas dst @ [w])" "aligned (v_start w)" "aligned (v_end w)"
    using Cons.prems by (auto simp: vmas_ok_append vmas_aligned_def)
  note c = clone_one_spec [OF pre]
  show ?case
  proof (cases "ok k")
    case False
    then have "\<not> (\<forall>i < length (w # ws). ok (k + i))"
      by (auto intro!: exI [of _ 0])
    with False c(1) show ?thesis
      by (auto simp: mm_destroy_def fold_drop_refs)
  next
    case True
    define d where "d = take_refs w (dst\<lparr>vmas := vmas dst @ [tidy w]\<rparr>)"
    have "vmas_ok (vmas d @ ws)" "vmas_aligned ws"
      using Cons.prems by (auto simp: d_def vmas_ok_append vmas_aligned_def)
    note ih = Cons.IH [OF this, of "k + 1"]
    have "(\<forall>i < length (w # ws). ok (k + i)) = (\<forall>i < length ws. ok (k + 1 + i))"
      using True by (auto simp: less_Suc_eq_0_disj)
    moreover have "clone_all ok k (w # ws) dst = clone_all ok (k + 1) ws d"
      using True c(2) by (simp add: d_def)
    ultimately show ?thesis
      using ih by (auto simp: d_def split: prod.splits if_splits)
  qed
qed simp

section \<open>Properties\<close>

text \<open>Any sequence of operations on an address space; unmapping takes page boundaries, as its callers give it.\<close>

inductive mm_run :: "mm \<Rightarrow> mm \<Rightarrow> bool" for mm0 where
  run_none: "mm_run mm0 mm0"
| run_add: "mm_run mm0 mm \<Longrightarrow> mm_run mm0 (snd (mm_vma_add ok s e fl mm))"
| run_add_file: "mm_run mm0 mm \<Longrightarrow> mm_run mm0 (snd (mm_vma_add_file ok s e fl file off len mm))"
| run_remove: "mm_run mm0 mm \<Longrightarrow> aligned s \<Longrightarrow> aligned e \<Longrightarrow> mm_run mm0 (snd (mm_vma_remove oks s e mm))"
| run_free: "mm_run mm0 mm \<Longrightarrow> mm_run mm0 (vma_free_rcu mm)"
| run_find: "mm_run mm0 mm \<Longrightarrow> mm_vma_find_free len mm = Some (c, mm') \<Longrightarrow> mm_run mm0 mm'"

lemma run_inv: "mm_run mm0 mm \<Longrightarrow> mm_inv bs bf mm0 \<Longrightarrow> mm_inv bs bf mm"
  by (induction rule: mm_run.induct)
    (blast intro: add_inv add_file_inv area_remove_inv free_rcu_inv find_free_inv)+



text \<open>C39: Cutting the front off a file mapping shifts the rest. The area's start moves, but its file offset and
  length do not: every remaining address then shows the file earlier by as much as was cut off.\<close>

theorem remove_front_shifts:
  assumes "vmas_ok (vmas mm)" and "v \<in> set (vmas mm)" and "v_file v = Some f" and "front_cut s e v"
    and "e \<le> a" and "a < v_end v" and "ok v"
  shows "map_option (\<lambda>w. fst (backing w a)) (at (vmas mm) a) = Some (Some (f, v_foff v + (a - v_start v), a - v_start v < v_flen v)) \<and>
    map_option (\<lambda>w. fst (backing w a)) (at (vmas (snd (mm_vma_remove ok s e mm))) a) =
      Some (Some (f, v_foff v + (a - e), a - e < v_flen v))"
proof -
  have c: "covers v a" and se: "s < e"
    using assms(4-6) by (auto simp: front_cut_def covers_def)
  have "at (vmas mm) a = Some v"
    by (rule at_member [OF assms(1,2) c])
  moreover have "at (remains ok s e v) a = Some (v\<lparr>v_start := e\<rparr>)"
    using at_remains [where ok = ok, OF se c] assms(4,5,7) by (auto simp: front_cut_def)
  ultimately show ?thesis
    using assms(3) by (simp add: at_remove [OF assms(1) se] backing_def)
qed

text \<open>C22: A clone shows the same memory: if every allocation succeeds the copy has, at every address, the protection and
  the backing of the original, and holds one more reference per area to what backs it. If any allocation
  fails there is no copy, and all reference counts are as before.\<close>

theorem mm_clone_correct:
  assumes "mm_inv bs bf src"
  shows "case mm_clone ok_mm ok_snap ok src of (r, d) \<Rightarrow>
    r = (ok_mm \<and> (vmas src \<noteq> [] \<longrightarrow> ok_snap \<and> (\<forall>i < length (vmas src). ok i))) \<and>
    (if r then (\<forall>a. seen (vmas d) a = seen (vmas src) a) \<and> brk d = brk src \<and> brk_start d = brk_start src \<and>
         mmap_base d = mmap_base src \<and> (\<forall>x. shm_refs d x = shm_refs src x + held v_shmem (vmas src) x) \<and>
         (\<forall>x. file_refs d x = file_refs src x + held v_file (vmas src) x)
     else shm_refs d = shm_refs src \<and> file_refs d = file_refs src)"
proof -
  define dst where "dst = (mm_create src)\<lparr>brk_start := brk_start src, brk := brk src, mmap_base := mmap_base src\<rparr>"
  have d: "vmas dst = []" "shm_refs dst = shm_refs src" "file_refs dst = file_refs src" "brk dst = brk src"
    "brk_start dst = brk_start src" "mmap_base dst = mmap_base src"
    by (simp_all add: dst_def mm_create_def)
  have "vmas_ok (vmas dst @ vmas src)" "vmas_aligned (vmas src)"
    using assms by (simp_all add: mm_inv_def d(1))
  note all = clone_all_spec [OF this, of ok 0]
  have "mm_clone True True ok src = clone_all ok 0 (vmas src) dst" if "vmas src \<noteq> []"
    using that by (simp add: mm_clone_def dst_def Let_def)
  moreover have "mm_clone True ok_snap ok src = (True, dst)" if "vmas src = []"
    using that by (simp add: mm_clone_def dst_def Let_def)
  moreover have "mm_clone True False ok src = (False, dst)" if "vmas src \<noteq> []"
    using that d(1) by (simp add: mm_clone_def dst_def Let_def mm_destroy_def)
  moreover have "mm_clone False ok_snap ok src = (False, src\<lparr>vmas := []\<rparr>)"
    by (simp add: mm_clone_def)
  ultimately show ?thesis
    using all d by (cases "vmas src = []"; cases ok_mm; cases ok_snap) (auto simp: seen_tidy fun_eq_iff split: prod.splits if_splits)
qed

lemma aligned_add:
  assumes "aligned a" and "aligned b"
  shows "aligned (a + b)"
proof -
  have "(unat a + unat b) mod 2 ^ 64 mod 4096 = (unat a + unat b) mod 4096"
    by (rule mod_mod_cancel) simp
  then show ?thesis
    using assms by (simp add: aligned_dvd unat_word_ariths dvd_eq_mod_eq_0 [symmetric])
qed

lemma unat_round_up:
  assumes "unat len + 0xFFF < 2 ^ 64"
  shows "unat len \<le> unat (round_up len)" "unat (round_up len) \<le> unat len + 0xFFF"
proof -
  have "unat (len + PAGE_MASK) = unat len + 0xFFF"
    using assms by (simp add: unat_word_ariths)
  then have "unat (round_up len) = unat len + 0xFFF - (unat len + 0xFFF) mod 4096"
    using unat_page_floor [of "len + PAGE_MASK"] by (simp add: round_up_def page_floor_def)
  moreover have "(unat len + 0xFFF) mod 4096 < 4096"
    by simp
  ultimately show "unat len \<le> unat (round_up len)" "unat (round_up len) \<le> unat len + 0xFFF"
    by linarith+
qed

text \<open>C23: Looking for a gap. Barring overflow of the request, the search ends. A non-zero result is the start of a free,
  aligned range of the (rounded) size between the heap's reserve and the old base, where adding an area
  succeeds; the base moves down to it. Zero means that no aligned range there is free. Ranges
  above the base, such as those unmapped since, are never considered.\<close>

theorem mm_vma_find_free_correct:
  assumes "0 < len" and "unat (brk mm) + 0x4000000 + unat len + 0x1000 < 2 ^ 64"
  shows "\<exists>c mm'. mm_vma_find_free len mm = Some (c, mm') \<and>
    (let n = round_up len
     in if c = 0
        then mm' = mm \<and> (\<forall>d. aligned d \<and> unat (brk mm) + 0x4000000 \<le> unat d \<and>
          unat d + unat n \<le> unat (mmap_base mm) \<longrightarrow> (\<exists>v \<in> set (vmas mm). overlaps d (d + n) v))
        else mm' = mm\<lparr>mmap_base := c\<rparr> \<and> aligned c \<and> unat (brk mm) + 0x4000000 < unat c + 4096 \<and>
          unat c + unat n \<le> unat (mmap_base mm) \<and> (\<forall>v \<in> set (vmas mm). \<not> overlaps c (c + n) v) \<and>
          fst (mm_vma_add True c (c + n) fl mm'))"
proof -
  let ?n = "round_up len" and ?lo = "brk mm + 0x4000000"
  have n: "unat len \<le> unat ?n" "unat ?n \<le> unat len + 0xFFF"
    using unat_round_up [of len] assms(2) by auto
  have lo: "unat ?lo = unat (brk mm) + 0x4000000"
    using assms(2) by (simp add: unat_word_ariths)
  have "unat ?lo + unat ?n < 2 ^ 64"
    using n assms(2) lo by simp
  from find_free_loop_correct [OF round_up_aligned this, of "vmas mm" "mmap_base mm"]
  obtain r where r: "find_free_loop ?lo ?n (vmas mm) (mmap_base mm) = Some r"
    "case r of
       Some c \<Rightarrow> aligned c \<and> unat ?lo < unat c + 4096 \<and> unat c + unat ?n \<le> unat (mmap_base mm) \<and>
         (\<forall>v \<in> set (vmas mm). \<not> overlaps c (c + ?n) v)
     | None \<Rightarrow> \<forall>d. aligned d \<and> unat ?lo \<le> unat d \<and> unat d + unat ?n \<le> unat (mmap_base mm) \<longrightarrow>
         (\<exists>v \<in> set (vmas mm). overlaps d (d + ?n) v)"
    by blast
  show ?thesis
  proof (cases r)
    case None
    then show ?thesis
      using r lo assms(1) by (intro exI [of _ 0] exI [of _ mm]) (simp add: mm_vma_find_free_def)
  next
    case (Some c)
    have c: "aligned c" "unat (brk mm) + 0x4000000 < unat c + 4096" "unat c + unat ?n \<le> unat (mmap_base mm)"
      "\<forall>v \<in> set (vmas mm). \<not> overlaps c (c + ?n) v"
      using r(2) Some lo by auto
    have "unat (c + ?n) = unat c + unat ?n"
      using c(3) unat_bound [of "mmap_base mm"] by (simp add: unat_word_ariths)
    moreover have "0 < unat len"
      using assms(1) by (simp add: word_less_nat_alt)
    ultimately have "c < c + ?n" "c \<noteq> 0"
      using n(1) c(2) by (auto simp: word_less_nat_alt)
    then have "fst (mm_vma_add True c (c + ?n) fl (mm\<lparr>mmap_base := c\<rparr>))"
      using c(1,4) aligned_add [OF c(1) round_up_aligned] by (simp add: mm_vma_add_def list_ex_iff not_le)
    then show ?thesis
      using r(1) Some c \<open>c \<noteq> 0\<close> assms(1)
      by (intro exI [of _ c] exI [of _ "mm\<lparr>mmap_base := c\<rparr>"]) (simp add: mm_vma_find_free_def Let_def)
  qed
qed

text \<open>An address space with a program file of four pages and a stack page.\<close>

definition demo_file :: vma where
  "demo_file = \<lparr>v_start = 0x400000, v_end = 0x404000, v_flags = 69, v_shmem = None, v_pgoff = 0,
     v_file = Some 3, v_foff = 0, v_flen = 0x4000\<rparr>"

definition demo_mm :: mm where
  "demo_mm = \<lparr>vmas = [demo_file, anon_vma 0x7FEFFFFFF000 0x7FF000000000 11], brk_start = 0x600000, brk = 0x600000,
     mmap_base = VMM_MMAP_BASE, shm_refs = (\<lambda>_. 0), file_refs = (\<lambda>x. if x = 3 then 2 else 0), doomed = []\<rparr>"

lemmas demo_defs = demo_mm_def demo_file_def anon_vma_def

lemma demo_ok: "vmas_ok (vmas demo_mm)" "vmas_aligned (vmas demo_mm)"
  by (simp_all add: demo_defs vmas_aligned_def aligned_def)

lemma demo_inv: "mm_inv (\<lambda>_. 0) (\<lambda>x. if x = 3 then 1 else 0) demo_mm"
  using demo_ok by (simp add: mm_inv_def) (simp add: demo_defs)

definition empty_mm :: mm where
  "empty_mm = demo_mm\<lparr>vmas := []\<rparr>"



theorem remove_front_shifts_witness:
  "map_option (\<lambda>w. fst (backing w 0x402000)) (at (vmas demo_mm) 0x402000) = Some (Some (3, 0x2000, True)) \<and>
   map_option (\<lambda>w. fst (backing w 0x402000)) (at (vmas (snd (mm_vma_remove (\<lambda>_. True) 0x400000 0x401000 demo_mm))) 0x402000) =
     Some (Some (3, 0x1000, True))"
proof -
  have "demo_file \<in> set (vmas demo_mm)" "v_file demo_file = Some 3" "front_cut 0x400000 0x401000 demo_file"
    "(0x401000 :: u64) \<le> 0x402000" "0x402000 < v_end demo_file"
    by (simp_all add: demo_mm_def demo_file_def front_cut_def)
  from remove_front_shifts [OF demo_ok(1) this, of "\<lambda>_. True"] show ?thesis
    by (simp add: demo_file_def)
qed

theorem mm_clone_correct_witness:
  "case mm_clone True True (\<lambda>_. True) demo_mm of (r, d) \<Rightarrow> r \<and> seen (vmas d) 0x400000 = Some (69, Some (3, 0, True), None) \<and> file_refs d 3 = 3"
proof -
  obtain r d where d: "mm_clone True True (\<lambda>_. True) demo_mm = (r, d)"
    by fastforce
  have "seen (vmas demo_mm) 0x400000 = Some (69, Some (3, 0, True), None)" "held v_file (vmas demo_mm) 3 = 1"
    "file_refs demo_mm 3 = 2"
    by (simp_all add: demo_defs seen_def covers_def backing_def)
  then show ?thesis
    using mm_clone_correct [OF demo_inv, of True True "\<lambda>_. True"] unfolding d by simp
qed

theorem mm_vma_find_free_correct_witness:
  "\<exists>c mm'. mm_vma_find_free 5000 demo_mm = Some (c, mm') \<and> (c \<noteq> 0 \<longrightarrow> aligned c \<and> unat c + 8192 \<le> 0x7FF000000000)"
proof -
  have "(0 :: u64) < 5000" "unat (brk demo_mm) + 0x4000000 + unat (5000 :: u64) + 0x1000 < 2 ^ 64"
    by (simp_all add: demo_mm_def)
  from mm_vma_find_free_correct [OF this, of 3]
  obtain c mm' where "mm_vma_find_free 5000 demo_mm = Some (c, mm')"
    "c \<noteq> 0 \<longrightarrow> aligned c \<and> unat c + unat (round_up 5000) \<le> unat (mmap_base demo_mm)"
    unfolding Let_def by (auto split: if_splits)
  moreover have "round_up 5000 = 8192"
    by (simp add: round_up_def)
  ultimately show ?thesis
    by (auto simp: demo_mm_def)
qed

end
