(* ===== verification/Sha256.thy ===== *)
theory Sha256
  imports MakaOS_Prelude
begin

text \<open>
  The SHA-256 implementation of \<^verbatim>\<open>kernel/crypto/sha256.c\<close>, with its streaming interface: a context
  holds the chaining value, a 64-byte buffer for a partial block and the number of bytes so far. The
  reference is the hash function of FIPS 180-4 on whole messages: padding, parsing into
  blocks, message schedule and rounds as functions of their index.
\<close>

section \<open>Round functions\<close>

definition K :: "u32 list" where
  "K =
    [0x428a2f98, 0x71374491, 0xb5c0fbcf, 0xe9b5dba5] @
    [0x3956c25b, 0x59f111f1, 0x923f82a4, 0xab1c5ed5] @
    [0xd807aa98, 0x12835b01, 0x243185be, 0x550c7dc3] @
    [0x72be5d74, 0x80deb1fe, 0x9bdc06a7, 0xc19bf174] @
    [0xe49b69c1, 0xefbe4786, 0x0fc19dc6, 0x240ca1cc] @
    [0x2de92c6f, 0x4a7484aa, 0x5cb0a9dc, 0x76f988da] @
    [0x983e5152, 0xa831c66d, 0xb00327c8, 0xbf597fc7] @
    [0xc6e00bf3, 0xd5a79147, 0x06ca6351, 0x14292967] @
    [0x27b70a85, 0x2e1b2138, 0x4d2c6dfc, 0x53380d13] @
    [0x650a7354, 0x766a0abb, 0x81c2c92e, 0x92722c85] @
    [0xa2bfe8a1, 0xa81a664b, 0xc24b8b70, 0xc76c51a3] @
    [0xd192e819, 0xd6990624, 0xf40e3585, 0x106aa070] @
    [0x19a4c116, 0x1e376c08, 0x2748774c, 0x34b0bcb5] @
    [0x391c0cb3, 0x4ed8aa4a, 0x5b9cca4f, 0x682e6ff3] @
    [0x748f82ee, 0x78a5636f, 0x84c87814, 0x8cc70208] @
    [0x90befffa, 0xa4506ceb, 0xbef9a3f7, 0xc67178f2]"

definition ROR32 :: "u32 \<Rightarrow> nat \<Rightarrow> u32" where
  "ROR32 x n = drop_bit n x OR push_bit (32 - n) x"

definition CH :: "u32 \<Rightarrow> u32 \<Rightarrow> u32 \<Rightarrow> u32" where
  "CH x y z = (x AND y) XOR (NOT x AND z)"

definition MAJ :: "u32 \<Rightarrow> u32 \<Rightarrow> u32 \<Rightarrow> u32" where
  "MAJ x y z = (x AND y) XOR (x AND z) XOR (y AND z)"

definition BSIG0 :: "u32 \<Rightarrow> u32" where
  "BSIG0 x = ROR32 x 2 XOR ROR32 x 13 XOR ROR32 x 22"

definition BSIG1 :: "u32 \<Rightarrow> u32" where
  "BSIG1 x = ROR32 x 6 XOR ROR32 x 11 XOR ROR32 x 25"

definition SSIG0 :: "u32 \<Rightarrow> u32" where
  "SSIG0 x = ROR32 x 7 XOR ROR32 x 18 XOR drop_bit 3 x"

definition SSIG1 :: "u32 \<Rightarrow> u32" where
  "SSIG1 x = ROR32 x 17 XOR ROR32 x 19 XOR drop_bit 10 x"

definition be32 :: "u8 list \<Rightarrow> nat \<Rightarrow> u32" where
  "be32 p i = push_bit 24 (ucast (p ! i)) OR push_bit 16 (ucast (p ! (i + 1))) OR
     push_bit 8 (ucast (p ! (i + 2))) OR ucast (p ! (i + 3))"

definition put_be32 :: "u32 \<Rightarrow> u8 list" where
  "put_be32 v = [ucast (drop_bit 24 v), ucast (drop_bit 16 v), ucast (drop_bit 8 v), ucast v]"

text \<open>The loop stores the lowest byte last and works towards the front.\<close>

primrec put_be64_loop :: "nat \<Rightarrow> u64 \<Rightarrow> u8 list \<Rightarrow> u8 list" where
  "put_be64_loop 0 v p = p"
| "put_be64_loop (Suc i) v p = put_be64_loop i (drop_bit 8 v) (p[i := ucast v])"

definition put_be64 :: "u64 \<Rightarrow> u8 list" where
  "put_be64 v = put_be64_loop 8 v (replicate 8 0)"

section \<open>Compression\<close>

text \<open>The schedule is an array filled from index 16 on.\<close>

primrec fill_W :: "nat \<Rightarrow> nat \<Rightarrow> u32 list \<Rightarrow> u32 list" where
  "fill_W 0 t W = W"
| "fill_W (Suc n) t W =
     fill_W n (t + 1) (W @ [SSIG1 (W ! (t - 2)) + W ! (t - 7) + SSIG0 (W ! (t - 15)) + W ! (t - 16)])"

type_synonym vars = "u32 \<times> u32 \<times> u32 \<times> u32 \<times> u32 \<times> u32 \<times> u32 \<times> u32"

definition round_step :: "u32 list \<Rightarrow> nat \<Rightarrow> vars \<Rightarrow> vars" where
  "round_step W t = (\<lambda>(a, b, c, d, e, f, g, h).
     let T1 = h + BSIG1 e + CH e f g + K ! t + W ! t;
         T2 = BSIG0 a + MAJ a b c
     in (T1 + T2, a, b, c, d + T1, e, f, g))"

definition sha256_compress :: "u32 list \<Rightarrow> u8 list \<Rightarrow> u32 list" where
  "sha256_compress h block =
     (let W = fill_W 48 16 (map (\<lambda>t. be32 block (4 * t)) [0..<16])
      in case fold (round_step W) [0..<64] (h ! 0, h ! 1, h ! 2, h ! 3, h ! 4, h ! 5, h ! 6, h ! 7) of
           (a, b, c, d, e, f, g, hh) \<Rightarrow>
             [h ! 0 + a, h ! 1 + b, h ! 2 + c, h ! 3 + d, h ! 4 + e, h ! 5 + f, h ! 6 + g, h ! 7 + hh])"

section \<open>Streaming\<close>

record sha256_ctx =
  ctx_h :: "u32 list"
  total_bytes :: u64
  buf :: "u8 list"
  buf_len :: nat

abbreviation (input) SHA256_BLOCK_SZ :: nat where "SHA256_BLOCK_SZ \<equiv> 64"

definition sha256_init :: "sha256_ctx \<Rightarrow> sha256_ctx" where
  "sha256_init ctx = ctx\<lparr>ctx_h := [0x6a09e667, 0xbb67ae85, 0x3c6ef372, 0xa54ff53a,
     0x510e527f, 0x9b05688c, 0x1f83d9ab, 0x5be0cd19], total_bytes := 0, buf_len := 0\<rparr>"

text \<open>Copying bytes into the buffer from an index on.\<close>

definition blit :: "nat \<Rightarrow> 'a list \<Rightarrow> 'a list \<Rightarrow> 'a list" where
  "blit i xs b = take i b @ xs @ drop (i + length xs) b"

definition compress_buf :: "sha256_ctx \<Rightarrow> sha256_ctx" where
  "compress_buf ctx = ctx\<lparr>ctx_h := sha256_compress (ctx_h ctx) (buf ctx), buf_len := 0\<rparr>"

definition finish_partial :: "sha256_ctx \<Rightarrow> u8 list \<Rightarrow> sha256_ctx \<times> u8 list" where
  "finish_partial ctx p =
     (if buf_len ctx = 0 then (ctx, p)
      else
        (let want = SHA256_BLOCK_SZ - buf_len ctx;
             n = (if length p < want then length p else want);
             c = ctx\<lparr>buf := blit (buf_len ctx) (take n p) (buf ctx), buf_len := buf_len ctx + n\<rparr>
         in (if buf_len c = SHA256_BLOCK_SZ then compress_buf c else c, drop n p)))"

function whole_blocks :: "sha256_ctx \<Rightarrow> u8 list \<Rightarrow> sha256_ctx \<times> u8 list" where
  "whole_blocks ctx p =
     (if length p \<ge> SHA256_BLOCK_SZ
      then whole_blocks (ctx\<lparr>ctx_h := sha256_compress (ctx_h ctx) p\<rparr>) (drop SHA256_BLOCK_SZ p)
      else (ctx, p))"
  by pat_completeness auto
termination
  by (relation "measure (length \<circ> snd)") auto

definition stash_tail :: "sha256_ctx \<Rightarrow> u8 list \<Rightarrow> sha256_ctx" where
  "stash_tail ctx p =
     (if p = [] then ctx else ctx\<lparr>buf := blit 0 p (buf ctx), buf_len := length p\<rparr>)"

definition sha256_update :: "sha256_ctx \<Rightarrow> u8 list \<Rightarrow> sha256_ctx" where
  "sha256_update ctx data =
     (case finish_partial (ctx\<lparr>total_bytes := total_bytes ctx + of_nat (length data)\<rparr>) data of
        (c1, p1) \<Rightarrow> case whole_blocks c1 p1 of (c2, p2) \<Rightarrow> stash_tail c2 p2)"

text \<open>Zero bytes up to an index.\<close>

definition zero_to :: "nat \<Rightarrow> sha256_ctx \<Rightarrow> sha256_ctx" where
  "zero_to n ctx = ctx\<lparr>buf := blit (buf_len ctx) (replicate (n - buf_len ctx) 0) (buf ctx), buf_len := max n (buf_len ctx)\<rparr>"

definition sha256_final :: "sha256_ctx \<Rightarrow> u8 list" where
  "sha256_final ctx =
     (let bit_len = total_bytes ctx * 8;
          c1 = ctx\<lparr>buf := (buf ctx)[buf_len ctx := 0x80], buf_len := buf_len ctx + 1\<rparr>;
          c2 = (if buf_len c1 > 56 then compress_buf (zero_to SHA256_BLOCK_SZ c1) else c1);
          c3 = zero_to 56 c2;
          c4 = compress_buf (c3\<lparr>buf := blit 56 (put_be64 bit_len) (buf c3)\<rparr>)
      in concat (map put_be32 (ctx_h c4)))"

text \<open>The context on the stack starts with arbitrary contents.\<close>

definition sha256 :: "sha256_ctx \<Rightarrow> u8 list \<Rightarrow> u8 list" where
  "sha256 ctx data = sha256_final (sha256_update (sha256_init ctx) data)"

section \<open>Reference: FIPS 180-4\<close>

definition be_bytes :: "nat \<Rightarrow> 'a::len word \<Rightarrow> u8 list" where
  "be_bytes n w = map (\<lambda>i. ucast (drop_bit (8 * (n - 1 - i)) w)) [0..<n]"

definition fips_pad :: "u8 list \<Rightarrow> u8 list" where
  "fips_pad m = m @ [0x80] @ replicate (nat ((55 - int (length m)) mod 64)) 0 @
     be_bytes 8 (of_nat (8 * length m) :: u64)"

fun fips_blocks :: "u8 list \<Rightarrow> u8 list list" where
  "fips_blocks m = (if length m < 64 then [] else take 64 m # fips_blocks (drop 64 m))"

definition fips_word :: "u8 list \<Rightarrow> nat \<Rightarrow> u32" where
  "fips_word M t = word_rcat (map (\<lambda>i. M ! (4 * t + i)) [0, 1, 2, 3])"

definition sigma0 :: "u32 \<Rightarrow> u32" where
  "sigma0 x = word_rotr 7 x XOR word_rotr 18 x XOR drop_bit 3 x"

definition sigma1 :: "u32 \<Rightarrow> u32" where
  "sigma1 x = word_rotr 17 x XOR word_rotr 19 x XOR drop_bit 10 x"

fun fips_W :: "u8 list \<Rightarrow> nat \<Rightarrow> u32" where
  "fips_W M t = (if t < 16 then fips_word M t
     else sigma1 (fips_W M (t - 2)) + fips_W M (t - 7) + sigma0 (fips_W M (t - 15)) + fips_W M (t - 16))"

primrec fips_vars :: "u32 list \<Rightarrow> u8 list \<Rightarrow> nat \<Rightarrow> vars" where
  "fips_vars H M 0 = (H ! 0, H ! 1, H ! 2, H ! 3, H ! 4, H ! 5, H ! 6, H ! 7)"
| "fips_vars H M (Suc t) = (case fips_vars H M t of (a, b, c, d, e, f, g, h) \<Rightarrow>
     let T1 = h + (word_rotr 6 e XOR word_rotr 11 e XOR word_rotr 25 e) + (e AND f OR NOT e AND g) + K ! t + fips_W M t;
         T2 = (word_rotr 2 a XOR word_rotr 13 a XOR word_rotr 22 a) + (a AND b OR a AND c OR b AND c)
     in (T1 + T2, a, b, c, d + T1, e, f, g))"

definition fips_block :: "u8 list \<Rightarrow> u32 list \<Rightarrow> u32 list" where
  "fips_block M H = (case fips_vars H M 64 of (a, b, c, d, e, f, g, h) \<Rightarrow>
     [H ! 0 + a, H ! 1 + b, H ! 2 + c, H ! 3 + d, H ! 4 + e, H ! 5 + f, H ! 6 + g, H ! 7 + h])"

definition fips_H0 :: "u32 list" where
  "fips_H0 = [0x6a09e667, 0xbb67ae85, 0x3c6ef372, 0xa54ff53a, 0x510e527f, 0x9b05688c, 0x1f83d9ab, 0x5be0cd19]"

definition fips_sha256 :: "u8 list \<Rightarrow> u8 list" where
  "fips_sha256 m = concat (map (be_bytes 4) (fold fips_block (fips_blocks (fips_pad m)) fips_H0))"

declare whole_blocks.simps [simp del] fips_blocks.simps [simp del] fips_W.simps [simp del]

section \<open>Lemmas\<close>

subsection \<open>The compression function\<close>

lemma ROR32_rotr: "0 < n \<Longrightarrow> n < 32 \<Longrightarrow> ROR32 x n = word_rotr n x"
  unfolding ROR32_def by (rule rotr_or)

lemma sigma_eqs: "SSIG0 = sigma0" "SSIG1 = sigma1"
  by (auto simp: SSIG0_def SSIG1_def sigma0_def sigma1_def ROR32_rotr)

lemma CH_or: "CH x y z = (x AND y OR NOT x AND z)"
  by (rule bit_word_eqI) (auto simp: CH_def bit_simps)

lemma MAJ_or: "MAJ x y z = (x AND y OR x AND z OR y AND z)"
  by (rule bit_word_eqI) (auto simp: MAJ_def bit_simps)

lemma or_bytes:
  fixes a b c d :: u8
  shows "(push_bit 24 (ucast a) OR push_bit 16 (ucast b) OR push_bit 8 (ucast c) OR ucast d :: u32) =
    2 ^ 24 * ucast a + (2 ^ 16 * ucast b + (2 ^ 8 * ucast c + ucast d))"
proof -
  have cd: "push_bit 8 (ucast c) + ucast d = (push_bit 8 (ucast c) OR ucast d :: u32)"
    by (rule disjunctive_add_eq_or) (auto intro!: bit_word_eqI simp: bit_simps dest!: byte_bit)
  have bcd: "push_bit 16 (ucast b) + (push_bit 8 (ucast c) OR ucast d) =
      (push_bit 16 (ucast b) OR push_bit 8 (ucast c) OR ucast d :: u32)"
    by (rule disjunctive_add_eq_or) (auto intro!: bit_word_eqI simp: bit_simps dest!: byte_bit)
  have abcd: "push_bit 24 (ucast a) + (push_bit 16 (ucast b) OR push_bit 8 (ucast c) OR ucast d) =
      (push_bit 24 (ucast a) OR push_bit 16 (ucast b) OR push_bit 8 (ucast c) OR ucast d :: u32)"
    by (rule disjunctive_add_eq_or) (auto intro!: bit_word_eqI simp: bit_simps dest!: byte_bit)
  have "(push_bit 24 (ucast a) OR push_bit 16 (ucast b) OR push_bit 8 (ucast c) OR ucast d :: u32) =
      push_bit 24 (ucast a) + (push_bit 16 (ucast b) + (push_bit 8 (ucast c) + ucast d))"
    by (simp only: cd bcd abcd)
  then show ?thesis
    by (simp only: push_bit_eq_mult mult.commute)
qed

lemma be32_word: "be32 M (4 * t) = fips_word M t"
  unfolding be32_def or_bytes by (simp add: fips_word_def word_rcat_def algebra_simps)

lemma fill_W_fips:
  assumes "length W = t" and "16 \<le> t" and "\<And>i. i < t \<Longrightarrow> W ! i = fips_W M i"
  shows "i < t + n \<Longrightarrow> fill_W n t W ! i = fips_W M i"
  using assms
proof (induction n arbitrary: t W)
  case (Suc n)
  let ?w = "SSIG1 (W ! (t - 2)) + W ! (t - 7) + SSIG0 (W ! (t - 15)) + W ! (t - 16)"
  have "?w = fips_W M t"
    using Suc.prems by (simp add: fips_W.simps [of M t] sigma_eqs)
  then have "(W @ [?w]) ! j = fips_W M j" if "j < t + 1" for j
    using that Suc.prems(2,4) by (cases "j = t") (auto simp: nth_append)
  then show ?case
    using Suc.IH [of "t + 1" "W @ [?w]"] Suc.prems(1-3) by simp
qed simp

lemma rounds_fips:
  assumes "\<And>i. i < 64 \<Longrightarrow> W ! i = fips_W M i" and "n \<le> 64"
  shows "fold (round_step W) [0..<n] (fips_vars H M 0) = fips_vars H M n"
  using assms(2)
proof (induction n)
  case (Suc n)
  then have "fold (round_step W) [0..<Suc n] (fips_vars H M 0) = round_step W n (fips_vars H M n)"
    by simp
  also have "\<dots> = fips_vars H M (Suc n)"
    using assms(1) [of n] Suc.prems
    by (simp add: round_step_def BSIG0_def BSIG1_def ROR32_rotr CH_or MAJ_or split: prod.split)
  finally show ?case .
qed simp

lemma sha256_compress_fips: "sha256_compress h M = fips_block M h"
proof -
  let ?W = "fill_W 48 16 (map (\<lambda>t. be32 M (4 * t)) [0..<16])"
  have "?W ! i = fips_W M i" if "i < 64" for i
    by (rule fill_W_fips) (use that in \<open>simp_all add: be32_word fips_W.simps\<close>)
  then have "fold (round_step ?W) [0..<64] (fips_vars h M 0) = fips_vars h M 64"
    by (rule rounds_fips [OF _ order_refl])
  then show ?thesis
    unfolding sha256_compress_def fips_block_def Let_def by (simp del: upt_rec_numeral)
qed

text \<open>Only the first 64 bytes of a block matter.\<close>

lemma fips_W_take: "t < 64 \<Longrightarrow> fips_W (take 64 M) t = fips_W M t"
proof (induction M t rule: fips_W.induct)
  case (1 M t)
  have "fips_word (take 64 M) t = fips_word M t" if "t < 16"
    using that by (simp add: fips_word_def)
  with 1 show ?case
    by (simp add: fips_W.simps [of _ t])
qed

lemma fips_block_take: "fips_block (take 64 M) = fips_block M"
proof
  fix H
  have "n \<le> 64 \<Longrightarrow> fips_vars H (take 64 M) n = fips_vars H M n" for n
    by (induction n) (simp_all add: fips_W_take)
  then show "fips_block (take 64 M) H = fips_block M H"
    by (simp add: fips_block_def)
qed

subsection \<open>Streaming\<close>

text \<open>The chaining value after the whole blocks of a message.\<close>

definition chain :: "u8 list \<Rightarrow> u32 list" where
  "chain m = fold fips_block (fips_blocks m) fips_H0"

lemma fips_blocks_append: "64 dvd length m \<Longrightarrow> fips_blocks (m @ r) = fips_blocks m @ fips_blocks r"
proof (induction m rule: fips_blocks.induct)
  case (1 m)
  show ?case
  proof (cases "length m < 64")
    case True
    then have "m = []"
      using 1(2) by (auto dest: dvd_imp_le)
    then show ?thesis
      by (simp add: fips_blocks.simps [of "[]"])
  next
    case False
    then have "fips_blocks (drop 64 m @ r) = fips_blocks (drop 64 m) @ fips_blocks r"
      using 1 by (simp add: dvd_diff_nat)
    with False show ?thesis
      by (simp add: fips_blocks.simps [of m] fips_blocks.simps [of "m @ r"])
  qed
qed

lemma chain_short: "length r < 64 \<Longrightarrow> 64 dvd length m \<Longrightarrow> chain (m @ r) = chain m"
  by (simp add: chain_def fips_blocks_append fips_blocks.simps [of r])

lemma chain_block: "length b = 64 \<Longrightarrow> 64 dvd length m \<Longrightarrow> chain (m @ b) = fips_block b (chain m)"
  by (simp add: chain_def fips_blocks_append fips_blocks.simps [of b] fips_blocks.simps [of "[]"])

text \<open>A context and the message it has absorbed.\<close>

definition absorbed :: "sha256_ctx \<Rightarrow> u8 list \<Rightarrow> bool" where
  "absorbed c m \<longleftrightarrow> length (buf c) = 64 \<and> buf_len c < 64 \<and>
     (\<exists>w. m = w @ take (buf_len c) (buf c) \<and> 64 dvd length w \<and> ctx_h c = chain w)"

lemma blit_simps [simp]:
  "i + length xs \<le> length b \<Longrightarrow> length (blit i xs b) = length b"
  "i + length xs \<le> length b \<Longrightarrow> take (i + length xs) (blit i xs b) = take i b @ xs"
  by (simp_all add: blit_def)

lemma absorb_full:
  assumes "length b = 64" and "m = w @ b" and "64 dvd length w" and "h = chain w"
  shows "absorbed (ctx\<lparr>ctx_h := sha256_compress h b, buf := b', buf_len := 0\<rparr>) m \<longleftrightarrow> length b' = 64"
  using assms chain_block [of b w]
  by (auto simp: absorbed_def sha256_compress_fips intro!: exI [of _ m])

lemma finish_partial_absorbed:
  assumes "absorbed c m" and "finish_partial c p = (c1, p1)"
  shows "\<exists>x. p = x @ p1 \<and> absorbed c1 (m @ x) \<and> (buf_len c1 = 0 \<or> p1 = []) \<and> total_bytes c1 = total_bytes c"
proof (cases "buf_len c = 0")
  case True
  then show ?thesis
    using assms by (intro exI [of _ "[]"]) (auto simp: finish_partial_def)
next
  case False
  define n where "n = min (length p) (64 - buf_len c)"
  define d where "d = c\<lparr>buf := blit (buf_len c) (take n p) (buf c), buf_len := buf_len c + n\<rparr>"
  obtain w where w: "length (buf c) = 64" "buf_len c < 64" "m = w @ take (buf_len c) (buf c)" "64 dvd length w"
    "ctx_h c = chain w"
    using assms(1) by (auto simp: absorbed_def)
  have n: "length (take n p) = n" "buf_len c + n \<le> 64"
    using w(2) by (auto simp: n_def)
  then have d: "length (buf d) = 64" "w @ take (buf_len d) (buf d) = m @ take n p" "ctx_h d = chain w"
    using w blit_simps [of "buf_len c" "take n p" "buf c"] by (auto simp: d_def)
  have n_if: "(if length p < 64 - buf_len c then length p else 64 - buf_len c) = n"
    by (auto simp: n_def)
  have eq: "(c1, p1) = (if buf_len d = 64 then compress_buf d else d, drop n p)"
    using assms(2) False unfolding finish_partial_def Let_def n_if by (auto simp: d_def)
  have "absorbed c1 (m @ take n p)"
  proof (cases "buf_len d = 64")
    case True
    then have "m @ take n p = w @ buf d"
      using d(1,2) by simp
    then show ?thesis
      using eq True absorb_full [OF d(1) _ w(4) d(3), where ctx = d and b' = "buf d"] d(1) by (simp add: compress_buf_def)
  next
    case False
    then show ?thesis
      using eq d w(4) n(2) unfolding absorbed_def by (auto simp: d_def intro!: exI [of _ w])
  qed
  moreover have "buf_len c1 = 0 \<or> p1 = []"
    using eq w(2) by (auto simp: compress_buf_def d_def n_def)
  ultimately show ?thesis
    using eq by (intro exI [of _ "take n p"]) (auto simp: compress_buf_def d_def)
qed

lemma whole_blocks_absorbed:
  assumes "absorbed c m" and "buf_len c = 0" and "whole_blocks c p = (c1, p1)"
  shows "\<exists>x. p = x @ p1 \<and> absorbed c1 (m @ x) \<and> buf_len c1 = 0 \<and> length p1 < 64 \<and> total_bytes c1 = total_bytes c"
  using assms
proof (induction c p arbitrary: m rule: whole_blocks.induct)
  case (1 c p)
  show ?case
  proof (cases "length p \<ge> 64")
    case False
    then show ?thesis
      using 1 by (intro exI [of _ "[]"]) (auto simp: whole_blocks.simps [of c p])
  next
    case True
    let ?c = "c\<lparr>ctx_h := sha256_compress (ctx_h c) p\<rparr>"
    have m: "64 dvd length m" "ctx_h c = chain m" "length (buf c) = 64"
      using "1.prems"(1,2) by (auto simp: absorbed_def)
    have "absorbed ?c (m @ take 64 p)"
      using m True chain_block [of "take 64 p" m] "1.prems"(2)
      by (auto simp: absorbed_def sha256_compress_fips fips_block_take)
    then obtain x where x: "drop 64 p = x @ p1" "absorbed c1 (m @ take 64 p @ x)" "buf_len c1 = 0"
      "length p1 < 64" "total_bytes c1 = total_bytes c"
      using "1.IH" [OF True, of "m @ take 64 p"] "1.prems"(2,3) True by (auto simp: whole_blocks.simps [of c p])
    have "p = (take 64 p @ x) @ p1"
      using x(1) by (metis append_assoc append_take_drop_id)
    with x(2-5) show ?thesis
      by blast
  qed
qed

lemma stash_tail_absorbed:
  assumes "absorbed c m" and "buf_len c = 0 \<or> p = []" and "length p < 64"
  shows "absorbed (stash_tail c p) (m @ p)" "total_bytes (stash_tail c p) = total_bytes c"
proof -
  have "take (length p) (blit 0 p (buf c)) = p" "length (blit 0 p (buf c)) = 64"
    using assms blit_simps [of 0 p "buf c"] by (auto simp: absorbed_def)
  then show "absorbed (stash_tail c p) (m @ p)" "total_bytes (stash_tail c p) = total_bytes c"
    using assms by (auto simp: stash_tail_def absorbed_def)
qed

lemma sha256_update_absorbed:
  assumes "absorbed c m"
  shows "absorbed (sha256_update c d) (m @ d)"
    "total_bytes (sha256_update c d) = total_bytes c + of_nat (length d)"
proof -
  let ?c = "c\<lparr>total_bytes := total_bytes c + of_nat (length d)\<rparr>"
  obtain c1 p1 where f: "finish_partial ?c d = (c1, p1)"
    by fastforce
  obtain c2 p2 where g: "whole_blocks c1 p1 = (c2, p2)"
    by fastforce
  have "absorbed ?c m"
    using assms by (simp add: absorbed_def)
  from finish_partial_absorbed [OF this f] obtain x where
    x: "d = x @ p1" "absorbed c1 (m @ x)" "buf_len c1 = 0 \<or> p1 = []" "total_bytes c1 = total_bytes ?c"
    by blast
  have "\<exists>y. p1 = y @ p2 \<and> absorbed c2 ((m @ x) @ y) \<and> (buf_len c2 = 0 \<or> p2 = []) \<and> length p2 < 64 \<and>
      total_bytes c2 = total_bytes c1"
  proof (cases "p1 = []")
    case True
    then show ?thesis
      using g x(2) by (auto simp: whole_blocks.simps)
  next
    case False
    then show ?thesis
      using whole_blocks_absorbed [OF x(2) _ g] x(3) by metis
  qed
  then obtain y where "p1 = y @ p2" "absorbed c2 (m @ x @ y)" "buf_len c2 = 0 \<or> p2 = []" "length p2 < 64"
    "total_bytes c2 = total_bytes c1"
    by auto
  with f g x show "absorbed (sha256_update c d) (m @ d)"
    "total_bytes (sha256_update c d) = total_bytes c + of_nat (length d)"
    using stash_tail_absorbed [of c2 "m @ x @ y" p2] by (auto simp: sha256_update_def)
qed

subsection \<open>Padding\<close>

lemma put_be32_bytes: "put_be32 v = be_bytes 4 v"
  by (simp add: put_be32_def be_bytes_def upt_rec)

lemma put_be64_bytes: "put_be64 v = be_bytes 8 v"
  by (simp add: put_be64_def be_bytes_def upt_rec eval_nat_numeral)

lemma length_be_bytes [simp]: "length (be_bytes n w) = n"
  by (simp add: be_bytes_def)

lemma zero_to_buf:
  assumes "length (buf c) = 64" and "buf_len c \<le> n" and "n \<le> 64"
  shows "length (buf (zero_to n c)) = 64" "buf_len (zero_to n c) = n" "ctx_h (zero_to n c) = ctx_h c"
    "take n (buf (zero_to n c)) = take (buf_len c) (buf c) @ replicate (n - buf_len c) 0"
  using assms blit_simps(2) [of "buf_len c" "replicate (n - buf_len c) 0" "buf c"] by (auto simp: zero_to_def)

text \<open>The end of a message that fits in one more block, and of one that does not.\<close>

lemma final_block:
  assumes "length (buf c) = 64" and "buf_len c \<le> 56" and "64 dvd length w" and "ctx_h c = chain w"
    and "c4 = compress_buf (let c3 = zero_to 56 c in c3\<lparr>buf := blit 56 (put_be64 v) (buf c3)\<rparr>)"
  shows "ctx_h c4 = chain (w @ take (buf_len c) (buf c) @ replicate (56 - buf_len c) 0 @ be_bytes 8 v)"
proof -
  let ?b = "blit 56 (put_be64 v) (buf (zero_to 56 c))"
  note z = zero_to_buf [OF assms(1,2)]
  have len: "length ?b = 64"
    using z(1) by (simp add: put_be64_bytes)
  have "take (56 + 8) ?b = take 56 (buf (zero_to 56 c)) @ be_bytes 8 v"
    using z(1) blit_simps(2) [of 56 "put_be64 v" "buf (zero_to 56 c)"] by (simp only: put_be64_bytes length_be_bytes)
  with len z(4) have "?b = take (buf_len c) (buf c) @ replicate (56 - buf_len c) 0 @ be_bytes 8 v"
    by simp
  with len have "?b = take (buf_len c) (buf c) @ replicate (56 - buf_len c) 0 @ be_bytes 8 v" "length ?b = 64"
    by simp_all
  then show ?thesis
    using chain_block [of ?b w] assms(3-5) z by (simp add: compress_buf_def Let_def sha256_compress_fips)
qed

lemma pad_length: "nat ((55 - int n) mod 64) = (if n mod 64 \<le> 55 then 55 - n mod 64 else 119 - n mod 64)"
proof -
  define q r where "q = n div 64" and "r = n mod 64"
  have n: "n = 64 * q + r" and r: "r < 64"
    by (simp_all add: q_def r_def)
  have "(55 - int n) mod 64 = (if r \<le> 55 then 55 - int r else 119 - int r)"
    by (rule int_mod_pos_eq [where q = "if r \<le> 55 then - int q else - int q - 1"]) (use r in \<open>auto simp: n\<close>)
  then show ?thesis
    by (auto simp flip: r_def)
qed

lemma sha256_final_fips:
  assumes "absorbed c m" and "total_bytes c = of_nat (length m)"
  shows "sha256_final c = fips_sha256 m"
proof -
  obtain w where w: "length (buf c) = 64" "buf_len c < 64" "m = w @ take (buf_len c) (buf c)" "64 dvd length w"
    "ctx_h c = chain w"
    using assms(1) by (auto simp: absorbed_def)
  define r where "r = buf_len c"
  define t where "t = take r (buf c)"
  define v where "v = total_bytes c * 8"
  define c1 where "c1 = c\<lparr>buf := (buf c)[r := 0x80], buf_len := r + 1\<rparr>"
  define c2 where "c2 = (if r + 1 > 56 then compress_buf (zero_to 64 c1) else c1)"
  define c4 where "c4 = compress_buf (let c3 = zero_to 56 c2 in c3\<lparr>buf := blit 56 (put_be64 v) (buf c3)\<rparr>)"
  have final: "sha256_final c = concat (map put_be32 (ctx_h c4))"
    by (simp add: sha256_final_def c4_def c2_def c1_def r_def v_def Let_def)
  have r: "r < 64" "length m mod 64 = r" "length t = r" "m = w @ t"
    using w by (auto simp: r_def t_def)
  have c1: "length (buf c1) = 64" "take (r + 1) (buf c1) = t @ [0x80]" "buf_len c1 = r + 1" "ctx_h c1 = chain w"
    using w r by (auto simp: c1_def t_def r_def take_Suc_conv_app_nth)
  have v: "v = of_nat (8 * length m)"
    by (simp add: v_def assms(2) mult.commute)
  have pad: "fips_pad m = w @ t @ [0x80] @ replicate (if r \<le> 55 then 55 - r else 119 - r) 0 @ be_bytes 8 v"
    unfolding fips_pad_def pad_length r(2) v [symmetric] using r(4) by simp
  have "ctx_h c4 = chain (fips_pad m)"
  proof (cases "r + 1 > 56")
    case False
    then have "ctx_h c4 = chain (w @ take (buf_len c1) (buf c1) @ replicate (56 - buf_len c1) 0 @ be_bytes 8 v)"
      using final_block [OF c1(1) _ w(4) c1(4), of c4 v] c1(3) by (simp add: c4_def c2_def)
    then show ?thesis
      unfolding pad using False c1(2,3) by simp
  next
    case True
    define b where "b = t @ [0x80] @ replicate (63 - r) 0"
    note z = zero_to_buf [OF c1(1), of 64]
    have b: "buf (zero_to 64 c1) = b" "length b = 64"
      using z c1 r by (simp_all add: b_def)
    have c2: "length (buf c2) = 64" "buf_len c2 = 0" "ctx_h c2 = chain (w @ b)"
      using True b z(3) c1(3,4) r(1) w(4) chain_block [of b w]
      by (simp_all add: c2_def compress_buf_def sha256_compress_fips)
    have "ctx_h c4 = chain ((w @ b) @ replicate 56 0 @ be_bytes 8 v)"
      using final_block [OF c2(1) _ _ c2(3), of c4 v] c2(2) b(2) w(4) by (simp add: c4_def)
    moreover have "replicate (63 - r) 0 @ replicate 56 (0 :: u8) = replicate (119 - r) 0"
      using r(1) by (simp flip: replicate_add)
    then have "(w @ b) @ replicate 56 0 @ be_bytes 8 v = fips_pad m"
      unfolding pad b_def using True by simp
    ultimately show ?thesis
      by simp
  qed
  then show ?thesis
    by (simp add: final fips_sha256_def chain_def put_be32_bytes fun_eq_iff cong: map_cong)
qed

section \<open>Properties\<close>

lemma sha256_pieces:
  assumes "length (buf ctx) = SHA256_BLOCK_SZ"
  shows "sha256_final (fold (\<lambda>d c. sha256_update c d) pieces (sha256_init ctx)) = fips_sha256 (concat pieces)"
proof -
  have "absorbed (sha256_init ctx) []" "total_bytes (sha256_init ctx) = 0"
    using assms by (auto simp: absorbed_def sha256_init_def chain_def fips_H0_def fips_blocks.simps [of "[]"])
  moreover have "absorbed (fold (\<lambda>d c. sha256_update c d) pieces c) (m @ concat pieces) \<and>
      total_bytes (fold (\<lambda>d c. sha256_update c d) pieces c) = of_nat (length (m @ concat pieces))"
    if "absorbed c m" "total_bytes c = of_nat (length m)" for c m
    using that
  proof (induction pieces arbitrary: c m)
    case (Cons d pieces)
    then show ?case
      using Cons.IH [of "sha256_update c d" "m @ d"] sha256_update_absorbed [OF Cons.prems(1), of d] by simp
  qed simp
  ultimately show ?thesis
    using sha256_final_fips by fastforce
qed

text \<open>C10: The streaming interface computes SHA-256. However a message is cut into pieces, whatever the lengths
  of the pieces and whatever the context held before, initialising, feeding the pieces one by one
  and finishing gives the digest that FIPS 180-4 defines for the whole message (with the length field
  taken modulo \<open>2^64\<close>, as the 64-bit counter of the code does).\<close>

theorem sha256_streaming:
  assumes "length (buf ctx) = SHA256_BLOCK_SZ"
  shows "sha256_final (fold (\<lambda>d c. sha256_update c d) pieces (sha256_init ctx)) = fips_sha256 (concat pieces)"
  using assms by (rule sha256_pieces)

text \<open>The published digest of \<open>abc\<close>, computed by the code and by the standard, in one piece and in two.\<close>

definition zero_ctx :: sha256_ctx where
  "zero_ctx = \<lparr>ctx_h = [], total_bytes = 0, buf = replicate 64 0, buf_len = 0\<rparr>"

definition digest_abc :: "u8 list" where
  "digest_abc = [0xba, 0x78, 0x16, 0xbf, 0x8f, 0x01, 0xcf, 0xea, 0x41, 0x41, 0x40, 0xde, 0x5d, 0xae, 0x22, 0x23,
     0xb0, 0x03, 0x61, 0xa3, 0x96, 0x17, 0x7a, 0x9c, 0xb4, 0x10, 0xff, 0x61, 0xf2, 0x00, 0x15, 0xad]"

lemma sha256_abc: "sha256 zero_ctx [0x61, 0x62, 0x63] = digest_abc"
  unfolding zero_ctx_def digest_abc_def by code_simp

theorem sha256_streaming_witness:
  "sha256_final (fold (\<lambda>d c. sha256_update c d) [[0x61], [], [0x62, 0x63]] (sha256_init zero_ctx)) = digest_abc \<and>
   fips_sha256 [0x61, 0x62, 0x63] = digest_abc"
proof -
  have b: "length (buf zero_ctx) = SHA256_BLOCK_SZ"
    by (simp add: zero_ctx_def)
  have "fips_sha256 [0x61, 0x62, 0x63] = digest_abc"
    using sha256_streaming [OF b, of "[[0x61, 0x62, 0x63]]"] sha256_abc by (simp add: sha256_def)
  then show ?thesis
    using sha256_streaming [OF b, of "[[0x61], [], [0x62, 0x63]]"] by simp
qed

end
