(* ===== verification/Kcsprng.thy ===== *)
theory Kcsprng
  imports Sha256 Chacha20
begin

text \<open>
  The kernel's random number generator, \<^verbatim>\<open>kernel/crypto/random.c\<close>: a pool that absorbs input through
  SHA-256, per-CPU staging areas filled by interrupt handlers, and output by ChaCha20 keyed from
  the pool. What the hardware supplies (the random instructions, the time stamp counter, a word
  of uncleared memory) are arguments.
\<close>

section \<open>State\<close>

abbreviation (input) MAX_CPUS :: nat where "MAX_CPUS \<equiv> 64"
abbreviation (input) FASTMIX_BYTES :: nat where "FASTMIX_BYTES \<equiv> 64"

text \<open>A staging area as it lies in memory: 64 bytes, then the 32-bit counter, then padding up to 128.\<close>

type_synonym fast_mix = "u8 list"

record kcsprng =
  g_pool :: "u8 list"
  g_inited :: bool
  g_fastmix :: "nat \<Rightarrow> fast_mix"

definition fm_counter :: "fast_mix \<Rightarrow> u32" where
  "fm_counter fm = le32 fm 64"

definition set_fm_counter :: "u32 \<Rightarrow> fast_mix \<Rightarrow> fast_mix" where
  "set_fm_counter v fm = blit 64 (put_le32 v) fm"

definition le64_bytes :: "u64 \<Rightarrow> u8 list" where
  "le64_bytes v = map (\<lambda>i. ucast (drop_bit (8 * i) v)) [0..<8]"

text \<open>The contexts of the hash live on the stack; their first contents do not matter.\<close>

definition hash2 :: "u8 list \<Rightarrow> u8 list \<Rightarrow> u8 list" where
  "hash2 a b = sha256_final (sha256_update (sha256_update (sha256_init zero_ctx) a) b)"

section \<open>Mixing\<close>

definition pool_mix_locked :: "u8 list \<Rightarrow> kcsprng \<Rightarrow> kcsprng" where
  "pool_mix_locked data s = s\<lparr>g_pool := hash2 (g_pool s) data\<rparr>"

definition kcsprng_mix :: "u8 list \<Rightarrow> kcsprng \<Rightarrow> kcsprng" where
  "kcsprng_mix data s = (if data = [] then s else pool_mix_locked data s)"

definition irq_offset :: "u32 \<Rightarrow> nat" where
  "irq_offset c = unat (c * 9) mod FASTMIX_BYTES"

definition xor_at :: "nat \<Rightarrow> u8 \<Rightarrow> fast_mix \<Rightarrow> fast_mix" where
  "xor_at i b fm = fm[i := fm ! i XOR b]"

definition irq_stage :: "u8 \<Rightarrow> u64 \<Rightarrow> fast_mix \<Rightarrow> fast_mix" where
  "irq_stage vector tsc fm =
     (let dst = irq_offset (fm_counter fm);
          fm1 = fold (\<lambda>i. xor_at (dst + i mod (FASTMIX_BYTES - 1)) (ucast (drop_bit (i * 8) tsc))) [0..<8] fm;
          fm2 = xor_at dst vector fm1
      in set_fm_counter (fm_counter fm2 + 1) fm2)"

definition kcsprng_mix_irq :: "nat option \<Rightarrow> u8 \<Rightarrow> u64 \<Rightarrow> kcsprng \<Rightarrow> kcsprng" where
  "kcsprng_mix_irq this_cpu vector tsc s =
     (case this_cpu of
        None \<Rightarrow> s
      | Some c \<Rightarrow>
          if c \<ge> MAX_CPUS then s
          else
            (let fm = irq_stage vector tsc (g_fastmix s c);
                 s1 = s\<lparr>g_fastmix := (g_fastmix s)(c := fm)\<rparr>
             in if fm_counter fm AND 255 = 0
                then (pool_mix_locked (take FASTMIX_BYTES fm) s1)
                       \<lparr>g_fastmix := (g_fastmix s)(c := blit 0 (replicate FASTMIX_BYTES 0) fm)\<rparr>
                else s1))"

section \<open>Start\<close>

text \<open>Ten tries of a random instruction, each with its value and carry flag.\<close>

definition hwrng64 :: "bool \<Rightarrow> (u64 \<times> bool) list \<Rightarrow> u64 option" where
  "hwrng64 has tries = (if \<not> has then None else map_option fst (List.find snd (take 10 tries)))"

definition hwrng_samples :: "nat \<Rightarrow> bool \<Rightarrow> (nat \<Rightarrow> (u64 \<times> bool) list) \<Rightarrow> u64 list \<Rightarrow> u64 list" where
  "hwrng_samples k has hw seeds = fold (\<lambda>i xs. if length xs < 32 then (case hwrng64 has (hw i) of
     None \<Rightarrow> xs | Some v \<Rightarrow> xs @ [v]) else xs) [0..<k] seeds"

primrec tsc_samples :: "nat \<Rightarrow> u64 \<Rightarrow> (nat \<Rightarrow> u64) \<Rightarrow> u64 list \<Rightarrow> u64 list" where
  "tsc_samples 0 prev tsc seeds = seeds"
| "tsc_samples (Suc k) prev tsc seeds =
     (if length seeds < 32
      then tsc_samples k (tsc 0) (tsc \<circ> Suc) (seeds @ [tsc 0 XOR push_bit 13 prev])
      else seeds)"

record hardware =
  has_rdrand :: bool
  has_rdseed :: bool
  rdrand_tries :: "nat \<Rightarrow> (u64 \<times> bool) list"
  rdseed_tries :: "nat \<Rightarrow> (u64 \<times> bool) list"
  tsc_reads :: "nat \<Rightarrow> u64"
  dram_word :: u64

definition seed_words :: "hardware \<Rightarrow> u64 list" where
  "seed_words hw =
     (let s1 = hwrng_samples 8 (has_rdrand hw) (rdrand_tries hw) [];
          s2 = hwrng_samples 4 (has_rdseed hw) (rdseed_tries hw) s1;
          s3 = tsc_samples 16 (tsc_reads hw 0) (tsc_reads hw \<circ> Suc) s2
      in if length s3 < 32 then s3 @ [dram_word hw] else s3)"

definition kcsprng_init :: "hardware \<Rightarrow> kcsprng \<Rightarrow> kcsprng" where
  "kcsprng_init hw s =
     (if g_inited s then s
      else (pool_mix_locked (concat (map le64_bytes (seed_words hw))) s)\<lparr>g_inited := True\<rparr>)"

section \<open>Output\<close>

definition ascii :: "string \<Rightarrow> u8 list" where
  "ascii = map of_char"

function stream_out :: "u8 list \<Rightarrow> u8 list \<Rightarrow> u32 \<Rightarrow> nat \<Rightarrow> u8 list" where
  "stream_out key nonce ctr len =
     (if len = 0 then []
      else
        (let n = (if len < CHACHA20_BLOCK_SZ then len else CHACHA20_BLOCK_SZ)
         in chacha20_xor (take n (replicate CHACHA20_BLOCK_SZ 0)) key nonce ctr @
              stream_out key nonce (ctr + 1) (len - n)))"
  by pat_completeness auto
termination
  by (relation "measure (\<lambda>(k, n, c, l). l)") auto

declare stream_out.simps [simp del]

definition kcsprng_read :: "hardware \<Rightarrow> u64 \<Rightarrow> nat \<Rightarrow> kcsprng \<Rightarrow> u8 list \<times> kcsprng" where
  "kcsprng_read hw tsc len s0 =
     (if len = 0 then ([], s0)
      else
        (let s1 = (if \<not> g_inited s0 then kcsprng_init hw s0 else s0);
             s2 = pool_mix_locked (le64_bytes tsc) s1;
             key = take 32 (g_pool s2);
             nonce = take 12 (hash2 (g_pool s2) (ascii ''nonce''));
             s3 = s2\<lparr>g_pool := hash2 (g_pool s2) (ascii ''advance'')\<rparr>
         in (stream_out key nonce 0 len, s3)))"

section \<open>Lemmas\<close>

lemma hash2_fips: "hash2 a b = fips_sha256 (a @ b)"
proof -
  have "length (buf zero_ctx) = 64"
    by (simp add: zero_ctx_def)
  from sha256_pieces [OF this, of "[a, b]"] show ?thesis
    by (simp add: hash2_def)
qed

lemma length_fips_sha256 [simp]: "length (fips_sha256 m) = 32"
proof -
  have "length (fold fips_block bs H) = 8" if "length H = 8" for bs H
    using that by (induction bs arbitrary: H) (auto simp: fips_block_def split: prod.split)
  from this [of fips_H0] show ?thesis
    by (simp add: fips_sha256_def length_concat comp_def sum_list_triv fips_H0_def)
qed

lemma stream_out_chacha: "stream_out key nonce ctr len = chacha20_xor (replicate len 0) key nonce ctr"
proof (induction key nonce ctr len rule: stream_out.induct)
  case (1 key nonce ctr len)
  define n where "n = min len 64"
  show ?case
  proof (cases "len = 0")
    case False
    have n: "(if len < 64 then len else 64) = n" "n \<le> len" "n \<le> 64" "0 < n" "n = 64 \<or> len - n = 0"
      using False by (auto simp: n_def)
    have "stream_out key nonce ctr len =
        chacha20_xor (replicate n 0) key nonce ctr @ chacha20_xor (replicate (len - n) 0) key nonce (ctr + 1)"
      using False 1 n by (simp add: stream_out.simps [of _ _ _ len] Let_def)
    moreover have "replicate len (0 :: u8) = replicate n 0 @ replicate (len - n) 0"
      using n(2) by (simp flip: replicate_add)
    moreover have "chacha20_xor (replicate n 0) key nonce ctr = xor_piece (replicate n 0) key nonce ctr"
      using chacha20_xor_step [of "replicate n 0" "[]"] n by simp
    ultimately show ?thesis
      using chacha20_xor_step [of "replicate n 0" "replicate (len - n) 0"] n by simp
  qed (simp add: stream_out.simps)
qed

text \<open>Bytes of a little-endian word.\<close>

lemma bit_le32: "bit (le32 p i) n \<longleftrightarrow> n < 32 \<and> bit (p ! (i + n div 8)) (n mod 8)"
proof (cases "n < 32")
  case True
  then consider "n < 8" | "8 \<le> n" "n < 16" | "16 \<le> n" "n < 24" | "24 \<le> n" "n < 32"
    by linarith
  then show ?thesis
  proof cases
    case 2
    then have "n div 8 = 1" "n mod 8 = n - 8"
      by presburger+
    with 2 show ?thesis
      by (auto simp: le32_def bit_simps dest: byte_bit)
  next
    case 3
    then have "n div 8 = 2" "n mod 8 = n - 16"
      by presburger+
    with 3 show ?thesis
      by (auto simp: le32_def bit_simps dest: byte_bit)
  next
    case 4
    then have "n div 8 = 3" "n mod 8 = n - 24"
      by presburger+
    with 4 show ?thesis
      by (auto simp: le32_def bit_simps dest: byte_bit)
  qed (auto simp: le32_def bit_simps dest: byte_bit)
qed (auto dest: bit_imp_le_length)

lemma length_put_le32: "length (put_le32 v) = 4"
  by (simp add: put_le32_def)

lemma fm_counter_set: "length fm = 128 \<Longrightarrow> fm_counter (set_fm_counter v fm) = v"
proof (rule bit_word_eqI)
  fix n
  assume fm: "length fm = 128" and n: "n < LENGTH(32)"
  have b: "set_fm_counter v fm ! (64 + j) = put_le32 v ! j" if "j < 4" for j
    using fm that length_put_le32 [of v] by (simp add: set_fm_counter_def blit_def nth_append)
  have "bit (put_le32 v ! j) k = bit v (8 * j + k)" if "j < 4" "k < 8" for j k
  proof -
    have "j = 0 \<or> j = 1 \<or> j = 2 \<or> j = 3"
      using that(1) by linarith
    with that(2) show ?thesis
      by (auto simp: put_le32_def bit_simps)
  qed
  from this [of "n div 8" "n mod 8"] show "bit (fm_counter (set_fm_counter v fm)) n = bit v n"
    using n b [of "n div 8"] by (simp add: fm_counter_def bit_le32)
qed

lemma xor_fold:
  "n \<le> 8 \<Longrightarrow> d + 8 \<le> length fm \<Longrightarrow> k < length fm \<Longrightarrow>
   fold (\<lambda>i. xor_at (d + i mod 63) (ucast (drop_bit (i * 8) tsc))) [0..<n] fm ! k =
     fm ! k XOR (if d \<le> k \<and> k < d + n then ucast (drop_bit ((k - d) * 8) (tsc :: u64)) else 0) \<and>
   length (fold (\<lambda>i. xor_at (d + i mod 63) (ucast (drop_bit (i * 8) tsc))) [0..<n] fm) = length fm"
proof (induction n)
  case (Suc n)
  then show ?case
    by (auto simp: xor_at_def nth_list_update)
qed auto

lemma irq_stage_length: "length fm = 128 \<Longrightarrow> length (irq_stage v tsc fm) = 128"
proof -
  assume fm: "length fm = 128"
  have "irq_offset (fm_counter fm) < 64"
    by (simp add: irq_offset_def)
  with fm xor_fold [of 8 "irq_offset (fm_counter fm)" fm 0 tsc] show ?thesis
    by (simp add: irq_stage_def Let_def xor_at_def set_fm_counter_def length_put_le32)
qed

lemma irq_stage_counter:
  assumes "length fm = 128"
  shows "fm_counter (irq_stage v tsc fm) =
    (fm_counter fm XOR ucast (drop_bit (8 * (64 - irq_offset (fm_counter fm))) tsc)) + 1"
proof -
  define d where "d = irq_offset (fm_counter fm)"
  define fm1 where "fm1 = fold (\<lambda>i. xor_at (d + i mod 63) (ucast (drop_bit (i * 8) tsc))) [0..<8] fm"
  have d: "d < 64"
    by (simp add: d_def irq_offset_def)
  have f1: "length fm1 = 128" "k < 128 \<Longrightarrow> fm1 ! k =
      fm ! k XOR (if d \<le> k \<and> k < d + 8 then ucast (drop_bit ((k - d) * 8) tsc) else 0)" for k
    using xor_fold [of 8 d fm k tsc] xor_fold [of 8 d fm 0 tsc] d assms unfolding fm1_def by simp_all
  have "fm_counter (xor_at d v fm1) = fm_counter fm XOR ucast (drop_bit (8 * (64 - d)) tsc)"
  proof (rule bit_word_eqI)
    fix n
    assume n: "n < LENGTH(32)"
    then have k: "64 + n div 8 < 128" "n div 8 < 4"
      by auto
    have "xor_at d v fm1 ! (64 + n div 8) = fm1 ! (64 + n div 8)"
      using d by (simp add: xor_at_def)
    moreover have "(64 + n div 8 - d) * 8 + n mod 8 = 8 * (64 - d) + n"
      using d by (simp add: diff_mult_distrib)
    ultimately show "bit (fm_counter (xor_at d v fm1)) n =
        bit (fm_counter fm XOR ucast (drop_bit (8 * (64 - d)) tsc)) n"
      using n d k f1(2) [OF k(1)]
      by (auto simp: fm_counter_def bit_le32 bit_simps dest: bit_imp_le_length)
  qed
  moreover have "length (xor_at d v fm1) = 128"
    using f1(1) by (simp add: xor_at_def)
  moreover have "irq_stage v tsc fm = set_fm_counter (fm_counter (xor_at d v fm1) + 1) (xor_at d v fm1)"
    by (simp add: irq_stage_def Let_def d_def fm1_def)
  ultimately show ?thesis
    by (simp add: fm_counter_set d_def)
qed

section \<open>Properties\<close>

text \<open>Reading random bytes. Once the generator is initialised, a read of any length returns the ChaCha20 key
  stream, as if produced in one go, under a key that is the hash of the pool and the time, and a
  nonce that is a hash of that key; the pool moves on to another hash of it. The block-wise
  loop adds nothing: a shorter read would have returned a prefix. The pool keeps its size.\<close>

theorem kcsprng_read_correct:
  assumes "g_inited s" and "0 < len" and "key = fips_sha256 (g_pool s @ le64_bytes tsc)"
    and "nonce = take 12 (fips_sha256 (key @ ascii ''nonce''))"
  shows "kcsprng_read hw tsc len s =
      (chacha20_xor (replicate len 0) key nonce 0, s\<lparr>g_pool := fips_sha256 (key @ ascii ''advance'')\<rparr>) \<and>
    length (g_pool (snd (kcsprng_read hw tsc len s))) = 32 \<and>
    (\<forall>n \<le> len. take n (fst (kcsprng_read hw tsc len s)) = fst (kcsprng_read hw tsc n s))"
proof -
  have eq: "kcsprng_read hw tsc n s =
      (chacha20_xor (replicate n 0) key nonce 0, s\<lparr>g_pool := fips_sha256 (key @ ascii ''advance'')\<rparr>)"
    if "0 < n" for n
    using assms(1,3,4) that by (simp add: kcsprng_read_def pool_mix_locked_def hash2_fips stream_out_chacha Let_def)
  have "take n (chacha20_xor (replicate len 0) key nonce 0) = fst (kcsprng_read hw tsc n s)" if "n \<le> len" for n
  proof (cases "n = 0")
    case False
    then show ?thesis
      using eq [of n] chacha20_xor_take [of n "replicate len 0" key nonce 0] that by simp
  qed (simp add: kcsprng_read_def)
  with eq [OF assms(2)] show ?thesis
    by simp
qed

text \<open>C40: The interrupt path writes past its 64 bytes. The offset grows by 9 modulo 64 and eight bytes are written from
  there, so from offset 57 on the time stamp is also mixed into the interrupt counter that follows the
  bytes. The counter, which is meant to advance by one per interrupt and to trigger a flush of
  the bytes into the pool every 256, takes the value below instead.\<close>

theorem kcsprng_irq_counter:
  assumes "length (g_fastmix s c) = 128" and "c < MAX_CPUS"
  shows "fm_counter (g_fastmix (kcsprng_mix_irq (Some c) v tsc s) c) =
    (fm_counter (g_fastmix s c) XOR ucast (drop_bit (8 * (64 - irq_offset (fm_counter (g_fastmix s c)))) tsc)) + 1"
proof -
  have "fm_counter (blit 0 (replicate 64 0) fm) = fm_counter fm" if "length fm = 128" for fm :: "u8 list"
    by (rule bit_word_eqI) (use that in \<open>auto simp: fm_counter_def bit_le32 blit_def nth_append\<close>)
  then show ?thesis
    using assms irq_stage_counter [OF assms(1)] irq_stage_length [OF assms(1)]
    by (auto simp: kcsprng_mix_irq_def Let_def pool_mix_locked_def)
qed

text \<open>A generator after seven interrupts on its first CPU, and hardware without random instructions.\<close>

definition seven_irqs :: kcsprng where
  "seven_irqs = \<lparr>g_pool = replicate 32 0, g_inited = True, g_fastmix = (\<lambda>_. set_fm_counter 7 (replicate 128 0))\<rparr>"

definition no_hwrng :: hardware where
  "no_hwrng = \<lparr>has_rdrand = False, has_rdseed = False, rdrand_tries = (\<lambda>_. []), rdseed_tries = (\<lambda>_. []),
     tsc_reads = of_nat, dram_word = 0\<rparr>"

theorem kcsprng_read_correct_witness:
  "length (fst (kcsprng_read no_hwrng 5 100 seven_irqs)) = 100 \<and>
   length (g_pool (snd (kcsprng_read no_hwrng 5 100 seven_irqs))) = 32 \<and>
   take 3 (fst (kcsprng_read no_hwrng 5 100 seven_irqs)) = fst (kcsprng_read no_hwrng 5 3 seven_irqs)"
proof -
  have "g_inited seven_irqs" "(0 :: nat) < 100"
    by (simp_all add: seven_irqs_def)
  note r = kcsprng_read_correct [OF this refl refl, where tsc = 5 and hw = no_hwrng]
  have "length (fst (kcsprng_read no_hwrng 5 100 seven_irqs)) = 100"
    unfolding conjunct1 [OF r] by simp
  moreover have "take 3 (fst (kcsprng_read no_hwrng 5 100 seven_irqs)) = fst (kcsprng_read no_hwrng 5 3 seven_irqs)"
    using conjunct2 [OF conjunct2 [OF r]] by (rule allE [of _ 3]) simp
  ultimately show ?thesis
    using r by blast
qed

theorem kcsprng_irq_counter_witness:
  "fm_counter (g_fastmix seven_irqs 0) = 7 \<and>
   fm_counter (g_fastmix (kcsprng_mix_irq (Some 0) 32 0x1234567 seven_irqs) 0) = 0x12343"
proof -
  have "length (g_fastmix seven_irqs 0) = 128" "fm_counter (g_fastmix seven_irqs 0) = 7"
    by (simp_all add: seven_irqs_def fm_counter_set) (simp add: set_fm_counter_def length_put_le32)
  moreover have "irq_offset 7 = 63"
    by (simp add: irq_offset_def)
  ultimately show ?thesis
    using kcsprng_irq_counter [of seven_irqs 0 32 "0x1234567"] by simp
qed

end
