(* ===== verification/Probe_Table.thy ===== *)
theory Probe_Table
  imports MakaOS_Prelude "HOL-Library.Monad_Syntax"
begin

text \<open>
  Hash tables with open addressing and linear probing. The kernel has several of them, written out by hand: the
  tables of process ids and of task groups (\<^verbatim>\<open>proc/sched.c\<close>), of network neighbours (\<^verbatim>\<open>net/arp.c\<close>), of ports and of
  socket names (\<^verbatim>\<open>net/socket.c\<close>, \<^verbatim>\<open>net/unix_sock.c\<close>), and of shared-memory names (\<^verbatim>\<open>mm/shmem.c\<close>). All have a
  power of two of slots and step from a slot to the next with a mask. This theory holds their loops and
  the interface \<open>open_addressing\<close> that they interpret: which slots are empty, which are live, and
  the key and hash of a live one. A slot that is neither is a tombstone. Sizes and counts are natural numbers.
\<close>

section \<open>The loops\<close>

definition next_slot :: "'s list \<Rightarrow> nat \<Rightarrow> nat" where
  "next_slot slots i = (i + 1) AND (length slots - 1)"

text \<open>The bounded search: stop at an empty slot or at a hit, give up after as many steps as there are slots.\<close>

primrec find_loop :: "('s \<Rightarrow> bool) \<Rightarrow> ('s \<Rightarrow> bool) \<Rightarrow> 's list \<Rightarrow> nat \<Rightarrow> nat \<Rightarrow> nat option" where
  "find_loop blank hit slots 0 i = None"
| "find_loop blank hit slots (Suc n) i =
     (if blank (slots ! i) then None
      else if hit (slots ! i) then Some i
      else find_loop blank hit slots n (next_slot slots i))"

text \<open>The unbounded search for a slot to write to; \<open>None\<close> is a loop that never ends.\<close>

partial_function (option) free_loop :: "('s \<Rightarrow> bool) \<Rightarrow> 's list \<Rightarrow> nat \<Rightarrow> nat option" where
  "free_loop stop slots i = (if stop (slots ! i) then Some i else free_loop stop slots (next_slot slots i))"

declare free_loop.simps [code]

text \<open>Copying the live slots of one table, in order, into another.\<close>

primrec copy_loop :: "('s \<Rightarrow> bool) \<Rightarrow> ('s \<Rightarrow> 't \<Rightarrow> 't option) \<Rightarrow> 's list \<Rightarrow> 't \<Rightarrow> 't option" where
  "copy_loop live put [] t = Some t"
| "copy_loop live put (s # ss) t =
     (if live s then do { t' \<leftarrow> put s t; copy_loop live put ss t' } else copy_loop live put ss t)"

text \<open>The loop that copies all slots but the first that matches.\<close>

primrec skip_first :: "('s \<Rightarrow> bool) \<Rightarrow> 's list \<Rightarrow> 's list" where
  "skip_first P [] = []"
| "skip_first P (s # ss) = (if P s then ss else s # skip_first P ss)"

text \<open>The size of the next table where a table is replaced by a copy at every change.\<close>

definition grown_cap :: "nat \<Rightarrow> nat \<Rightarrow> nat \<Rightarrow> nat" where
  "grown_cap init cap cnt =
     (let n = (if cap \<noteq> 0 then cap else init)
      in if (cnt + 1) * 4 \<ge> n * 3 then (if cap \<noteq> 0 then cap * 2 else init) else n)"

lemma free_loop_stop: "free_loop stop slots i = Some j \<Longrightarrow> stop (slots ! j)"
  by (rule free_loop.raw_induct [where P = "\<lambda>stop slots i j. stop (slots ! j)"]) (auto split: if_splits)

lemma next_slot_mod: "length slots = 2 ^ k \<Longrightarrow> next_slot slots i = Suc i mod length slots"
  using take_bit_eq_mask [of k "Suc i"] by (simp add: next_slot_def mask_eq_exp_minus_1 take_bit_eq_mod)

lemma next_slot_add:
  "length slots = 2 ^ k \<Longrightarrow> next_slot slots ((h + d) mod length slots) = (h + Suc d) mod length slots"
  by (simp add: next_slot_mod mod_Suc_eq)

text \<open>The multiplicative hash all tables with number keys use, and the one of the tables of names.\<close>

definition knuth_hash :: "u32 \<Rightarrow> nat \<Rightarrow> nat" where
  "knuth_hash x cap = unat (x * 2654435761 AND (of_nat cap - 1))"

definition fnv1a :: "string \<Rightarrow> u32" where
  "fnv1a s = fold (\<lambda>c h. (h XOR of_char c) * 16777619) s 2166136261"

definition name_hash :: "string \<Rightarrow> nat \<Rightarrow> nat" where
  "name_hash s cap = unat (fnv1a s AND (of_nat cap - 1))"

lemma masked_less:
  fixes w :: u32
  shows "unat (w AND (of_nat (2 ^ k) - 1)) < 2 ^ k"
proof -
  have "w AND (of_nat (2 ^ k) - 1) = take_bit k w"
    by (simp add: take_bit_eq_mask mask_eq_exp_minus_1)
  then show ?thesis
    by (simp add: unsigned_take_bit_eq)
qed

section \<open>The interface\<close>

locale open_addressing =
  fixes blank :: "'s \<Rightarrow> bool" and live :: "'s \<Rightarrow> bool" and key :: "'s \<Rightarrow> 'k" and hash :: "'k \<Rightarrow> nat \<Rightarrow> nat"
  assumes hash_less: "hash x (2 ^ k) < 2 ^ k"
    and live_not_blank: "live s \<Longrightarrow> \<not> blank s"
begin

text \<open>The slot at a distance from where a key hashes to.\<close>

definition spot :: "'s list \<Rightarrow> 'k \<Rightarrow> nat \<Rightarrow> nat" where
  "spot slots x d = (hash x (length slots) + d) mod length slots"

text \<open>A table is well formed if no blank slot separates a live one from where its key hashes to, and keys are
  not repeated.\<close>

definition reached :: "'s list \<Rightarrow> 'k \<Rightarrow> nat \<Rightarrow> bool" where
  "reached slots x j \<longleftrightarrow> (\<exists>d < length slots. j = spot slots x d \<and> (\<forall>e < d. \<not> blank (slots ! spot slots x e)))"

definition wf :: "'s list \<Rightarrow> bool" where
  "wf slots \<longleftrightarrow> (\<exists>k. length slots = 2 ^ k) \<and>
     (\<forall>j < length slots. live (slots ! j) \<longrightarrow> reached slots (key (slots ! j)) j) \<and>
     (\<forall>i < length slots. \<forall>j < length slots. live (slots ! i) \<longrightarrow> live (slots ! j) \<longrightarrow> key (slots ! i) = key (slots ! j) \<longrightarrow> i = j)"

definition entries :: "'s list \<Rightarrow> 's set" where
  "entries slots = {s \<in> set slots. live s}"

definition find_key :: "'s list \<Rightarrow> 'k \<Rightarrow> nat option" where
  "find_key slots x = find_loop blank (\<lambda>s. live s \<and> key s = x) slots (length slots) (hash x (length slots))"

lemma wfD:
  assumes "wf slots"
  shows "\<exists>k. length slots = 2 ^ k" "0 < length slots"
    "j < length slots \<Longrightarrow> live (slots ! j) \<Longrightarrow> reached slots (key (slots ! j)) j"
    "i < length slots \<Longrightarrow> j < length slots \<Longrightarrow> live (slots ! i) \<Longrightarrow> live (slots ! j) \<Longrightarrow> key (slots ! i) = key (slots ! j) \<Longrightarrow> i = j"
  using assms unfolding wf_def by auto

lemma spot_less: "0 < length slots \<Longrightarrow> spot slots x d < length slots"
  by (simp add: spot_def)

lemma spot_0: "length slots = 2 ^ k \<Longrightarrow> spot slots x 0 = hash x (length slots)"
  using hash_less [of x k] by (simp add: spot_def)

lemma next_spot: "length slots = 2 ^ k \<Longrightarrow> next_slot slots (spot slots x d) = spot slots x (Suc d)"
  using next_slot_add [of slots k "hash x (length slots)" d] by (simp add: spot_def)

text \<open>All slots are met on the way around.\<close>

lemma spot_surj:
  assumes "j < length slots"
  shows "\<exists>d < length slots. j = spot slots x d"
proof -
  define n h where "n = length slots" and "h = hash x (length slots) mod length slots"
  have "0 < n" "j < n"
    using assms by (auto simp: n_def)
  then have "h < n"
    unfolding h_def n_def by (intro mod_less_divisor) simp
  define d where "d = (j + n - h) mod n"
  have "(h + d) mod n = (h + (j + n - h)) mod n"
    by (simp add: d_def mod_add_right_eq)
  also have "\<dots> = j"
    using \<open>h < n\<close> \<open>j < n\<close> by simp
  finally have "j = spot slots x d"
    by (simp add: spot_def n_def h_def mod_add_left_eq)
  moreover have "d < n"
    using \<open>0 < n\<close> by (simp add: d_def)
  ultimately show ?thesis
    by (auto simp: n_def)
qed

lemma find_loop_Some:
  "length slots = 2 ^ k \<Longrightarrow> find_loop blank hit slots n (spot slots x d) = Some j \<Longrightarrow> j < length slots \<and> hit (slots ! j)"
proof (induction n arbitrary: d)
  case (Suc n)
  have "spot slots x d < length slots"
    by (rule spot_less) (simp add: Suc.prems(1))
  then show ?case
    using Suc by (auto simp: next_spot [OF Suc.prems(1)] simp del: spot_less split: if_splits)
qed simp

lemma find_loop_None:
  assumes k: "length slots = 2 ^ k"
  shows "find_loop blank hit slots n (spot slots x d) = None \<Longrightarrow> e < n \<Longrightarrow>
    \<forall>f \<le> e. \<not> blank (slots ! spot slots x (d + f)) \<Longrightarrow> \<not> hit (slots ! spot slots x (d + e))"
proof (induction n arbitrary: d e)
  case (Suc n)
  have b: "\<not> blank (slots ! spot slots x d)"
    using Suc.prems(3) by (metis add_0_right le0)
  with Suc.prems(1) have none: "find_loop blank hit slots n (spot slots x (Suc d)) = None"
    and h: "\<not> hit (slots ! spot slots x d)"
    by (auto simp: next_spot [OF k] split: if_splits)
  show ?case
  proof (cases e)
    case 0
    then show ?thesis using h by simp
  next
    case (Suc e')
    have "\<forall>f \<le> e'. \<not> blank (slots ! spot slots x (Suc d + f))"
      using Suc.prems(3) Suc by (metis Suc_le_mono add_Suc_shift)
    then show ?thesis
      using Suc.IH [OF none, of e'] Suc.prems(2) Suc by simp
  qed
qed simp

text \<open>The bounded search decides membership.\<close>

lemma find_key_spec:
  assumes "wf slots"
  shows "case find_key slots x of
      Some j \<Rightarrow> j < length slots \<and> live (slots ! j) \<and> key (slots ! j) = x
    | None \<Rightarrow> \<forall>s \<in> entries slots. key s \<noteq> x"
proof -
  obtain k where k: "length slots = 2 ^ k"
    using wfD(1) [OF assms] ..
  show ?thesis
  proof (cases "find_key slots x")
    case None
    have "key s \<noteq> x" if s: "s \<in> entries slots" for s
    proof
      assume "key s = x"
      obtain j where j: "j < length slots" "slots ! j = s" "live s"
        using s by (auto simp: entries_def in_set_conv_nth)
      then obtain d where d: "d < length slots" "j = spot slots x d" "\<forall>e < d. \<not> blank (slots ! spot slots x e)"
        using wfD(3) [OF assms j(1)] \<open>key s = x\<close> by (auto simp: reached_def)
      then have "\<forall>f \<le> d. \<not> blank (slots ! spot slots x (0 + f))"
        using j live_not_blank by (auto simp: le_less)
      from find_loop_None [OF k _ d(1) this, of "\<lambda>s. live s \<and> key s = x"] show False
        using None j d(2) \<open>key s = x\<close> by (simp add: find_key_def spot_0 [OF k])
    qed
    then show ?thesis using None by simp
  next
    case (Some j)
    then show ?thesis
      using find_loop_Some [OF k, of "\<lambda>s. live s \<and> key s = x" "length slots" x 0 j]
      by (simp add: find_key_def spot_0 [OF k])
  qed
qed

lemma find_key_None: "wf slots \<Longrightarrow> find_key slots x = None \<longleftrightarrow> (\<forall>s \<in> entries slots. key s \<noteq> x)"
  using find_key_spec [of slots x] by (auto simp: entries_def split: option.splits) (metis nth_mem)

lemma find_key_Some:
  assumes "wf slots" and "j < length slots" and "live (slots ! j)"
  shows "find_key slots (key (slots ! j)) = Some j"
proof (cases "find_key slots (key (slots ! j))")
  case None
  have "slots ! j \<in> entries slots"
    using assms(2,3) by (simp add: entries_def)
  then show ?thesis
    using find_key_None [OF assms(1)] None by blast
next
  case (Some i)
  then show ?thesis
    using find_key_spec [OF assms(1), of "key (slots ! j)"] wfD(4) [OF assms(1)] assms(2,3) by auto
qed

text \<open>The table as a map from keys to slots.\<close>

definition tmap :: "'s list \<Rightarrow> 'k \<Rightarrow> 's option" where
  "tmap slots x = map_option (nth slots) (find_key slots x)"

lemma tmap_Some:
  assumes "wf slots"
  shows "tmap slots x = Some s \<longleftrightarrow> s \<in> entries slots \<and> key s = x"
proof
  show "s \<in> entries slots \<and> key s = x" if "tmap slots x = Some s"
    using that find_key_spec [OF assms, of x] by (auto simp: tmap_def entries_def)
  show "tmap slots x = Some s" if "s \<in> entries slots \<and> key s = x"
    using that find_key_Some [OF assms] by (auto simp: tmap_def entries_def in_set_conv_nth)
qed

lemma tmap_eqI:
  assumes "wf slots" and "\<And>x s. s \<in> entries slots \<and> key s = x \<longleftrightarrow> m x = Some s"
  shows "tmap slots = m"
  using tmap_Some [OF assms(1)] assms(2) by (intro ext) (metis not_Some_eq)

lemma tmap_insert:
  assumes "wf a" "wf b" "entries b = insert s (entries a)" "\<forall>e \<in> entries a. key e \<noteq> key s"
  shows "tmap b = (tmap a)(key s \<mapsto> s)"
  using assms(3,4) by (intro tmap_eqI [OF assms(2)]) (auto simp: tmap_Some [OF assms(1)])

lemma tmap_replace:
  assumes "wf a" "wf b" "entries b = insert s (entries a - {e})" "e \<in> entries a" "key e = key s"
  shows "tmap b = (tmap a)(key s \<mapsto> s)"
proof (rule tmap_eqI [OF assms(2)])
  have "tmap a (key s) = Some e"
    using assms(1,4,5) by (simp add: tmap_Some)
  then have "key e' \<noteq> key s" if "e' \<in> entries a" "e' \<noteq> e" for e'
    using that tmap_Some [OF assms(1)] by (metis option.inject)
  then show "s' \<in> entries b \<and> key s' = x \<longleftrightarrow> ((tmap a)(key s \<mapsto> s)) x = Some s'" for x s'
    using assms(3,5) by (auto simp: tmap_Some [OF assms(1)])
qed

lemma tmap_delete:
  assumes "wf a" "wf b" "entries b = {s \<in> entries a. key s \<noteq> x}"
  shows "tmap b = (tmap a)(x := None)"
  using assms(3) by (intro tmap_eqI [OF assms(2)]) (auto simp: tmap_Some [OF assms(1)])

lemma tmap_None: "wf slots \<Longrightarrow> tmap slots x = None \<longleftrightarrow> (\<forall>s \<in> entries slots. key s \<noteq> x)"
  by (simp add: tmap_def find_key_None)

text \<open>The unbounded search ends as soon as there is a slot to stop at.\<close>

lemma free_loop_spot:
  assumes k: "length slots = 2 ^ k" and "stop (slots ! spot slots x (d + n))"
  shows "\<exists>m \<le> n. free_loop stop slots (spot slots x d) = Some (spot slots x (d + m)) \<and>
    stop (slots ! spot slots x (d + m)) \<and> (\<forall>e < m. \<not> stop (slots ! spot slots x (d + e)))"
  using assms(2)
proof (induction n arbitrary: d)
  case 0
  then show ?case by (simp add: free_loop.simps [of stop slots "spot slots x d"])
next
  case (Suc n)
  show ?case
  proof (cases "stop (slots ! spot slots x d)")
    case True
    then show ?thesis by (intro exI [of _ 0]) (simp add: free_loop.simps [of stop slots "spot slots x d"])
  next
    case False
    obtain m where m: "m \<le> n" "free_loop stop slots (spot slots x (Suc d)) = Some (spot slots x (Suc d + m))"
      "stop (slots ! spot slots x (Suc d + m))" "\<forall>e < m. \<not> stop (slots ! spot slots x (Suc d + e))"
      using Suc.IH [of "Suc d"] Suc.prems by auto
    have "\<not> stop (slots ! spot slots x (d + e))" if "e < Suc m" for e
      using that False m(4) by (cases e) auto
    then show ?thesis
      using m False next_spot [OF k]
      by (intro exI [of _ "Suc m"]) (simp add: free_loop.simps [of stop slots "spot slots x d"])
  qed
qed

lemma free_loop_ends:
  assumes "length slots = 2 ^ k" and "j < length slots" and "stop (slots ! j)"
  obtains d where "d < length slots" "free_loop stop slots (hash x (length slots)) = Some (spot slots x d)"
    "stop (slots ! spot slots x d)" "\<forall>e < d. \<not> stop (slots ! spot slots x e)"
proof -
  obtain n where "n < length slots" "j = spot slots x n"
    using spot_surj [OF assms(2)] by blast
  then obtain m where "m \<le> n" "free_loop stop slots (spot slots x 0) = Some (spot slots x m)"
    "stop (slots ! spot slots x m)" "\<forall>e < m. \<not> stop (slots ! spot slots x e)"
    using free_loop_spot [OF assms(1), of stop x 0 n] assms(3) by auto
  then show thesis
    using \<open>n < length slots\<close> that [of m] by (simp only: spot_0 [OF assms(1)])
qed

text \<open>The search depends only on what stops it, and where a key is stored a search that stops at it does.\<close>

lemma free_loop_cong:
  assumes "length slots = 2 ^ k" and "\<And>e. e \<in> set slots \<Longrightarrow> P e \<longleftrightarrow> Q e"
  shows "free_loop P slots i = Some j \<Longrightarrow> i < length slots \<Longrightarrow> free_loop Q slots i = Some j"
proof -
  have "st = P \<longrightarrow> sl = slots \<longrightarrow> i < length slots \<longrightarrow> free_loop Q slots i = Some j" if "free_loop st sl i = Some j" for st sl
    using that
  proof (rule free_loop.raw_induct [where P = "\<lambda>st sl i j. st = P \<longrightarrow> sl = slots \<longrightarrow> i < length slots \<longrightarrow> free_loop Q slots i = Some j", rotated])
    fix f st sl i j
    assume f: "\<And>st sl i j. f st sl i = Some j \<Longrightarrow> st = P \<longrightarrow> sl = slots \<longrightarrow> i < length slots \<longrightarrow> free_loop Q slots i = Some j"
      and b: "(if st (sl ! i) then Some i else f st sl (next_slot sl i)) = Some j"
    have "next_slot slots i < length slots"
      using assms(1) by (simp add: next_slot_mod)
    then show "st = P \<longrightarrow> sl = slots \<longrightarrow> i < length slots \<longrightarrow> free_loop Q slots i = Some j"
      using f b assms(2) nth_mem [of i slots] by (subst free_loop.simps) (auto split: if_splits)
  qed
  then show "free_loop P slots i = Some j \<Longrightarrow> i < length slots \<Longrightarrow> free_loop Q slots i = Some j"
    by simp
qed

lemma free_loop_hit:
  assumes w: "wf slots" and "j < length slots" and "live (slots ! j)" and "\<And>e. live e \<longleftrightarrow> \<not> blank e"
  shows "free_loop (\<lambda>e. blank e \<or> key e = key (slots ! j)) slots (hash (key (slots ! j)) (length slots)) = Some j"
proof -
  let ?x = "key (slots ! j)" and ?stop = "\<lambda>e. blank e \<or> key e = key (slots ! j)"
  obtain k where k: "length slots = 2 ^ k"
    using wfD(1) [OF w] ..
  obtain d where d: "d < length slots" "j = spot slots ?x d" "\<forall>e < d. \<not> blank (slots ! spot slots ?x e)"
    using wfD(3) [OF w assms(2,3)] by (auto simp: reached_def)
  obtain m where m: "m \<le> d" "free_loop ?stop slots (spot slots ?x 0) = Some (spot slots ?x m)" "?stop (slots ! spot slots ?x m)"
    using free_loop_spot [OF k, of ?stop ?x 0 d] d(2) by auto
  have "spot slots ?x m = j"
  proof (cases "m = d")
    case False
    then have "live (slots ! spot slots ?x m)" "key (slots ! spot slots ?x m) = ?x"
      using m d(3) assms(4) by auto
    then show ?thesis
      using wfD(4) [OF w _ assms(2)] assms(3) spot_less [OF wfD(2) [OF w]] by blast
  qed (use d(2) in simp)
  then show ?thesis
    using m(2) spot_0 [OF k] by simp
qed

text \<open>Changing a slot. A slot that stays not blank keeps every other one reachable.\<close>

lemma spot_update [simp]: "spot (slots[j := s]) x d = spot slots x d"
  by (simp add: spot_def)

lemma reached_update:
  "reached slots x i \<Longrightarrow> \<not> blank s \<Longrightarrow> reached (slots[j := s]) x i"
  unfolding reached_def by (metis length_list_update nth_list_update_eq nth_list_update_neq list_update_beyond not_le spot_update)

lemma entries_update:
  assumes "j < length slots"
    and "\<And>i. i < length slots \<Longrightarrow> i \<noteq> j \<Longrightarrow> live (slots ! j) \<Longrightarrow> slots ! i \<noteq> slots ! j"
  shows "entries (slots[j := s]) = entries slots - (if live (slots ! j) then {slots ! j} else {}) \<union> (if live s then {s} else {})"
  using assms unfolding entries_def by (auto simp: in_set_conv_nth nth_list_update) metis+

lemma live_unique:
  "wf slots \<Longrightarrow> i < length slots \<Longrightarrow> j < length slots \<Longrightarrow> i \<noteq> j \<Longrightarrow> live (slots ! j) \<Longrightarrow> slots ! i \<noteq> slots ! j"
  using wfD(4) by metis

text \<open>Writing a new key to a slot that the search found, replacing a live slot under the same key, and
  leaving a tombstone.\<close>

lemma put_wf:
  assumes w: "wf slots" and new: "\<forall>t \<in> entries slots. key t \<noteq> key s" and s: "live s"
    and d: "d < length slots" and free: "\<not> live (slots ! spot slots (key s) d)"
    and before: "\<forall>e < d. \<not> blank (slots ! spot slots (key s) e)"
  shows "wf (slots[spot slots (key s) d := s])" "entries (slots[spot slots (key s) d := s]) = insert s (entries slots)"
proof -
  let ?j = "spot slots (key s) d" and ?t = "slots[spot slots (key s) d := s]"
  have j: "?j < length slots"
    by (rule spot_less [OF wfD(2) [OF w]])
  have nb: "\<not> blank s"
    by (rule live_not_blank [OF s])
  have new': "key (slots ! i) \<noteq> key s" if "i < length slots" "live (slots ! i)" for i
    using new that by (simp add: entries_def)
  have "reached ?t (key (?t ! i)) i" if "i < length slots" "live (?t ! i)" for i
  proof (cases "i = ?j")
    case True
    have "\<not> blank (?t ! spot slots (key s) e)" if "e < d" for e
      using before that nb j by (cases "spot slots (key s) e = ?j") auto
    then show ?thesis
      using True j d unfolding reached_def by auto
  next
    case False
    then show ?thesis
      using that wfD(3) [OF w] by (simp add: reached_update nb)
  qed
  moreover have "i = i'" if "i < length slots" "i' < length slots" "live (?t ! i)" "live (?t ! i')" "key (?t ! i) = key (?t ! i')" for i i'
    using that wfD(4) [OF w, of i i'] new' [of i] new' [of i'] j by (cases "i = ?j"; cases "i' = ?j") auto
  ultimately show "wf ?t"
    using wfD(1) [OF w] by (simp add: wf_def)
  show "entries ?t = insert s (entries slots)"
    using entries_update [OF j, of s] free s by simp
qed

lemma update_wf:
  assumes w: "wf slots" and "j < length slots" and "live (slots ! j)" and "\<not> blank s" and "live s \<longrightarrow> key s = key (slots ! j)"
  shows "wf (slots[j := s])"
proof -
  have old: "live (slots ! i) \<and> key (slots[j := s] ! i) = key (slots ! i)" if "i < length slots" "live (slots[j := s] ! i)" for i
    using that assms(2,3,5) by (cases "i = j") auto
  then have "reached (slots[j := s]) (key (slots[j := s] ! i)) i" if "i < length slots" "live (slots[j := s] ! i)" for i
    using that wfD(3) [OF w] assms(4) by (simp add: reached_update)
  then show ?thesis
    using wfD(1,4) [OF w] old unfolding wf_def by simp
qed

lemma replace_wf:
  assumes w: "wf slots" and "j < length slots" and "live (slots ! j)" and "live s" and "key s = key (slots ! j)"
  shows "wf (slots[j := s])" "entries (slots[j := s]) = insert s (entries slots - {slots ! j})"
  using update_wf [OF w] entries_update [OF assms(2) live_unique [OF w], of s] assms live_not_blank by simp_all

lemma tomb_wf:
  assumes w: "wf slots" and "j < length slots" and "live (slots ! j)" and "\<not> live s" and "\<not> blank s"
  shows "wf (slots[j := s])" "entries (slots[j := s]) = entries slots - {slots ! j}"
  using update_wf [OF w] entries_update [OF assms(2) live_unique [OF w], of s] assms by simp_all

text \<open>A table of blank slots.\<close>

lemma fresh_wf: "blank s \<Longrightarrow> wf (replicate (2 ^ k) s)" "blank s \<Longrightarrow> entries (replicate n s) = {}"
  using live_not_blank by (auto simp: wf_def entries_def)

text \<open>The number of live slots.\<close>

definition live_count :: "'s list \<Rightarrow> nat" where
  "live_count slots = length (filter live slots)"

lemma live_count_update:
  assumes "j < length slots"
  shows "live_count (slots[j := s]) + (if live (slots ! j) then 1 else 0) = live_count slots + (if live s then 1 else 0)"
proof -
  let ?a = "take j slots" and ?b = "drop (Suc j) slots"
  have "filter live slots = filter live (?a @ slots ! j # ?b)"
    using assms by (simp only: id_take_nth_drop [symmetric])
  moreover have "filter live (slots[j := s]) = filter live (?a @ s # ?b)"
    using assms by (simp only: upd_conv_take_nth_drop)
  ultimately show ?thesis
    by (simp add: live_count_def)
qed

lemma Cons_live [simp]:
  "entries [] = {}" "entries (x # xs) = (if live x then insert x (entries xs) else entries xs)"
  "live_count [] = 0" "live_count (x # xs) = (if live x then 1 else 0) + live_count xs"
  by (auto simp: entries_def live_count_def)

lemma live_count_fresh [simp]: "blank s \<Longrightarrow> live_count (replicate n s) = 0"
  using live_not_blank [of s] by (auto simp: live_count_def filter_empty_conv)

lemma not_full:
  assumes "live_count slots < length slots"
  obtains j where "j < length slots" "\<not> live (slots ! j)"
proof -
  have "filter live slots \<noteq> slots"
    using assms by (auto simp: live_count_def)
  then show thesis
    using that by (metis filter_id_conv in_set_conv_nth)
qed

lemma distinct_keys:
  assumes "wf slots"
  shows "distinct (map key (filter live slots))"
proof -
  have "distinct (map key (filter live xs))"
    if "\<forall>i < length xs. \<forall>j < length xs. live (xs ! i) \<longrightarrow> live (xs ! j) \<longrightarrow> key (xs ! i) = key (xs ! j) \<longrightarrow> i = j" for xs
    using that
  proof (induction xs)
    case (Cons x xs)
    have "key y \<noteq> key x" if y: "y \<in> set xs" "live y" "live x" for y
    proof -
      obtain j where "j < length xs" "xs ! j = y"
        using y(1) by (auto simp: in_set_conv_nth)
      then show ?thesis
        using Cons.prems y by (metis Suc_less_eq length_Cons nat.distinct(1) nth_Cons_0 nth_Cons_Suc zero_less_Suc)
    qed
    moreover have "distinct (map key (filter live xs))"
      by (rule Cons.IH) (use Cons.prems in \<open>metis Suc_less_eq length_Cons nat.inject nth_Cons_Suc\<close>)
    ultimately show ?case by (simp add: image_iff) metis
  qed simp
  then show ?thesis
    using assms by (simp add: wf_def)
qed

lemma skip_first_live:
  "distinct (map key (filter live slots)) \<Longrightarrow>
   filter live (skip_first (\<lambda>s. live s \<and> key s = x) slots) = filter (\<lambda>s. key s \<noteq> x) (filter live slots)"
proof (induction slots)
  case (Cons a slots)
  have "filter live slots = filter (\<lambda>s. live s \<and> key s \<noteq> x) slots" if "live a" "key a = x"
    using Cons.prems that by (intro filter_cong) (force simp: image_iff)+
  then show ?case
    using Cons by (auto split: if_splits)
qed simp

end

text \<open>A table with its slots, the counter of live ones, and the operation that puts an entry with a new key into the
  first slot on its way that is not live.\<close>

locale probing_table = open_addressing blank live key hash
  for blank :: "'s \<Rightarrow> bool" and live :: "'s \<Rightarrow> bool" and key :: "'s \<Rightarrow> 'k" and hash :: "'k \<Rightarrow> nat \<Rightarrow> nat" +
  fixes slots_of :: "'t \<Rightarrow> 's list" and cnt_of :: "'t \<Rightarrow> nat" and put :: "'s \<Rightarrow> 't \<Rightarrow> 't option"
  assumes put: "wf (slots_of t) \<Longrightarrow> live s \<Longrightarrow> \<forall>e \<in> entries (slots_of t). key e \<noteq> key s \<Longrightarrow>
      free_loop (\<lambda>e. \<not> live e) (slots_of t) (hash (key s) (length (slots_of t))) = Some j \<Longrightarrow>
      \<exists>t'. put s t = Some t' \<and> slots_of t' = (slots_of t)[j := s] \<and> cnt_of t' = cnt_of t + 1"
begin

definition tab_ok :: "'t \<Rightarrow> bool" where
  "tab_ok t \<longleftrightarrow> wf (slots_of t) \<and> cnt_of t = live_count (slots_of t)"

lemma put_ok:
  assumes t: "tab_ok t" and s: "live s" and new: "\<forall>e \<in> entries (slots_of t). key e \<noteq> key s"
    and room: "cnt_of t < length (slots_of t)"
  obtains t' where "put s t = Some t'" "tab_ok t'" "length (slots_of t') = length (slots_of t)"
    "entries (slots_of t') = insert s (entries (slots_of t))" "cnt_of t' = cnt_of t + 1"
proof -
  let ?x = "slots_of t"
  have w: "wf ?x"
    using t by (simp add: tab_ok_def)
  obtain k where k: "length ?x = 2 ^ k"
    using wfD(1) [OF w] ..
  obtain i where "i < length ?x" "\<not> live (?x ! i)"
    using not_full [of ?x] t room by (auto simp: tab_ok_def)
  from free_loop_ends [OF k, of i "\<lambda>e. \<not> live e" "key s", OF this]
  obtain d where d: "d < length ?x" "free_loop (\<lambda>e. \<not> live e) ?x (hash (key s) (length ?x)) = Some (spot ?x (key s) d)"
    "\<not> live (?x ! spot ?x (key s) d)" "\<forall>e < d. live (?x ! spot ?x (key s) e)"
    by auto
  obtain t' where t': "put s t = Some t'" "slots_of t' = ?x[spot ?x (key s) d := s]" "cnt_of t' = cnt_of t + 1"
    using put [OF w s new d(2)] by blast
  have "\<forall>e < d. \<not> blank (?x ! spot ?x (key s) e)"
    using d(4) live_not_blank by blast
  note pw = put_wf [OF w new s d(1,3) this]
  have "spot ?x (key s) d < length ?x"
    by (rule spot_less [OF wfD(2) [OF w]])
  from live_count_update [OF this, of s] pw show thesis
    using that [OF t'(1)] t' t s d(3) by (simp add: tab_ok_def)
qed

lemma copy_ok:
  "tab_ok t \<Longrightarrow> distinct (map key (filter live olds)) \<Longrightarrow>
   \<forall>e \<in> entries (slots_of t). \<forall>o' \<in> set (filter live olds). key e \<noteq> key o' \<Longrightarrow>
   cnt_of t + live_count olds \<le> length (slots_of t) \<Longrightarrow>
   \<exists>t'. copy_loop live put olds t = Some t' \<and> tab_ok t' \<and> length (slots_of t') = length (slots_of t) \<and>
     entries (slots_of t') = entries (slots_of t) \<union> entries olds \<and> cnt_of t' = cnt_of t + live_count olds"
proof (induction olds arbitrary: t)
  case Nil
  then show ?case by simp
next
  case (Cons x xs)
  show ?case
  proof (cases "live x")
    case True
    have "\<forall>e \<in> entries (slots_of t). key e \<noteq> key x" "cnt_of t < length (slots_of t)"
      using Cons.prems(3,4) True by auto
    from put_ok [OF Cons.prems(1) True this] obtain t1 where
      t1: "put x t = Some t1" "tab_ok t1" "length (slots_of t1) = length (slots_of t)"
      "entries (slots_of t1) = insert x (entries (slots_of t))" "cnt_of t1 = cnt_of t + 1"
      by blast
    have "\<forall>e \<in> entries (slots_of t1). \<forall>o' \<in> set (filter live xs). key e \<noteq> key o'"
      "distinct (map key (filter live xs))" "cnt_of t1 + live_count xs \<le> length (slots_of t1)"
      using Cons.prems(2-4) True t1(3-5) by auto
    then show ?thesis
      using Cons.IH [OF t1(2)] t1 True by auto
  next
    case False
    then show ?thesis
      using Cons by simp
  qed
qed

end

text \<open>Tables that are replaced by a copy at every change, with no tombstones. They are filled to less than three
  quarters.\<close>

locale cow_table = probing_table blank "\<lambda>s. \<not> blank s" key hash slots_of cnt_of put
  for blank :: "'s \<Rightarrow> bool" and key :: "'s \<Rightarrow> 'k" and hash :: "'k \<Rightarrow> nat \<Rightarrow> nat"
    and slots_of :: "'t \<Rightarrow> 's list" and cnt_of :: "'t \<Rightarrow> nat" and put :: "'s \<Rightarrow> 't \<Rightarrow> 't option" +
  fixes fresh :: "nat \<Rightarrow> 't" and nil :: 's and init :: nat
  assumes fresh: "slots_of (fresh n) = replicate n nil" "cnt_of (fresh n) = 0"
    and nil: "blank nil"
    and init: "\<exists>k. init = 2 ^ k" "2 \<le> init"
begin

definition good :: "'t \<Rightarrow> bool" where
  "good t \<longleftrightarrow> tab_ok t \<and> cnt_of t * 4 < length (slots_of t) * 3"

definition olds :: "'t option \<Rightarrow> 's list" where
  "olds t = (case t of None \<Rightarrow> [] | Some t' \<Rightarrow> slots_of t')"

definition good_opt :: "'t option \<Rightarrow> bool" where
  "good_opt t \<longleftrightarrow> (\<forall>t'. t = Some t' \<longrightarrow> good t')"

lemma fresh_ok: "tab_ok (fresh (2 ^ k))" "entries (slots_of (fresh n)) = {}" "cnt_of (fresh n) = 0" "length (slots_of (fresh n)) = n"
  using fresh_wf [OF nil] live_count_fresh [OF nil] by (simp_all add: tab_ok_def fresh)

lemma copy_fresh:
  assumes "distinct (map key (filter (\<lambda>s. \<not> blank s) ss))" and "live_count ss \<le> 2 ^ k"
  obtains t where "copy_loop (\<lambda>s. \<not> blank s) put ss (fresh (2 ^ k)) = Some t" "tab_ok t" "length (slots_of t) = 2 ^ k"
    "entries (slots_of t) = entries ss" "cnt_of t = live_count ss"
  using copy_ok [OF fresh_ok(1) assms(1), of k] fresh_ok(2-4) assms(2) that by auto

lemma good_olds:
  assumes "good_opt t"
  shows "distinct (map key (filter (\<lambda>s. \<not> blank s) (olds t)))"
    "(case t of None \<Rightarrow> 0 | Some t' \<Rightarrow> cnt_of t') = live_count (olds t)"
    "t \<noteq> None \<Longrightarrow> \<exists>k. length (olds t) = 2 ^ k"
    "t \<noteq> None \<Longrightarrow> live_count (olds t) * 4 < length (olds t) * 3"
  using assms distinct_keys wfD(1)
  by (auto simp: good_opt_def good_def olds_def tab_ok_def split: option.splits)

text \<open>The map of a table that may not exist yet.\<close>

lemma olds_tmap:
  assumes "good_opt t"
  shows "tmap (olds t) x = Some s \<longleftrightarrow> s \<in> entries (olds t) \<and> key s = x"
proof (cases t)
  case None
  then show ?thesis by (simp add: olds_def tmap_def find_key_def)
next
  case (Some t')
  then have "wf (olds t)"
    using assms by (simp add: olds_def good_opt_def good_def tab_ok_def)
  then show ?thesis by (rule tmap_Some)
qed

lemma olds_tmap_None: "good_opt t \<Longrightarrow> tmap (olds t) x = None \<longleftrightarrow> (\<forall>s \<in> entries (olds t). key s \<noteq> x)"
  using olds_tmap [of t x] by (metis not_Some_eq)

lemma olds_tmap_insert:
  assumes "good_opt t" "wf b" "entries b = insert s (entries (olds t))" "\<forall>e \<in> entries (olds t). key e \<noteq> key s"
  shows "tmap b = (tmap (olds t))(key s \<mapsto> s)"
  using assms(3,4) by (intro tmap_eqI [OF assms(2)]) (auto simp: olds_tmap [OF assms(1)])

lemma grown_cap_ok:
  assumes "good_opt t"
  defines "n \<equiv> grown_cap init (length (olds t)) (live_count (olds t))"
  shows "\<exists>k. n = 2 ^ k" "(live_count (olds t) + 1) * 4 < n * 3"
proof -
  have "(\<exists>k. n = 2 ^ k) \<and> (live_count (olds t) + 1) * 4 < n * 3"
  proof (cases t)
    case None
    then show ?thesis
      using init by (auto simp: n_def olds_def grown_cap_def)
  next
    case (Some t')
    obtain k where k: "length (olds t) = 2 ^ k"
      using good_olds(3) [OF assms(1)] Some by blast
    define c l where "c = live_count (olds t)" and "l = length (olds t)"
    have c: "c * 4 < l * 3" "0 < l"
      using good_olds(4) [OF assms(1)] Some k by (auto simp: c_def l_def)
    then have "(c + 1) * 4 < l * 2 * 3"
      by presburger
    moreover have "n = (if (c + 1) * 4 \<ge> l * 3 then l * 2 else l)"
      using c(2) by (simp add: n_def grown_cap_def c_def l_def)
    moreover have "l = 2 ^ k" "l * 2 = 2 ^ Suc k"
      using k by (simp_all add: l_def)
    ultimately show ?thesis
      unfolding c_def [symmetric] by (metis not_le)
  qed
  then show "\<exists>k. n = 2 ^ k" "(live_count (olds t) + 1) * 4 < n * 3"
    by blast+
qed

lemma cow_copy:
  assumes "good_opt t"
  obtains u where
    "copy_loop (\<lambda>s. \<not> blank s) put (olds t) (fresh (grown_cap init (length (olds t)) (live_count (olds t)))) = Some u"
    "tab_ok u" "entries (slots_of u) = entries (olds t)" "(cnt_of u + 1) * 4 < length (slots_of u) * 3"
    "length (slots_of u) = grown_cap init (length (olds t)) (live_count (olds t))"
proof -
  obtain k where k: "grown_cap init (length (olds t)) (live_count (olds t)) = 2 ^ k"
    using grown_cap_ok(1) [OF assms] by blast
  have "c \<le> n" if "(c + 1) * 4 < n * 3" for c n :: nat
    using that by presburger
  from this [OF grown_cap_ok(2) [OF assms]] have "live_count (olds t) \<le> 2 ^ k"
    unfolding k .
  then obtain u where
    "copy_loop (\<lambda>s. \<not> blank s) put (olds t) (fresh (2 ^ k)) = Some u" "tab_ok u" "length (slots_of u) = 2 ^ k"
    "entries (slots_of u) = entries (olds t)" "cnt_of u = live_count (olds t)"
    using copy_fresh [OF good_olds(1) [OF assms]] by blast
  then show thesis
    using that [of u] grown_cap_ok(2) [OF assms] k by simp
qed

text \<open>Adding an entry with a new key, and removing one.\<close>

lemma cow_insert:
  assumes t: "good_opt t" and s: "\<not> blank s" and new: "\<forall>e \<in> entries (olds t). key e \<noteq> key s"
  obtains u v where
    "copy_loop (\<lambda>s. \<not> blank s) put (olds t) (fresh (grown_cap init (length (olds t)) (live_count (olds t)))) = Some u"
    "put s u = Some v" "good v" "entries (slots_of v) = insert s (entries (olds t))"
proof -
  obtain u where u: "copy_loop (\<lambda>s. \<not> blank s) put (olds t) (fresh (grown_cap init (length (olds t)) (live_count (olds t)))) = Some u"
    "tab_ok u" "entries (slots_of u) = entries (olds t)" "(cnt_of u + 1) * 4 < length (slots_of u) * 3"
    using cow_copy [OF t] by blast
  from put_ok [OF u(2), of s] s new u(3,4) obtain v where
    "put s u = Some v" "tab_ok v" "length (slots_of v) = length (slots_of u)"
    "entries (slots_of v) = insert s (entries (slots_of u))" "cnt_of v = cnt_of u + 1"
    by auto
  then show thesis
    using that [OF u(1)] u(3,4) by (simp add: good_def)
qed

lemma cow_remove:
  assumes t: "good t"
  obtains u where
    "copy_loop (\<lambda>s. \<not> blank s) put (skip_first (\<lambda>s. \<not> blank s \<and> key s = x) (slots_of t)) (fresh (length (slots_of t))) = Some u"
    "good u" "entries (slots_of u) = {s \<in> entries (slots_of t). key s \<noteq> x}"
proof -
  let ?ss = "skip_first (\<lambda>s. \<not> blank s \<and> key s = x) (slots_of t)"
  have w: "wf (slots_of t)" and c: "live_count (slots_of t) * 4 < length (slots_of t) * 3"
    using t by (auto simp: good_def tab_ok_def)
  obtain k where k: "length (slots_of t) = 2 ^ k"
    using wfD(1) [OF w] ..
  note f = skip_first_live [OF distinct_keys [OF w], of x]
  have d: "distinct (map key (filter (\<lambda>s. \<not> blank s) ?ss))"
    unfolding f by (rule distinct_map_filter [OF distinct_keys [OF w]])
  have l: "live_count ?ss \<le> live_count (slots_of t)"
    unfolding live_count_def f by (rule length_filter_le)
  have e: "entries ?ss = {s \<in> entries (slots_of t). key s \<noteq> x}"
    using arg_cong [OF f, of set] by (auto simp: entries_def)
  have "live_count ?ss \<le> length (slots_of t)"
    using l c by presburger
  then have "live_count ?ss \<le> 2 ^ k"
    unfolding k .
  from copy_fresh [OF d this] obtain u where
    "copy_loop (\<lambda>s. \<not> blank s) put ?ss (fresh (2 ^ k)) = Some u" "tab_ok u" "length (slots_of u) = 2 ^ k"
    "entries (slots_of u) = entries ?ss" "cnt_of u = live_count ?ss"
    by blast
  then show thesis
    using that [of u] l c k e by (simp add: good_def)
qed

end

end
