(* ===== verification/Net_Tables.thy ===== *)
theory Net_Tables
  imports Probe_Table
begin

text \<open>
  Two tables of the network stack, both interpretations of \<open>cow_table\<close>: the UDP ports in use (\<^verbatim>\<open>net/socket.c\<close>) and the
  cache of neighbours (\<^verbatim>\<open>net/arp.c\<close>). A table is copied at every change, under the writer's lock, and readers
  use the published copy, so each operation is one step. A socket is a number, and the allocations that can fail
  are arguments. The global pointer to the table is the argument and result \<open>tbl\<close>.
\<close>

section \<open>UDP ports\<close>

record udp_sock_entry =
  ue_port :: u16
  ue_sock :: "nat option"

record udp_table =
  ut_slots :: "udp_sock_entry list"
  ut_cnt :: nat

abbreviation (input) UDP_HT_INIT_CAP :: nat where "UDP_HT_INIT_CAP \<equiv> 32"
abbreviation (input) EADDRINUSE :: errno where "EADDRINUSE \<equiv> 98"

definition udp_hash :: "u16 \<Rightarrow> nat \<Rightarrow> nat" where
  "udp_hash port cap = knuth_hash (ucast port) cap"

definition udp_table_alloc :: "nat \<Rightarrow> udp_table" where
  "udp_table_alloc cap = \<lparr>ut_slots = replicate cap \<lparr>ue_port = 0, ue_sock = None\<rparr>, ut_cnt = 0\<rparr>"

definition udp_table_raw_insert :: "u16 \<Rightarrow> nat option \<Rightarrow> udp_table \<Rightarrow> udp_table option" where
  "udp_table_raw_insert port s t =
     do {
       i \<leftarrow> free_loop (\<lambda>e. ue_port e = 0) (ut_slots t) (udp_hash port (length (ut_slots t)));
       Some (t\<lparr>ut_slots := (ut_slots t)[i := \<lparr>ue_port = port, ue_sock = s\<rparr>], ut_cnt := ut_cnt t + 1\<rparr>)
     }"

definition udp_find_index :: "u16 \<Rightarrow> udp_sock_entry list \<Rightarrow> nat option" where
  "udp_find_index port slots =
     find_loop (\<lambda>e. ue_port e = 0) (\<lambda>e. ue_port e = port) slots (length slots) (udp_hash port (length slots))"

definition udp_copy :: "udp_sock_entry list \<Rightarrow> udp_table \<Rightarrow> udp_table option" where
  "udp_copy = copy_loop (\<lambda>e. ue_port e \<noteq> 0) (\<lambda>e. udp_table_raw_insert (ue_port e) (ue_sock e))"

definition udp_table_register :: "bool \<Rightarrow> u16 \<Rightarrow> nat \<Rightarrow> udp_table option \<Rightarrow> (unit result \<times> udp_table option) option" where
  "udp_table_register ok port s tbl =
     (let old = (case tbl of None \<Rightarrow> [] | Some t \<Rightarrow> ut_slots t);
          old_cnt = (case tbl of None \<Rightarrow> 0 | Some t \<Rightarrow> ut_cnt t)
      in if tbl \<noteq> None \<and> udp_find_index port old \<noteq> None then Some (Inl EADDRINUSE, tbl)
         else if \<not> ok then Some (Inl ENOMEM, tbl)
         else
           do {
             neu \<leftarrow> udp_copy old (udp_table_alloc (grown_cap UDP_HT_INIT_CAP (length old) old_cnt));
             neu' \<leftarrow> udp_table_raw_insert port (Some s) neu;
             Some (Inr (), Some neu')
           })"

definition udp_table_remove :: "bool \<Rightarrow> u16 \<Rightarrow> udp_table option \<Rightarrow> udp_table option option" where
  "udp_table_remove ok port tbl =
     (case tbl of
        None \<Rightarrow> Some None
      | Some t \<Rightarrow>
          if \<not> ok then Some tbl
          else map_option Some (udp_copy (skip_first (\<lambda>e. ue_port e \<noteq> 0 \<and> ue_port e = port) (ut_slots t))
                 (udp_table_alloc (length (ut_slots t)))))"

definition udp_table_find :: "u16 \<Rightarrow> udp_table option \<Rightarrow> nat option" where
  "udp_table_find port tbl =
     (case tbl of
        None \<Rightarrow> None
      | Some t \<Rightarrow> (case udp_find_index port (ut_slots t) of None \<Rightarrow> None | Some i \<Rightarrow> ue_sock (ut_slots t ! i)))"

subsection \<open>Laws\<close>

lemma knuth_hash_less: "knuth_hash x (2 ^ k) < 2 ^ k"
  unfolding knuth_hash_def by (rule masked_less)

lemma udp_raw_insert_slot:
  "free_loop (\<lambda>e. ue_port e = 0) (ut_slots t) (udp_hash port (length (ut_slots t))) = Some i \<Longrightarrow>
   udp_table_raw_insert port s t =
     Some (t\<lparr>ut_slots := (ut_slots t)[i := \<lparr>ue_port = port, ue_sock = s\<rparr>], ut_cnt := ut_cnt t + 1\<rparr>)"
  by (simp add: udp_table_raw_insert_def)

lemma udp_entry_eta [simp]: "\<lparr>ue_port = ue_port e, ue_sock = ue_sock e\<rparr> = e"
  by (cases e) simp

interpretation udp: cow_table "\<lambda>e. ue_port e = 0" ue_port udp_hash ut_slots ut_cnt
  "\<lambda>e. udp_table_raw_insert (ue_port e) (ue_sock e)" udp_table_alloc "\<lparr>ue_port = 0, ue_sock = None\<rparr>" 32
proof unfold_locales
  show "\<exists>k. (32::nat) = 2 ^ k"
    by (rule exI [of _ 5]) simp
qed (auto simp: udp_hash_def knuth_hash_less udp_raw_insert_slot udp_table_alloc_def)

text \<open>What the table promises: a finite map from ports to sockets. An entry always names a socket.\<close>

definition udp_ok :: "udp_table option \<Rightarrow> bool" where
  "udp_ok tbl \<longleftrightarrow> udp.good_opt tbl \<and> (\<forall>e \<in> udp.entries (udp.olds tbl). ue_sock e \<noteq> None)"

lemma udp_find_key: "port \<noteq> 0 \<Longrightarrow> udp_find_index port slots = udp.find_key slots port"
  unfolding udp_find_index_def udp.find_key_def by (rule arg_cong [where f = "\<lambda>h. find_loop _ h _ _ _"]) auto

lemma udp_find_map: "port \<noteq> 0 \<Longrightarrow> udp_table_find port tbl = (udp.tmap (udp.olds tbl) port \<bind> ue_sock)"
  by (auto simp: udp_table_find_def udp_find_key udp.tmap_def udp.olds_def udp.find_key_def udp.fresh_ok split: option.splits)

lemma udp_register_spec:
  assumes "udp_ok tbl" and "port \<noteq> 0"
  obtains r tbl' where "udp_table_register ok port s tbl = Some (r, tbl')" "udp_ok tbl'"
    "r = (if udp_table_find port tbl \<noteq> None then Inl EADDRINUSE else if ok then Inr () else Inl ENOMEM)"
    "\<And>p. p \<noteq> 0 \<Longrightarrow> udp_table_find p tbl' = (if r = Inr () \<and> p = port then Some s else udp_table_find p tbl)"
proof -
  have g: "udp.good_opt tbl" and ss: "\<forall>e \<in> udp.entries (udp.olds tbl). ue_sock e \<noteq> None"
    using assms(1) by (auto simp: udp_ok_def)
  have idx: "udp_find_index port (udp.olds tbl) = None \<longleftrightarrow> udp.tmap (udp.olds tbl) port = None"
    by (simp add: udp_find_key [OF assms(2)] udp.tmap_def)
  have dup: "udp_table_find port tbl \<noteq> None \<longleftrightarrow> udp_find_index port (udp.olds tbl) \<noteq> None"
    unfolding udp_find_map [OF assms(2)] idx using udp.olds_tmap [OF g, of port] ss
    by (cases "udp.tmap (udp.olds tbl) port") auto
  then have dup': "tbl \<noteq> None \<and> udp_find_index port (udp.olds tbl) \<noteq> None \<longleftrightarrow> udp_table_find port tbl \<noteq> None"
    by (cases tbl) (simp_all add: udp_table_find_def)
  note cnt = udp.good_olds(2) [OF g]
  have old: "(case tbl of None \<Rightarrow> [] | Some t \<Rightarrow> ut_slots t) = udp.olds tbl"
    by (simp add: udp.olds_def)
  show thesis
  proof (cases "udp_table_find port tbl \<noteq> None \<or> \<not> ok")
    case True
    then show thesis
      using that [of "if udp_table_find port tbl \<noteq> None then Inl EADDRINUSE else Inl ENOMEM" tbl] assms(1)
      unfolding udp_table_register_def old Let_def dup' by auto
  next
    case False
    let ?e = "\<lparr>ue_port = port, ue_sock = Some s\<rparr>"
    have new: "\<forall>e \<in> udp.entries (udp.olds tbl). ue_port e \<noteq> port"
      using False dup idx udp.olds_tmap_None [OF g, of port] by blast
    obtain u v where uv: "udp_copy (udp.olds tbl) (udp_table_alloc (grown_cap 32 (length (udp.olds tbl)) (udp.live_count (udp.olds tbl)))) = Some u"
      "udp_table_raw_insert port (Some s) u = Some v" "udp.good v" "udp.entries (ut_slots v) = insert ?e (udp.entries (udp.olds tbl))"
      using udp.cow_insert [OF g, of ?e] new assms(2) by (auto simp: udp_copy_def)
    have v: "udp.wf (ut_slots v)"
      using uv(3) by (simp add: udp.good_def udp.tab_ok_def)
    have m: "udp.tmap (ut_slots v) = (udp.tmap (udp.olds tbl))(port \<mapsto> ?e)"
      using udp.olds_tmap_insert [OF g v uv(4)] new by simp
    have "udp_table_register ok port s tbl = Some (Inr (), Some v)"
      using False uv(1,2) unfolding udp_table_register_def old cnt Let_def dup' by auto
    moreover have "udp_ok (Some v)"
      using uv(3,4) ss by (auto simp: udp_ok_def udp.good_opt_def udp.olds_def)
    moreover have "udp_table_find p (Some v) = (if p = port then Some s else udp_table_find p tbl)" if "p \<noteq> 0" for p
      unfolding udp_find_map [OF that] using m by (simp add: udp.olds_def)
    ultimately show thesis
      using that [of "Inr ()" "Some v"] False by simp
  qed
qed

lemma udp_remove_spec:
  assumes "udp_ok tbl"
  obtains tbl' where "udp_table_remove ok port tbl = Some tbl'" "udp_ok tbl'"
    "\<And>p. p \<noteq> 0 \<Longrightarrow> udp_table_find p tbl' = (if ok \<and> p = port then None else udp_table_find p tbl)"
proof (cases tbl)
  case None
  then show thesis
    using that [of None] assms by (simp add: udp_table_remove_def udp_table_find_def)
next
  case (Some t)
  have g: "udp.good t" and ss: "\<forall>e \<in> udp.entries (ut_slots t). ue_sock e \<noteq> None"
    using assms Some by (auto simp: udp_ok_def udp.good_opt_def udp.olds_def)
  show thesis
  proof (cases ok)
    case True
    obtain u where u: "udp_copy (skip_first (\<lambda>e. ue_port e \<noteq> 0 \<and> ue_port e = port) (ut_slots t)) (udp_table_alloc (length (ut_slots t))) = Some u"
      "udp.good u" "udp.entries (ut_slots u) = {e \<in> udp.entries (ut_slots t). ue_port e \<noteq> port}"
      using udp.cow_remove [OF g, of port] unfolding udp_copy_def by blast
    have "udp.wf (ut_slots t)" "udp.wf (ut_slots u)"
      using g u(2) by (auto simp: udp.good_def udp.tab_ok_def)
    from udp.tmap_delete [OF this u(3)] have "udp_table_find p (Some u) = (if p = port then None else udp_table_find p tbl)" if "p \<noteq> 0" for p
      unfolding udp_find_map [OF that] by (simp add: udp.olds_def Some)
    then show thesis
      using that [of "Some u"] u ss True Some by (simp add: udp_table_remove_def udp_ok_def udp.good_opt_def udp.olds_def)
  next
    case False
    then show thesis
      using that [of tbl] assms Some by (simp add: udp_table_remove_def)
  qed
qed

section \<open>Neighbours\<close>

record arp_entry =
  ae_ip :: u32
  ae_mac :: "u8 list"

record arp_table =
  art_slots :: "arp_entry list"
  art_cnt :: nat

abbreviation (input) ARP_HT_INIT_CAP :: nat where "ARP_HT_INIT_CAP \<equiv> 32"

definition arp_hash :: "u32 \<Rightarrow> nat \<Rightarrow> nat" where
  "arp_hash ip cap = knuth_hash ip cap"

definition arp_table_alloc :: "nat \<Rightarrow> arp_table" where
  "arp_table_alloc cap = \<lparr>art_slots = replicate cap \<lparr>ae_ip = 0, ae_mac = replicate 6 0\<rparr>, art_cnt = 0\<rparr>"

definition arp_table_raw_insert :: "u32 \<Rightarrow> u8 list \<Rightarrow> arp_table \<Rightarrow> arp_table option" where
  "arp_table_raw_insert ip mac t =
     do {
       i \<leftarrow> free_loop (\<lambda>e. ae_ip e = 0 \<or> ae_ip e = ip) (art_slots t) (arp_hash ip (length (art_slots t)));
       Some (if ae_ip (art_slots t ! i) = 0
             then t\<lparr>art_slots := (art_slots t)[i := \<lparr>ae_ip = ip, ae_mac = mac\<rparr>], art_cnt := art_cnt t + 1\<rparr>
             else t\<lparr>art_slots := (art_slots t)[i := (art_slots t ! i)\<lparr>ae_mac := mac\<rparr>]\<rparr>)
     }"

definition cache_insert_locked :: "bool \<Rightarrow> u32 \<Rightarrow> u8 list \<Rightarrow> arp_table option \<Rightarrow> arp_table option option" where
  "cache_insert_locked ok ip mac tbl =
     (let old = (case tbl of None \<Rightarrow> [] | Some t \<Rightarrow> art_slots t);
          old_cnt = (case tbl of None \<Rightarrow> 0 | Some t \<Rightarrow> art_cnt t)
      in if \<not> ok then Some tbl
         else
           do {
             neu \<leftarrow> copy_loop (\<lambda>e. ae_ip e \<noteq> 0) (\<lambda>e. arp_table_raw_insert (ae_ip e) (ae_mac e)) old
               (arp_table_alloc (grown_cap ARP_HT_INIT_CAP (length old) old_cnt));
             neu' \<leftarrow> arp_table_raw_insert ip mac neu;
             Some (Some neu')
           })"

definition cache_insert :: "bool \<Rightarrow> u32 \<Rightarrow> u8 list \<Rightarrow> arp_table option \<Rightarrow> arp_table option option" where
  "cache_insert ok ip mac tbl = (if ip = 0 then Some tbl else cache_insert_locked ok ip mac tbl)"

text \<open>The search of \<^verbatim>\<open>arp_lookup\<close>.\<close>

definition arp_find :: "u32 \<Rightarrow> arp_table option \<Rightarrow> u8 list option" where
  "arp_find ip tbl =
     (case tbl of
        None \<Rightarrow> None
      | Some t \<Rightarrow> map_option (\<lambda>i. ae_mac (art_slots t ! i))
          (find_loop (\<lambda>e. ae_ip e = 0) (\<lambda>e. ae_ip e = ip) (art_slots t) (length (art_slots t))
             (arp_hash ip (length (art_slots t)))))"

subsection \<open>Laws\<close>

lemma arp_entry_eta [simp]: "\<lparr>ae_ip = ae_ip e, ae_mac = ae_mac e\<rparr> = e"
  by (cases e) simp

interpretation arp: open_addressing "\<lambda>e. ae_ip e = 0" "\<lambda>e. ae_ip e \<noteq> 0" ae_ip arp_hash
  by unfold_locales (auto simp: arp_hash_def knuth_hash_less)

lemma arp_put:
  assumes w: "arp.wf (art_slots t)" and new: "\<forall>e \<in> arp.entries (art_slots t). ae_ip e \<noteq> ae_ip s" and s: "ae_ip s \<noteq> 0"
    and j: "free_loop (\<lambda>e. ae_ip e = 0) (art_slots t) (arp_hash (ae_ip s) (length (art_slots t))) = Some j"
  shows "arp_table_raw_insert (ae_ip s) (ae_mac s) t = Some (t\<lparr>art_slots := (art_slots t)[j := s], art_cnt := art_cnt t + 1\<rparr>)"
proof -
  obtain k where k: "length (art_slots t) = 2 ^ k"
    using arp.wfD(1) [OF w] ..
  have iff: "ae_ip e = 0 \<longleftrightarrow> ae_ip e = 0 \<or> ae_ip e = ae_ip s" if "e \<in> set (art_slots t)" for e
    using new that s by (auto simp: arp.entries_def)
  have less: "arp_hash (ae_ip s) (length (art_slots t)) < length (art_slots t)"
    unfolding k by (rule arp.hash_less)
  show ?thesis
    using arp.free_loop_cong [OF k iff j less] free_loop_stop [OF j] by (simp add: arp_table_raw_insert_def)
qed

interpretation art: cow_table "\<lambda>e. ae_ip e = 0" ae_ip arp_hash art_slots art_cnt
  "\<lambda>e. arp_table_raw_insert (ae_ip e) (ae_mac e)" arp_table_alloc "\<lparr>ae_ip = 0, ae_mac = replicate 6 0\<rparr>" 32
proof unfold_locales
  show "\<exists>k. (32::nat) = 2 ^ k"
    by (rule exI [of _ 5]) simp
qed (auto simp: arp_put arp_table_alloc_def)

definition arp_ok :: "arp_table option \<Rightarrow> bool" where
  "arp_ok tbl \<longleftrightarrow> art.good_opt tbl"

lemma arp_find_map: "ip \<noteq> 0 \<Longrightarrow> arp_find ip tbl = map_option ae_mac (arp.tmap (art.olds tbl) ip)"
proof -
  assume "ip \<noteq> 0"
  then have "find_loop (\<lambda>e. ae_ip e = 0) (\<lambda>e. ae_ip e = ip) sl n i = find_loop (\<lambda>e. ae_ip e = 0) (\<lambda>e. ae_ip e \<noteq> 0 \<and> ae_ip e = ip) sl n i" for sl :: "arp_entry list" and n i
    by (intro arg_cong [where f = "\<lambda>h. find_loop _ h _ _ _"]) auto
  then show ?thesis
    by (cases tbl) (simp_all add: arp_find_def arp.tmap_def art.olds_def arp.find_key_def option.map_comp comp_def)
qed

lemma arp_overwrite:
  assumes "art.tab_ok u" and "e \<in> arp.entries (art_slots u)" and "ae_ip e = ip"
  obtains v where "arp_table_raw_insert ip mac u = Some v" "art.tab_ok v" "length (art_slots v) = length (art_slots u)"
    "arp.entries (art_slots v) = insert \<lparr>ae_ip = ip, ae_mac = mac\<rparr> (arp.entries (art_slots u) - {e})" "art_cnt v = art_cnt u"
proof -
  have w: "arp.wf (art_slots u)"
    using assms(1) by (simp add: art.tab_ok_def)
  obtain j where j: "j < length (art_slots u)" "art_slots u ! j = e" "ae_ip e \<noteq> 0"
    using assms(2) by (auto simp: arp.entries_def in_set_conv_nth)
  let ?e = "\<lparr>ae_ip = ip, ae_mac = mac\<rparr>"
  let ?v = "u\<lparr>art_slots := (art_slots u)[j := ?e]\<rparr>"
  have "e\<lparr>ae_mac := mac\<rparr> = ?e"
    using assms(3) by (cases e) simp
  moreover have "free_loop (\<lambda>e. ae_ip e = 0 \<or> ae_ip e = ip) (art_slots u) (arp_hash ip (length (art_slots u))) = Some j"
    using arp.free_loop_hit [OF w j(1)] j assms(3) by simp
  ultimately have "arp_table_raw_insert ip mac u = Some ?v"
    using j by (simp add: arp_table_raw_insert_def)
  moreover have "arp.wf ((art_slots u)[j := ?e])" "arp.entries ((art_slots u)[j := ?e]) = insert ?e (arp.entries (art_slots u) - {e})"
    using arp.replace_wf [OF w j(1), of ?e] j assms(3) by auto
  moreover have "arp.live_count ((art_slots u)[j := ?e]) = arp.live_count (art_slots u)"
    using arp.live_count_update [OF j(1), of ?e] j assms(3) by simp
  ultimately show thesis
    using that [of ?v] assms(1) by (simp add: art.tab_ok_def)
qed

lemma arp_insert_spec:
  assumes "arp_ok tbl" and "ip \<noteq> 0"
  obtains tbl' where "cache_insert ok ip mac tbl = Some tbl'" "arp_ok tbl'"
    "\<And>i. i \<noteq> 0 \<Longrightarrow> arp_find i tbl' = (if ok \<and> i = ip then Some mac else arp_find i tbl)"
proof (cases ok)
  case True
  let ?e = "\<lparr>ae_ip = ip, ae_mac = mac\<rparr>"
  have g: "art.good_opt tbl"
    using assms(1) by (simp add: arp_ok_def)
  obtain u where u: "copy_loop (\<lambda>e. ae_ip e \<noteq> 0) (\<lambda>e. arp_table_raw_insert (ae_ip e) (ae_mac e)) (art.olds tbl)
      (arp_table_alloc (grown_cap 32 (length (art.olds tbl)) (arp.live_count (art.olds tbl)))) = Some u"
    "art.tab_ok u" "arp.entries (art_slots u) = arp.entries (art.olds tbl)" "(art_cnt u + 1) * 4 < length (art_slots u) * 3"
    using art.cow_copy [OF g] by blast
  have wu: "arp.wf (art_slots u)"
    using u(2) by (simp add: art.tab_ok_def)
  have m0: "arp.tmap (art_slots u) = arp.tmap (art.olds tbl)"
    by (rule arp.tmap_eqI [OF wu]) (simp add: u(3) art.olds_tmap [OF g])
  obtain v where v: "arp_table_raw_insert ip mac u = Some v" "art.tab_ok v" "art.good v"
    "arp.tmap (art_slots v) = (arp.tmap (art.olds tbl))(ip \<mapsto> ?e)"
  proof (cases "arp.tmap (art.olds tbl) ip")
    case None
    have new: "\<forall>e \<in> arp.entries (art_slots u). ae_ip e \<noteq> ae_ip ?e"
      using None art.olds_tmap_None [OF g] by (simp add: u(3))
    obtain v where v: "arp_table_raw_insert (ae_ip ?e) (ae_mac ?e) u = Some v" "art.tab_ok v"
      "length (art_slots v) = length (art_slots u)" "arp.entries (art_slots v) = insert ?e (arp.entries (art_slots u))" "art_cnt v = art_cnt u + 1"
      using art.put_ok [OF u(2) _ new] assms(2) u(4) by auto
    have "arp.wf (art_slots v)"
      using v(2) by (simp add: art.tab_ok_def)
    from arp.tmap_insert [OF wu this v(4) new] show thesis
      using that [of v] v u(4) m0 by (simp add: art.good_def)
  next
    case (Some e)
    then have e: "e \<in> arp.entries (art_slots u)" "ae_ip e = ip"
      using art.olds_tmap [OF g] by (auto simp: u(3))
    obtain v where v: "arp_table_raw_insert ip mac u = Some v" "art.tab_ok v" "length (art_slots v) = length (art_slots u)"
      "arp.entries (art_slots v) = insert ?e (arp.entries (art_slots u) - {e})" "art_cnt v = art_cnt u"
      using arp_overwrite [OF u(2) e] by blast
    have "arp.wf (art_slots v)"
      using v(2) by (simp add: art.tab_ok_def)
    from arp.tmap_replace [OF wu this v(4) e(1)] show thesis
      using that [of v] v u(4) m0 e(2) by (simp add: art.good_def)
  qed
  have "cache_insert ok ip mac tbl = Some (Some v)"
    using True assms(2) u(1) v(1) art.good_olds(2) [OF g] by (simp add: cache_insert_def cache_insert_locked_def art.olds_def Let_def)
  moreover have "arp_find i (Some v) = (if i = ip then Some mac else arp_find i tbl)" if "i \<noteq> 0" for i
    unfolding arp_find_map [OF that] using v(4) by (simp add: art.olds_def)
  ultimately show thesis
    using that [of "Some v"] v(3) True by (simp add: arp_ok_def art.good_opt_def)
next
  case False
  then show thesis
    using that [of tbl] assms by (simp add: cache_insert_def cache_insert_locked_def)
qed

end
