(* ===== verification/Net_Packets.thy ===== *)
theory Net_Packets
  imports Net_Tables
begin

text \<open>
  The receive and transmit paths of the network stack below TCP: packet buffers (\<^verbatim>\<open>net/skbuff.h\<close>), Ethernet, ARP, IPv4,
  ICMP echo, UDP and the datagram sockets (\<^verbatim>\<open>net/eth.c\<close>, \<^verbatim>\<open>arp.c\<close>, \<^verbatim>\<open>ipv4.c\<close>, \<^verbatim>\<open>icmp.c\<close>, \<^verbatim>\<open>udp.c\<close>, \<^verbatim>\<open>socket.c\<close>). Packets
  are lists of bytes, with the headers laid out as the packed structs are. A field the source keeps
  in network byte order is stored as the little-endian word that it is in memory. The device, the time and the
  success of an allocation are arguments or fields of the state; TCP is an argument. A result \<open>None\<close> of a send
  operation is a write through a null pointer.
\<close>

section \<open>Bytes\<close>

definition hton16 :: "u16 \<Rightarrow> u16" where
  "hton16 v = drop_bit 8 v OR push_bit 8 v"

definition bytes16 :: "u16 \<Rightarrow> u8 list" where
  "bytes16 v = [ucast v, ucast (drop_bit 8 v)]"

definition bytes32 :: "u32 \<Rightarrow> u8 list" where
  "bytes32 v = [ucast v, ucast (drop_bit 8 v), ucast (drop_bit 16 v), ucast (drop_bit 24 v)]"

definition load16 :: "u8 list \<Rightarrow> nat \<Rightarrow> u16" where
  "load16 d i = ucast (d ! i) OR push_bit 8 (ucast (d ! (i + 1)))"

definition load32 :: "u8 list \<Rightarrow> nat \<Rightarrow> u32" where
  "load32 d i = ucast (d ! i) OR push_bit 8 (ucast (d ! (i + 1))) OR push_bit 16 (ucast (d ! (i + 2))) OR
     push_bit 24 (ucast (d ! (i + 3)))"

section \<open>Packet buffers\<close>

text \<open>The bytes between \<^verbatim>\<open>data\<close> and \<^verbatim>\<open>tail\<close>, the room before and after them, and the stamps of the lower layers.\<close>

record skb =
  sk_data :: "u8 list"
  sk_head :: nat
  sk_room :: nat
  sk_src_ip :: u32
  sk_dst_ip :: u32
  sk_src_port :: u16

definition skb_alloc :: "nat \<Rightarrow> skb" where
  "skb_alloc data_len = \<lparr>sk_data = [], sk_head = 128, sk_room = data_len, sk_src_ip = 0, sk_dst_ip = 0, sk_src_port = 0\<rparr>"

definition skb_reserve :: "nat \<Rightarrow> skb \<Rightarrow> skb" where
  "skb_reserve n s = s\<lparr>sk_data := [], sk_head := sk_head s + n, sk_room := sk_room s - n\<rparr>"

text \<open>Prepending and appending come with the bytes that the caller writes there; \<open>None\<close> is the null pointer.\<close>

definition skb_push :: "u8 list \<Rightarrow> skb \<Rightarrow> skb option" where
  "skb_push hdr s =
     (if sk_head s < length hdr then None
      else Some (s\<lparr>sk_data := hdr @ sk_data s, sk_head := sk_head s - length hdr\<rparr>))"

definition skb_put :: "u8 list \<Rightarrow> skb \<Rightarrow> skb option" where
  "skb_put bs s =
     (if length bs > sk_room s then None
      else Some (s\<lparr>sk_data := sk_data s @ bs, sk_room := sk_room s - length bs\<rparr>))"

definition skb_pull :: "nat \<Rightarrow> skb \<Rightarrow> skb" where
  "skb_pull n s =
     (if length (sk_data s) < n then s else s\<lparr>sk_data := drop n (sk_data s), sk_head := sk_head s + n\<rparr>)"

section \<open>The Internet checksum\<close>

fun add_words :: "u32 \<Rightarrow> u8 list \<Rightarrow> u32" where
  "add_words acc (a # b # r) = add_words (acc + ucast (load16 [a, b] 0)) r"
| "add_words acc [a] = acc + ucast a"
| "add_words acc [] = acc"

function fold_carry :: "u32 \<Rightarrow> u32" where
  "fold_carry acc = (if drop_bit 16 acc = 0 then acc else fold_carry ((acc AND 0xFFFF) + drop_bit 16 acc))"
  by auto

lemma fold_carry_less:
  fixes s :: u32
  assumes "drop_bit 16 s \<noteq> 0"
  shows "(s AND 0xFFFF) + drop_bit 16 s < s"
proof -
  have "s AND 0xFFFF = take_bit 16 s"
    by (simp add: take_bit_eq_mask mask_eq_exp_minus_1)
  then have lo: "unat (s AND 0xFFFF) = unat s mod 65536"
    by (simp add: take_bit_eq_mod unat_mod_distrib)
  have hi: "unat (drop_bit 16 s) = unat s div 65536"
    by (simp add: drop_bit_eq_div unat_div_distrib)
  have "unat s div 65536 \<noteq> 0"
    using assms hi by (metis unat_eq_zero)
  moreover have "unat s = unat s div 65536 * 65536 + unat s mod 65536"
    by simp
  ultimately have "unat s mod 65536 + unat s div 65536 < unat s"
    by linarith
  moreover have "unat s < 2 ^ 32"
    using unat_bound [of s] by simp
  ultimately show ?thesis
    unfolding word_less_nat_alt by (simp add: unat_word_ariths lo hi)
qed

termination fold_carry
  by (relation "measure unat") (use fold_carry_less in \<open>auto simp: word_less_nat_alt\<close>)

declare fold_carry.simps [simp del]

definition inet_checksum :: "u8 list \<Rightarrow> nat \<Rightarrow> u16" where
  "inet_checksum data len = NOT (ucast (fold_carry (add_words 0 (take len data))))"

definition inet_pseudo_partial :: "u32 \<Rightarrow> u32 \<Rightarrow> u8 \<Rightarrow> u16 \<Rightarrow> u32" where
  "inet_pseudo_partial src dst proto payload_len =
     (drop_bit 16 src AND 0xFFFF) + (src AND 0xFFFF) + (drop_bit 16 dst AND 0xFFFF) + (dst AND 0xFFFF) +
     ucast (hton16 (ucast proto)) + ucast (hton16 payload_len)"

definition udp_checksum :: "u32 \<Rightarrow> u32 \<Rightarrow> u8 list \<Rightarrow> u16 \<Rightarrow> u16" where
  "udp_checksum src dst data udplen =
     NOT (ucast (fold_carry (add_words (inet_pseudo_partial src dst 17 udplen) (take (unat udplen) data))))"

section \<open>State\<close>

text \<open>A datagram socket with its queue of received packets.\<close>

record usock =
  us_bound :: bool
  us_broadcast :: bool
  us_port :: u16
  us_peer_ip :: u32
  us_peer_port :: u16
  us_rx :: "skb list"

text \<open>Configuration, tables and sockets of the stack (a freed socket is \<open>None\<close>), the frames handed to the device, and
  whether allocations and the device succeed.\<close>

record net =
  our_ip :: u32
  gw_ip :: u32
  net_mask :: u32
  bcast_ip :: u32
  our_mac :: "u8 list"
  ip_id :: u16
  arp_tbl :: "arp_table option"
  udp_tbl :: "udp_table option"
  usocks :: "nat \<Rightarrow> usock option"
  tx :: "u8 list list"
  mem_ok :: bool
  nic_ok :: bool

definition net_set_config :: "u32 \<Rightarrow> u32 \<Rightarrow> u32 \<Rightarrow> net \<Rightarrow> net" where
  "net_set_config ip gw m st = st\<lparr>our_ip := ip, gw_ip := gw, net_mask := m, bcast_ip := (ip AND m) OR NOT m\<rparr>"

section \<open>Ethernet and ARP\<close>

abbreviation (input) ETHERTYPE_IPV4 :: u16 where "ETHERTYPE_IPV4 \<equiv> 0x0800"
abbreviation (input) ETHERTYPE_ARP :: u16 where "ETHERTYPE_ARP \<equiv> 0x0806"
abbreviation (input) eth_broadcast :: "u8 list" where "eth_broadcast \<equiv> replicate 6 0xFF"

abbreviation (input) ETH_MAX_FRAME :: nat where "ETH_MAX_FRAME \<equiv> 1514"

text \<open>The driver: \<open>nic_ok\<close> is that the device is there, has a descriptor free and takes the frame in time.\<close>

definition virtio_net_tx :: "u8 list \<Rightarrow> u16 \<Rightarrow> net \<Rightarrow> bool \<times> net" where
  "virtio_net_tx data len st =
     (if \<not> nic_ok st \<or> unat len > ETH_MAX_FRAME then (False, st)
      else (True, st\<lparr>tx := tx st @ [take (unat len) data]\<rparr>))"

text \<open>Ethernet gives the driver the length as 16 bits.\<close>

definition eth_send :: "skb \<Rightarrow> u8 list \<Rightarrow> u16 \<Rightarrow> net \<Rightarrow> bool \<times> net" where
  "eth_send s dst etype st =
     (case skb_push (dst @ our_mac st @ bytes16 (hton16 etype)) s of
        None \<Rightarrow> (False, st)
      | Some s' \<Rightarrow> virtio_net_tx (sk_data s') (of_nat (length (sk_data s'))) st)"

definition arp_pkt :: "u16 \<Rightarrow> u8 list \<Rightarrow> u32 \<Rightarrow> u8 list \<Rightarrow> u32 \<Rightarrow> u8 list" where
  "arp_pkt oper sha spa tha tpa =
     bytes16 (hton16 1) @ bytes16 (hton16 0x0800) @ [6, 4] @ bytes16 (hton16 oper) @ sha @ bytes32 spa @ tha @ bytes32 tpa"

definition arp_send :: "u16 \<Rightarrow> u8 list \<Rightarrow> u32 \<Rightarrow> u8 list \<Rightarrow> net \<Rightarrow> net" where
  "arp_send oper tha tpa dst_mac st =
     (if \<not> mem_ok st then st
      else case skb_put (arp_pkt oper (our_mac st) (our_ip st) tha tpa) (skb_reserve 14 (skb_alloc (28 + 14))) of
        None \<Rightarrow> st
      | Some s \<Rightarrow> snd (eth_send s dst_mac ETHERTYPE_ARP st))"

definition arp_recv :: "skb \<Rightarrow> net \<Rightarrow> net option" where
  "arp_recv s st =
     (let d = sk_data s
      in if length d < 28 then Some st
         else if hton16 (load16 d 0) \<noteq> 1 \<or> hton16 (load16 d 2) \<noteq> 0x0800 \<or> d ! 4 \<noteq> 6 \<or> d ! 5 \<noteq> 4 then Some st
         else
           (let sha = take 6 (drop 8 d); spa = load32 d 14
            in do {
              t \<leftarrow> cache_insert (mem_ok st) spa sha (arp_tbl st);
              let st1 = st\<lparr>arp_tbl := t\<rparr>;
              Some (if hton16 (load16 d 6) = 1 \<and> load32 d 24 = our_ip st1 then arp_send 2 sha spa sha st1 else st1)
            }))"

definition arp_lookup :: "u32 \<Rightarrow> net \<Rightarrow> u8 list option \<times> net" where
  "arp_lookup ip st =
     (case arp_find ip (arp_tbl st) of
        Some mac \<Rightarrow> (Some mac, st)
      | None \<Rightarrow> (None, arp_send 1 (replicate 6 0) ip eth_broadcast st))"

definition arp_announce :: "net \<Rightarrow> net" where
  "arp_announce st = arp_send 2 eth_broadcast (our_ip st) eth_broadcast st"

section \<open>IPv4\<close>

definition ipv4_hdr :: "u16 \<Rightarrow> u16 \<Rightarrow> u8 \<Rightarrow> u16 \<Rightarrow> u32 \<Rightarrow> u32 \<Rightarrow> u8 list" where
  "ipv4_hdr total_len ident proto csum src dst =
     [0x45, 0] @ bytes16 (hton16 total_len) @ bytes16 (hton16 ident) @ bytes16 (hton16 0x4000) @ [64, proto] @
     bytes16 csum @ bytes32 src @ bytes32 dst"

definition ipv4_send_ex :: "skb \<Rightarrow> u32 \<Rightarrow> u32 \<Rightarrow> u8 \<Rightarrow> net \<Rightarrow> bool \<times> net" where
  "ipv4_send_ex s src_ip dst proto st =
     (let src = (if src_ip = 0 \<and> our_ip st \<noteq> 0 then our_ip st else src_ip);
          total = 20 + of_nat (length (sk_data s));
          csum = inet_checksum (ipv4_hdr total (ip_id st) proto 0 src dst) 20
      in case skb_push (ipv4_hdr total (ip_id st) proto csum src dst) s of
           None \<Rightarrow> (False, st)
         | Some s1 \<Rightarrow>
             (let st1 = st\<lparr>ip_id := ip_id st + 1\<rparr>
              in if dst = 0xFFFFFFFF \<or> bcast_ip st1 \<noteq> 0 \<and> dst = bcast_ip st1
                 then eth_send s1 eth_broadcast ETHERTYPE_IPV4 st1
                 else
                   (let next_hop = (if net_mask st1 \<noteq> 0 \<and> dst AND net_mask st1 \<noteq> src AND net_mask st1 then gw_ip st1 else dst)
                    in if next_hop = 0 then (False, st1)
                       else case arp_lookup next_hop st1 of
                           (None, st2) \<Rightarrow> (False, st2)
                         | (Some mac, st2) \<Rightarrow> eth_send s1 mac ETHERTYPE_IPV4 st2)))"

definition ipv4_send :: "skb \<Rightarrow> u32 \<Rightarrow> u8 \<Rightarrow> net \<Rightarrow> bool \<times> net" where
  "ipv4_send s dst proto st = ipv4_send_ex s 0 dst proto st"

text \<open>The checks of \<^verbatim>\<open>ipv4_recv\<close>: the protocol and the trimmed, stamped packet, or \<open>None\<close> if it is dropped.\<close>

definition ipv4_accept :: "net \<Rightarrow> skb \<Rightarrow> (u8 \<times> skb) option" where
  "ipv4_accept st s =
     (let d = sk_data s
      in if length d < 20 then None
         else
           (let version = drop_bit 4 (d ! 0) AND 0xF; ihl = unat ((d ! 0 AND 0xF) * 4); tot_len = unat (hton16 (load16 d 2));
                dst = load32 d 16; ff = hton16 (load16 d 6)
            in if version \<noteq> 4 \<or> ihl < 20 \<or> tot_len < ihl \<or> length d < tot_len then None
               else if inet_checksum (d[10 := 0, 11 := 0]) ihl \<noteq> load16 d 10 then None
               else if our_ip st \<noteq> 0 \<and> dst \<noteq> our_ip st \<and> dst \<noteq> 0xFFFFFFFF \<and> dst \<noteq> bcast_ip st then None
               else if ff AND 0x2000 \<noteq> 0 \<or> ff AND 0x1FFF \<noteq> 0 then None
               else Some (d ! 9, skb_pull ihl (s\<lparr>sk_data := take tot_len d, sk_src_ip := load32 d 12, sk_dst_ip := dst\<rparr>))))"

section \<open>ICMP\<close>

definition icmp_recv :: "skb \<Rightarrow> net \<Rightarrow> net" where
  "icmp_recv s st =
     (let d = sk_data s
      in if length d < 8 then st
         else if inet_checksum (d[2 := 0, 3 := 0]) (length d) \<noteq> load16 d 2 then st
         else if d ! 0 = 8 then
           (if \<not> mem_ok st then st
            else
              (let z = d[0 := 0, 2 := 0, 3 := 0];
                   c = inet_checksum z (length d)
               in case skb_put (take 2 z @ bytes16 c @ drop 4 z) (skb_reserve 20 (skb_alloc (length d + 20))) of
                    None \<Rightarrow> st
                  | Some reply \<Rightarrow> snd (ipv4_send reply (sk_src_ip s) 1 st)))
         else st)"

section \<open>UDP\<close>

abbreviation (input) UDP_RX_QUEUE_MAX :: nat where "UDP_RX_QUEUE_MAX \<equiv> 64"

text \<open>Delivery reads the socket that the table names; \<open>None\<close> is an access to a freed one.\<close>

definition socket_deliver_udp :: "u16 \<Rightarrow> skb \<Rightarrow> net \<Rightarrow> net option" where
  "socket_deliver_udp port s st =
     (case udp_table_find port (udp_tbl st) of
        None \<Rightarrow> Some st
      | Some i \<Rightarrow>
          (case usocks st i of
             None \<Rightarrow> None
           | Some u \<Rightarrow>
               if length (us_rx u) \<ge> UDP_RX_QUEUE_MAX then Some st
               else Some (st\<lparr>usocks := (usocks st)(i := Some (u\<lparr>us_rx := us_rx u @ [s]\<rparr>))\<rparr>)))"

definition udp_recv :: "skb \<Rightarrow> net \<Rightarrow> net option" where
  "udp_recv s st =
     (let d = sk_data s
      in if length d < 8 then Some st
         else
           (let dst_p = hton16 (load16 d 2); udplen = hton16 (load16 d 4)
            in if unat udplen < 8 \<or> unat udplen > length d then Some st
               else if load16 d 6 \<noteq> 0 \<and> udp_checksum (sk_src_ip s) (sk_dst_ip s) (d[6 := 0, 7 := 0]) udplen \<noteq> load16 d 6 then Some st
               else
                 (let s1 = skb_pull 8 (s\<lparr>sk_src_port := load16 d 0\<rparr>)
                  in socket_deliver_udp dst_p (s1\<lparr>sk_data := take (unat udplen - 8) (sk_data s1)\<rparr>) st)))"

definition udp_hdr :: "u16 \<Rightarrow> u16 \<Rightarrow> u16 \<Rightarrow> u16 \<Rightarrow> u8 list" where
  "udp_hdr src_port dst_port udplen csum =
     bytes16 (hton16 src_port) @ bytes16 (hton16 dst_port) @ bytes16 (hton16 udplen) @ bytes16 csum"

definition udp_send_ex :: "u32 \<Rightarrow> u32 \<Rightarrow> u16 \<Rightarrow> u16 \<Rightarrow> u8 list \<Rightarrow> u16 \<Rightarrow> net \<Rightarrow> (bool \<times> net) option" where
  "udp_send_ex src_ip dst src_port dst_port data len st =
     (let udplen = 8 + len
      in if \<not> mem_ok st then Some (False, st)
         else
           do {
             s1 \<leftarrow> skb_put (udp_hdr src_port dst_port udplen 0) (skb_reserve 20 (skb_alloc (unat udplen + 20)));
             s2 \<leftarrow> skb_put (take (unat len) data) s1;
             let eff_src = (if src_ip \<noteq> 0 then src_ip else our_ip st);
             let c = udp_checksum eff_src dst (sk_data s2) udplen;
             let csum = (if c = 0 then 0xFFFF else c);
             Some (ipv4_send_ex (s2\<lparr>sk_data := udp_hdr src_port dst_port udplen csum @ drop 8 (sk_data s2)\<rparr>) src_ip dst 17 st)
           })"

definition udp_send :: "u32 \<Rightarrow> u16 \<Rightarrow> u16 \<Rightarrow> u8 list \<Rightarrow> u16 \<Rightarrow> net \<Rightarrow> (bool \<times> net) option" where
  "udp_send dst src_port dst_port data len st = udp_send_ex 0 dst src_port dst_port data len st"

section \<open>Receiving a frame\<close>

text \<open>The state of TCP, of any type, and its receive routine are arguments.\<close>

definition ipv4_recv :: "(skb \<Rightarrow> 't \<Rightarrow> net \<Rightarrow> ('t \<times> net) option) \<Rightarrow> skb \<Rightarrow> 't \<Rightarrow> net \<Rightarrow> ('t \<times> net) option" where
  "ipv4_recv tcp s t st =
     (case ipv4_accept st s of
        None \<Rightarrow> Some (t, st)
      | Some (proto, s1) \<Rightarrow>
          if proto = 1 then Some (t, icmp_recv s1 st)
          else if proto = 6 then tcp s1 t st
          else if proto = 17 then map_option (Pair t) (udp_recv s1 st)
          else Some (t, st))"

definition eth_recv :: "(skb \<Rightarrow> 't \<Rightarrow> net \<Rightarrow> ('t \<times> net) option) \<Rightarrow> skb \<Rightarrow> 't \<Rightarrow> net \<Rightarrow> ('t \<times> net) option" where
  "eth_recv tcp s t st =
     (if length (sk_data s) < 14 then Some (t, st)
      else
        (let etype = hton16 (load16 (sk_data s) 12); s1 = skb_pull 14 s
         in if etype = ETHERTYPE_ARP then map_option (Pair t) (arp_recv s1 st)
            else if etype = ETHERTYPE_IPV4 then ipv4_recv tcp s1 t st
            else Some (t, st)))"

text \<open>A buffer for the bytes that the device reports, clamped to what a receive buffer holds, and its dispatch. Without
  memory there is no buffer, and the dispatch reads through the null pointer.\<close>

definition virtio_net_rx_poll :: "u8 list \<Rightarrow> net \<Rightarrow> skb option" where
  "virtio_net_rx_poll frame st =
     (let eth_len = (if length frame > ETH_MAX_FRAME then ETH_MAX_FRAME else length frame)
      in if \<not> mem_ok st then None
         else if eth_len > 0 then skb_put (take eth_len frame) (skb_alloc eth_len)
         else Some (skb_alloc eth_len))"

definition net_rx_frame :: "(skb \<Rightarrow> 't \<Rightarrow> net \<Rightarrow> ('t \<times> net) option) \<Rightarrow> u8 list \<Rightarrow> 't \<Rightarrow> net \<Rightarrow> ('t \<times> net) option" where
  "net_rx_frame tcp frame t st = do { s \<leftarrow> virtio_net_rx_poll frame st; eth_recv tcp s t st }"

section \<open>Datagram sockets\<close>

text \<open>The outer option of these operations is \<open>None\<close> for a fault: a freed socket, a null pointer or a loop that does
  not end.\<close>

definition upd_usock :: "nat \<Rightarrow> usock \<Rightarrow> net \<Rightarrow> net" where
  "upd_usock i u st = st\<lparr>usocks := (usocks st)(i := Some u)\<rparr>"

definition socket_open_dgram :: "nat \<Rightarrow> net \<Rightarrow> bool \<times> net" where
  "socket_open_dgram i st =
     (if \<not> mem_ok st then (False, st)
      else (True, upd_usock i \<lparr>us_bound = False, us_broadcast = False, us_port = 0, us_peer_ip = 0, us_peer_port = 0, us_rx = []\<rparr> st))"

definition socket_bind :: "nat \<Rightarrow> u16 \<Rightarrow> net \<Rightarrow> (unit result \<times> net) option" where
  "socket_bind i port st =
     do {
       u \<leftarrow> usocks st i;
       if us_bound u then Some (Inl EINVAL, st)
       else
         do {
           (r, t) \<leftarrow> udp_table_register (mem_ok st) port i (udp_tbl st);
           Some (case r of
             Inl e \<Rightarrow> (Inl e, st\<lparr>udp_tbl := t\<rparr>)
           | Inr _ \<Rightarrow> (Inr (), upd_usock i (u\<lparr>us_port := port, us_bound := True\<rparr>) (st\<lparr>udp_tbl := t\<rparr>)))
         }
     }"

text \<open>The ephemeral ports that \<^verbatim>\<open>tcp_ephemeral_port\<close> hands out, at most 64 of them, are an argument.\<close>

fun udp_auto_bind :: "u16 list \<Rightarrow> nat \<Rightarrow> net \<Rightarrow> (unit result \<times> net) option" where
  "udp_auto_bind ports i st =
     do {
       u \<leftarrow> usocks st i;
       if us_bound u \<and> us_port u \<noteq> 0 then Some (Inr (), st)
       else case ports of
           [] \<Rightarrow> Some (Inl EADDRINUSE, st)
         | p # ps \<Rightarrow>
             if p < 1024 then udp_auto_bind ps i st
             else
               do {
                 (r, t) \<leftarrow> udp_table_register (mem_ok st) p i (udp_tbl st);
                 (case r of
                    Inr _ \<Rightarrow> Some (Inr (), upd_usock i (u\<lparr>us_port := p, us_bound := True\<rparr>) (st\<lparr>udp_tbl := t\<rparr>))
                  | Inl e \<Rightarrow> if e \<noteq> EADDRINUSE then Some (Inl e, st\<lparr>udp_tbl := t\<rparr>) else udp_auto_bind ps i (st\<lparr>udp_tbl := t\<rparr>))
               }
     }"

definition is_broadcast_dst :: "u32 \<Rightarrow> net \<Rightarrow> bool" where
  "is_broadcast_dst dst st \<longleftrightarrow> dst = 0xFFFFFFFF \<or> bcast_ip st \<noteq> 0 \<and> dst = bcast_ip st"

definition socket_sendto :: "u16 list \<Rightarrow> nat \<Rightarrow> u8 list \<Rightarrow> u32 \<Rightarrow> u16 \<Rightarrow> net \<Rightarrow> (nat result \<times> net) option" where
  "socket_sendto ports i buf dst dst_port st =
     (if buf = [] then Some (Inl EINVAL, st)
      else
        do {
          u \<leftarrow> usocks st i;
          if is_broadcast_dst dst st \<and> \<not> us_broadcast u then Some (Inl EACCES, st)
          else
            do {
              (r, st1) \<leftarrow> udp_auto_bind ports i st;
              (case r of
                 Inl e \<Rightarrow> Some (Inl e, st1)
               | Inr _ \<Rightarrow>
                   do {
                     u1 \<leftarrow> usocks st1 i;
                     let st2 = upd_usock i (u1\<lparr>us_peer_ip := dst, us_peer_port := dst_port\<rparr>) st1;
                     (ok, st3) \<leftarrow> udp_send_ex (our_ip st2) dst (us_port u1) dst_port buf (of_nat (length buf)) st2;
                     Some (if ok then Inr (length buf) else Inl EIO, st3)
                   })
            }
        })"

definition socket_send :: "u16 list \<Rightarrow> nat \<Rightarrow> u8 list \<Rightarrow> net \<Rightarrow> (nat result \<times> net) option" where
  "socket_send ports i buf st =
     (if buf = [] then Some (Inl EINVAL, st)
      else
        do {
          u \<leftarrow> usocks st i;
          if us_peer_ip u = 0 \<or> us_peer_port u = 0 then Some (Inl EDESTADDRREQ, st)
          else
            do {
              (r, st1) \<leftarrow> udp_auto_bind ports i st;
              (case r of
                 Inl e \<Rightarrow> Some (Inl e, st1)
               | Inr _ \<Rightarrow>
                   do {
                     u1 \<leftarrow> usocks st1 i;
                     (ok, st2) \<leftarrow> udp_send (us_peer_ip u1) (us_port u1) (us_peer_port u1) buf (of_nat (length buf)) st1;
                     Some (if ok then Inr (length buf) else Inl EIO, st2)
                   })
            }
        })"

definition socket_connect :: "nat \<Rightarrow> u32 \<Rightarrow> u16 \<Rightarrow> net \<Rightarrow> net option" where
  "socket_connect i dst dst_port st =
     map_option (\<lambda>u. upd_usock i (u\<lparr>us_peer_ip := dst, us_peer_port := dst_port\<rparr>) st) (usocks st i)"

text \<open>Receiving without waiting: the bytes and the sender's address and port.\<close>

definition socket_recvfrom :: "nat \<Rightarrow> nat \<Rightarrow> net \<Rightarrow> ((u8 list \<times> u32 \<times> u16) result \<times> net) option" where
  "socket_recvfrom i len st =
     (if len = 0 then Some (Inl EINVAL, st)
      else
        do {
          u \<leftarrow> usocks st i;
          Some (case us_rx u of
            [] \<Rightarrow> (Inl EAGAIN, st)
          | s # ss \<Rightarrow> (Inr (take len (sk_data s), sk_src_ip s, sk_src_port s), upd_usock i (u\<lparr>us_rx := ss\<rparr>) st))
        })"

definition socket_recv :: "nat \<Rightarrow> nat \<Rightarrow> net \<Rightarrow> (u8 list result \<times> net) option" where
  "socket_recv i len st =
     (if len = 0 then Some (Inl EINVAL, st)
      else
        do {
          u \<leftarrow> usocks st i;
          Some (case us_rx u of
            [] \<Rightarrow> (Inl EAGAIN, st)
          | s # ss \<Rightarrow> (Inr (take len (sk_data s)), upd_usock i (u\<lparr>us_rx := ss\<rparr>) st))
        })"

text \<open>Options: level, name, the value if there is a pointer to it, and its length.\<close>

definition socket_setsockopt :: "nat \<Rightarrow> nat \<Rightarrow> nat \<Rightarrow> int option \<Rightarrow> nat \<Rightarrow> net \<Rightarrow> (unit result \<times> net) option" where
  "socket_setsockopt i level optname optval optlen st =
     do {
       u \<leftarrow> usocks st i;
       Some (if level \<noteq> 1 then (Inl ENOPROTOOPT, st)
         else case optval of
             None \<Rightarrow> (Inl EINVAL, st)
           | Some v \<Rightarrow>
               if optlen = 0 then (Inl EINVAL, st)
               else if optname = 6 then
                 (if optlen < 4 then (Inl EINVAL, st) else (Inr (), upd_usock i (u\<lparr>us_broadcast := (v \<noteq> 0)\<rparr>) st))
               else if optname \<in> {2, 15, 8, 7, 9, 20, 21, 13} then (Inr (), st)
               else if optname = 4 then (Inl EINVAL, st)
               else (Inl ENOPROTOOPT, st))
     }"

text \<open>The readiness of a datagram socket for the events \<^verbatim>\<open>POLLIN\<close> (1) and \<^verbatim>\<open>POLLOUT\<close> (4).\<close>

definition sock_poll_dgram :: "usock \<Rightarrow> u32 \<Rightarrow> bool" where
  "sock_poll_dgram u events \<longleftrightarrow> events AND 1 \<noteq> 0 \<and> us_rx u \<noteq> [] \<or> events AND 4 \<noteq> 0"

definition sock_close :: "nat \<Rightarrow> net \<Rightarrow> net option" where
  "sock_close i st =
     do {
       u \<leftarrow> usocks st i;
       t \<leftarrow> (if us_bound u then udp_table_remove (mem_ok st) (us_port u) (udp_tbl st) else Some (udp_tbl st));
       Some (st\<lparr>udp_tbl := t, usocks := (usocks st)(i := None)\<rparr>)
     }"

end
