(* ===== verification/Net_Props.thy ===== *)
theory Net_Props
  imports Net_Packets
begin

text \<open>
  Properties of the network stack: what one host sends another receives, the checksums on the way, the cache of
  neighbours, and the sockets with their table.
\<close>

section \<open>Layout\<close>

lemma hton16_hton16 [simp]: "hton16 (hton16 v) = v"
proof (rule bit_word_eqI)
  show "bit (hton16 (hton16 v)) n = bit v n" if "n < LENGTH(16)" for n
    using that by (cases "n < 8") (auto simp: hton16_def bit_simps)
qed

lemma load16_bytes [simp]: "load16 (bytes16 v @ r) 0 = v"
proof (rule bit_word_eqI)
  show "bit (load16 (bytes16 v @ r) 0) n = bit v n" if "n < LENGTH(16)" for n
    using that by (cases "n < 8") (auto simp: load16_def bytes16_def bit_simps)
qed

lemma load32_bytes [simp]: "load32 (bytes32 v @ r) 0 = v"
proof (rule bit_word_eqI)
  show "bit (load32 (bytes32 v @ r) 0) n = bit v n" if "n < LENGTH(32)" for n
    using that by (cases "n < 8"; cases "n < 16"; cases "n < 24") (auto simp: load32_def bytes32_def bit_simps)
qed

lemma load_skip [simp]:
  "length a \<le> i \<Longrightarrow> load16 (a @ d) i = load16 d (i - length a)"
  "length a \<le> i \<Longrightarrow> load32 (a @ d) i = load32 d (i - length a)"
  "0 < i \<Longrightarrow> load16 (x # d) i = load16 d (i - 1)" "0 < i \<Longrightarrow> load32 (x # d) i = load32 d (i - 1)"
  by (simp_all add: load16_def load32_def nth_append nth_Cons' Suc_diff_le)

lemma bytes_length [simp]: "length (bytes16 v) = 2" "length (bytes32 w) = 4"
  by (simp_all add: bytes16_def bytes32_def)

lemma load_bytes_last [simp]: "load16 (bytes16 v) 0 = v" "load32 (bytes32 w) 0 = w"
  using load16_bytes [of v "[]"] load32_bytes [of w "[]"] by simp_all

lemma ipv4_hdr_length [simp]: "length (ipv4_hdr n i p c s d) = 20"
  by (simp add: ipv4_hdr_def)

lemma udp_hdr_length [simp]: "length (udp_hdr s d n c) = 8"
  by (simp add: udp_hdr_def)

text \<open>The fields of a header that was built.\<close>

lemma ipv4_hdr_fields [simp]:
  "(ipv4_hdr n i p c s d @ r) ! 0 = 0x45" "(ipv4_hdr n i p c s d @ r) ! 9 = p" "load16 (ipv4_hdr n i p c s d @ r) 2 = hton16 n"
  "load16 (ipv4_hdr n i p c s d @ r) 6 = hton16 0x4000" "load16 (ipv4_hdr n i p c s d @ r) 10 = c"
  "load32 (ipv4_hdr n i p c s d @ r) 12 = s" "load32 (ipv4_hdr n i p c s d @ r) 16 = d"
  by (simp_all add: ipv4_hdr_def nth_append)

lemma ipv4_hdr_zero: "(ipv4_hdr n i p c s d @ r)[10 := 0, 11 := 0] = ipv4_hdr n i p 0 s d @ r"
  by (simp add: ipv4_hdr_def bytes16_def bytes32_def list_update_append)

lemma udp_hdr_fields [simp]:
  "load16 (udp_hdr s d n c @ r) 0 = hton16 s" "load16 (udp_hdr s d n c @ r) 2 = hton16 d"
  "load16 (udp_hdr s d n c @ r) 4 = hton16 n" "load16 (udp_hdr s d n c @ r) 6 = c"
  by (simp_all add: udp_hdr_def)

lemma udp_hdr_zero: "(udp_hdr s d n c @ r)[6 := 0, 7 := 0] = udp_hdr s d n 0 @ r"
  by (simp add: udp_hdr_def bytes16_def list_update_append)

section \<open>Sending\<close>

text \<open>The hardware address that a packet from \<open>src\<close> to \<open>dst\<close> goes to.\<close>

definition next_hop :: "u32 \<Rightarrow> u32 \<Rightarrow> net \<Rightarrow> u32" where
  "next_hop src dst st = (if net_mask st \<noteq> 0 \<and> dst AND net_mask st \<noteq> src AND net_mask st then gw_ip st else dst)"

definition link_addr :: "u32 \<Rightarrow> u32 \<Rightarrow> net \<Rightarrow> u8 list option" where
  "link_addr src dst st =
     (if is_broadcast_dst dst st then Some eth_broadcast
      else if next_hop src dst st = 0 then None
      else arp_find (next_hop src dst st) (arp_tbl st))"

definition ipv4_packet :: "u16 \<Rightarrow> u8 \<Rightarrow> u32 \<Rightarrow> u32 \<Rightarrow> u8 list \<Rightarrow> u8 list" where
  "ipv4_packet ident proto src dst data =
     (let hdr = (\<lambda>c. ipv4_hdr (20 + of_nat (length data)) ident proto c src dst)
      in hdr (inet_checksum (hdr 0) 20) @ data)"

definition eth_frame :: "u8 list \<Rightarrow> u8 list \<Rightarrow> u16 \<Rightarrow> u8 list \<Rightarrow> u8 list" where
  "eth_frame dst src etype data = dst @ src @ bytes16 (hton16 etype) @ data"

lemma ipv4_packet_length [simp]: "length (ipv4_packet i p s d data) = 20 + length data"
  by (simp add: ipv4_packet_def Let_def)

lemma eth_frame_length [simp]: "length (eth_frame d s e data) = length d + length s + 2 + length data"
  by (simp add: eth_frame_def)

lemma unat_of_nat_u16 [simp]: "n < 65536 \<Longrightarrow> unat (of_nat n :: u16) = n"
  by (simp add: unat_of_nat)

lemma unat_plus_u16 [simp]: "numeral k + n < (65536 :: nat) \<Longrightarrow> unat (numeral k + of_nat n :: u16) = numeral k + n"
  using unat_of_nat_u16 [of "numeral k + n"] by (simp del: unat_of_nat_u16)

lemma eth_send_frame:
  assumes "length dst = 6" "length (our_mac st) = 6" "14 \<le> sk_head s"
  shows "eth_send s dst etype st =
    (let f = eth_frame dst (our_mac st) etype (sk_data s) in virtio_net_tx f (of_nat (length f)) st)"
  using assms by (simp add: eth_send_def skb_push_def eth_frame_def)

lemma ipv4_send_frame:
  assumes addr: "link_addr (our_ip st) dst st = Some mac" and mac: "length mac = 6" "length (our_mac st) = 6"
    and room: "34 \<le> sk_head s"
  shows "ipv4_send_ex s (our_ip st) dst proto st =
    (let f = eth_frame mac (our_mac st) ETHERTYPE_IPV4 (ipv4_packet (ip_id st) proto (our_ip st) dst (sk_data s))
     in virtio_net_tx f (of_nat (length f)) (st\<lparr>ip_id := ip_id st + 1\<rparr>))"
proof -
  let ?p = "s\<lparr>sk_data := ipv4_packet (ip_id st) proto (our_ip st) dst (sk_data s), sk_head := sk_head s - 20\<rparr>"
  let ?st = "st\<lparr>ip_id := ip_id st + 1\<rparr>"
  let ?h = "\<lambda>c. ipv4_hdr (20 + of_nat (length (sk_data s))) (ip_id st) proto c (our_ip st) dst"
  have hdr: "skb_push (?h (inet_checksum (?h 0) 20)) s = Some ?p"
    using room by (simp add: skb_push_def ipv4_packet_def Let_def)
  have src: "(if our_ip st = 0 \<and> our_ip st \<noteq> 0 then our_ip st else our_ip st) = our_ip st"
    by simp
  have "ipv4_send_ex s (our_ip st) dst proto st =
    (if is_broadcast_dst dst st then eth_send ?p eth_broadcast ETHERTYPE_IPV4 ?st
     else if next_hop (our_ip st) dst st = 0 then (False, ?st)
     else case arp_lookup (next_hop (our_ip st) dst st) ?st of
         (None, st2) \<Rightarrow> (False, st2)
       | (Some m, st2) \<Rightarrow> eth_send ?p m ETHERTYPE_IPV4 st2)"
    unfolding ipv4_send_ex_def Let_def src hdr is_broadcast_dst_def next_hop_def by (simp cong: if_cong)
  also have "\<dots> = eth_send ?p mac ETHERTYPE_IPV4 ?st"
    using addr by (simp add: link_addr_def Let_def arp_lookup_def split: if_split_asm)
  also have "\<dots> = (let f = eth_frame mac (our_mac ?st) ETHERTYPE_IPV4 (sk_data ?p) in virtio_net_tx f (of_nat (length f)) ?st)"
    by (rule eth_send_frame) (use mac room in simp_all)
  finally show ?thesis
    by simp
qed

section \<open>Receiving\<close>

lemma eth_recv_frame:
  assumes "length dst = 6" "length src = 6" and s: "sk_data s = eth_frame dst src etype data"
  shows "eth_recv tcp s t st =
    (let s1 = s\<lparr>sk_data := data, sk_head := sk_head s + 14\<rparr>
     in if etype = ETHERTYPE_ARP then map_option (Pair t) (arp_recv s1 st)
        else if etype = ETHERTYPE_IPV4 then ipv4_recv tcp s1 t st else Some (t, st))"
  using assms by (simp add: eth_recv_def eth_frame_def skb_pull_def hton16_hton16)

definition addressed :: "u32 \<Rightarrow> net \<Rightarrow> bool" where
  "addressed dst st \<longleftrightarrow> our_ip st = 0 \<or> dst = our_ip st \<or> dst = 0xFFFFFFFF \<or> dst = bcast_ip st"

lemma inet_checksum_prefix [simp]: "n \<le> length h \<Longrightarrow> inet_checksum (h @ d) n = inet_checksum h n"
  by (simp add: inet_checksum_def)

lemma ipv4_accept_packet:
  assumes "sk_data s = ipv4_packet ident proto src dst data" "length data \<le> 65515"
  shows "ipv4_accept st s =
    (if addressed dst st then Some (proto, s\<lparr>sk_data := data, sk_head := sk_head s + 20, sk_src_ip := src, sk_dst_ip := dst\<rparr>)
     else None)"
proof -
  have ff: "hton16 (hton16 0x4000) = 0x4000"
    by (rule hton16_hton16)
  show ?thesis
    using assms
    by (simp add: ipv4_accept_def ipv4_packet_def Let_def ipv4_hdr_zero hton16_hton16 ff addressed_def skb_pull_def)
qed

section \<open>UDP\<close>

definition udp_packet :: "u32 \<Rightarrow> u32 \<Rightarrow> u16 \<Rightarrow> u16 \<Rightarrow> u8 list \<Rightarrow> u16 \<Rightarrow> u8 list" where
  "udp_packet src dst sport dport data c = udp_hdr sport dport (8 + of_nat (length data)) c @ data"

text \<open>The checksum that a datagram has on the wire before zero is replaced.\<close>

definition wire_checksum :: "u32 \<Rightarrow> u32 \<Rightarrow> u16 \<Rightarrow> u16 \<Rightarrow> u8 list \<Rightarrow> u16" where
  "wire_checksum src dst sport dport data =
     udp_checksum src dst (udp_packet src dst sport dport data 0) (8 + of_nat (length data))"

lemma udp_packet_length [simp]: "length (udp_packet src dst sport dport data c) = 8 + length data"
  by (simp add: udp_packet_def)

lemma udp_send_ok:
  assumes "mem_ok st" "length data \<le> 65527"
  shows "udp_send_ex (our_ip st) dst sport dport data (of_nat (length data)) st =
    (let w = wire_checksum (our_ip st) dst sport dport data
     in Some (ipv4_send_ex
          \<lparr>sk_data = udp_packet (our_ip st) dst sport dport data (if w = 0 then 0xFFFF else w), sk_head = 148, sk_room = 0,
           sk_src_ip = 0, sk_dst_ip = 0, sk_src_port = 0\<rparr> (our_ip st) dst 17 st))"
  using assms
  by (simp add: udp_send_ex_def skb_alloc_def skb_reserve_def skb_put_def Let_def wire_checksum_def udp_packet_def)

lemma udp_recv_packet:
  assumes "sk_data s = udp_packet src dst sport dport data c" "length data \<le> 65507"
    "sk_src_ip s = src" "sk_dst_ip s = dst"
  shows "udp_recv s st =
    (if c = 0 \<or> wire_checksum src dst sport dport data = c
     then socket_deliver_udp dport (s\<lparr>sk_src_port := hton16 sport, sk_head := sk_head s + 8, sk_data := data\<rparr>) st
     else Some st)"
  using assms
  by (simp add: udp_recv_def udp_packet_def Let_def udp_hdr_zero hton16_hton16 skb_pull_def wire_checksum_def)

lemma upd_usock_simps [simp]:
  "our_ip (upd_usock i u st) = our_ip st" "our_mac (upd_usock i u st) = our_mac st" "arp_tbl (upd_usock i u st) = arp_tbl st"
  "udp_tbl (upd_usock i u st) = udp_tbl st" "ip_id (upd_usock i u st) = ip_id st" "tx (upd_usock i u st) = tx st"
  "mem_ok (upd_usock i u st) = mem_ok st" "nic_ok (upd_usock i u st) = nic_ok st"
  "usocks (upd_usock i u st) = (usocks st)(i := Some u)"
  "next_hop src dst (upd_usock i u st) = next_hop src dst st" "is_broadcast_dst dst (upd_usock i u st) = is_broadcast_dst dst st"
  by (simp_all add: upd_usock_def next_hop_def is_broadcast_dst_def)

lemma link_addr_upd [simp]: "link_addr src dst (upd_usock i u st) = link_addr src dst st"
  by (simp add: link_addr_def)

text \<open>The frame of a datagram, and what \<^verbatim>\<open>sendto\<close> does with it on a socket that has a port.\<close>

definition udp_frame :: "u8 list \<Rightarrow> u32 \<Rightarrow> u16 \<Rightarrow> u16 \<Rightarrow> u8 list \<Rightarrow> net \<Rightarrow> u8 list" where
  "udp_frame mac dst sport dport data st =
     (let w = wire_checksum (our_ip st) dst sport dport data
      in eth_frame mac (our_mac st) ETHERTYPE_IPV4 (ipv4_packet (ip_id st) 17 (our_ip st) dst
           (udp_packet (our_ip st) dst sport dport data (if w = 0 then 0xFFFF else w))))"

lemma udp_frame_length [simp]:
  "length (udp_frame mac dst sport dport data st) = length mac + length (our_mac st) + 30 + length data"
  by (simp add: udp_frame_def Let_def)

definition ready_to_send :: "nat \<Rightarrow> usock \<Rightarrow> u32 \<Rightarrow> u8 list \<Rightarrow> net \<Rightarrow> bool" where
  "ready_to_send i u dst mac st \<longleftrightarrow>
     usocks st i = Some u \<and> us_bound u \<and> us_port u \<noteq> 0 \<and> (is_broadcast_dst dst st \<longrightarrow> us_broadcast u) \<and>
     mem_ok st \<and> nic_ok st \<and> link_addr (our_ip st) dst st = Some mac \<and> length mac = 6 \<and> length (our_mac st) = 6"

lemma sendto_frame:
  fixes dport :: u16
  assumes r: "ready_to_send i u dst mac st" and data: "data \<noteq> []" "length data \<le> 65527"
  defines "st1 \<equiv> (upd_usock i (u\<lparr>us_peer_ip := dst, us_peer_port := dport\<rparr>) st)\<lparr>ip_id := ip_id st + 1\<rparr>"
  shows "socket_sendto ports i data dst dport st =
    (case virtio_net_tx (udp_frame mac dst (us_port u) dport data st) (of_nat (42 + length data)) st1 of
       (ok, st2) \<Rightarrow> Some (if ok then Inr (length data) else Inl EIO, st2))"
proof -
  let ?st = "upd_usock i (u\<lparr>us_peer_ip := dst, us_peer_port := dport\<rparr>) st"
  let ?w = "wire_checksum (our_ip st) dst (us_port u) dport data"
  let ?pkt = "udp_packet (our_ip st) dst (us_port u) dport data (if ?w = 0 then 0xFFFF else ?w)"
  let ?s = "\<lparr>sk_data = ?pkt, sk_head = 148, sk_room = 0, sk_src_ip = 0, sk_dst_ip = 0, sk_src_port = 0\<rparr>"
  have "udp_send_ex (our_ip ?st) dst (us_port u) dport data (of_nat (length data)) ?st = Some (ipv4_send_ex ?s (our_ip ?st) dst 17 ?st)"
    using udp_send_ok [of ?st data dst "us_port u" dport] r data(2) by (simp add: ready_to_send_def Let_def)
  moreover have "ipv4_send_ex ?s (our_ip ?st) dst 17 ?st =
      virtio_net_tx (udp_frame mac dst (us_port u) dport data st) (of_nat (42 + length data)) st1"
    using ipv4_send_frame [of ?st dst mac ?s 17] r by (simp add: ready_to_send_def Let_def udp_frame_def st1_def)
  moreover have "udp_auto_bind ports i st = Some (Inr (), st)"
    using r by (subst udp_auto_bind.simps) (simp add: ready_to_send_def)
  ultimately show ?thesis
    using r data(1) by (auto simp: socket_sendto_def Let_def ready_to_send_def split: prod.split)
qed

lemma rx_frame_small:
  assumes "mem_ok st" "length frame \<le> ETH_MAX_FRAME"
  shows "net_rx_frame tcp frame t st = eth_recv tcp (skb_alloc (length frame)\<lparr>sk_data := frame, sk_room := 0\<rparr>) t st"
  using assms by (auto simp: net_rx_frame_def virtio_net_rx_poll_def skb_put_def skb_alloc_def Let_def)

lemma udp_frame_received:
  fixes src :: u32 and sport :: u16
  assumes "mem_ok st" "length mac = 6" "length mac' = 6" "length data \<le> 1472" "addressed dst st"
    and to: "udp_table_find dport (udp_tbl st) = Some j" "usocks st j = Some v" "length (us_rx v) < UDP_RX_QUEUE_MAX"
  defines "w \<equiv> wire_checksum src dst sport dport data"
  shows "net_rx_frame tcp (eth_frame mac mac' ETHERTYPE_IPV4
      (ipv4_packet ident 17 src dst (udp_packet src dst sport dport data (if w = 0 then 0xFFFF else w)))) t st =
    Some (t, if w = 0 then st
          else upd_usock j (v\<lparr>us_rx := us_rx v @ [\<lparr>sk_data = data, sk_head = 170, sk_room = 0, sk_src_ip = src, sk_dst_ip = dst,
                 sk_src_port = hton16 sport\<rparr>]\<rparr>) st)"
proof -
  let ?c = "if w = 0 then 0xFFFF else w"
  let ?ip = "ipv4_packet ident 17 src dst (udp_packet src dst sport dport data ?c)"
  let ?s = "\<lparr>sk_data = ?ip, sk_head = 142, sk_room = 0, sk_src_ip = 0, sk_dst_ip = 0, sk_src_port = 0\<rparr>"
  let ?u = "\<lparr>sk_data = udp_packet src dst sport dport data ?c, sk_head = 162, sk_room = 0, sk_src_ip = src, sk_dst_ip = dst, sk_src_port = 0\<rparr>"
  have "net_rx_frame tcp (eth_frame mac mac' ETHERTYPE_IPV4 ?ip) t st = ipv4_recv tcp ?s t st"
    using assms(1-4) by (simp add: rx_frame_small eth_recv_frame Let_def skb_alloc_def)
  also have "\<dots> = map_option (Pair t) (udp_recv ?u st)"
    using assms(4,5) by (simp add: ipv4_recv_def ipv4_accept_packet)
  also have "\<dots> = map_option (Pair t) (if w = 0 then Some st
      else socket_deliver_udp dport (?u\<lparr>sk_src_port := hton16 sport, sk_head := sk_head ?u + 8, sk_data := data\<rparr>) st)"
    using assms(4) by (simp add: udp_recv_packet w_def)
  finally show ?thesis
    using to by (simp add: socket_deliver_udp_def upd_usock_def)
qed

text \<open>C15: 
  C0: A datagram sent with \<^verbatim>\<open>sendto\<close> on one host arrives on the other: if the sender's socket has a port, the destination
  resolves to a hardware address and the datagram is at most 1472 bytes, exactly one frame is sent, and the host that is addressed,
  with a socket on the port and room in its queue, appends exactly the bytes that were sent, with the address and port of
  the sender. The exception is a datagram whose checksum is 0: it is sent with checksum 0xFFFF, and the receiver drops it.
\<close>

theorem udp_end_to_end:
  assumes r: "ready_to_send i u dst mac st" and data: "data \<noteq> []" "length data \<le> 1472"
    and rt: "mem_ok rt" "addressed dst rt" "udp_table_find dport (udp_tbl rt) = Some j" "usocks rt j = Some v"
      "length (us_rx v) < UDP_RX_QUEUE_MAX"
  defines "p \<equiv> \<lparr>sk_data = data, sk_head = 170, sk_room = 0, sk_src_ip = our_ip st, sk_dst_ip = dst, sk_src_port = hton16 (us_port u)\<rparr>"
  shows "\<exists>st' frame. socket_sendto ports i data dst dport st = Some (Inr (length data), st') \<and> tx st' = tx st @ [frame] \<and>
    net_rx_frame tcp frame t rt =
      Some (t, if wire_checksum (our_ip st) dst (us_port u) dport data = 0 then rt else upd_usock j (v\<lparr>us_rx := us_rx v @ [p]\<rparr>) rt)"
  using sendto_frame [OF r data(1), where ports = ports and dport = dport] r data rt
    udp_frame_received [of rt mac "our_mac st" data dst dport j v, where src = "our_ip st" and sport = "us_port u" and tcp = tcp and t = t and ident = "ip_id st"]
  by (simp add: virtio_net_tx_def ready_to_send_def udp_frame_def Let_def p_def)

text \<open>A host that knows one neighbour and has a socket on port 7.\<close>

definition sample_host :: "u32 \<Rightarrow> u32 \<Rightarrow> u8 list \<Rightarrow> net" where
  "sample_host ip peer mac =
     \<lparr>our_ip = ip, gw_ip = 0, net_mask = 0x00FFFFFF, bcast_ip = (ip AND 0x00FFFFFF) OR 0xFF000000, our_mac = [2, 0, 0, 0, 0, 1], ip_id = 1,
      arp_tbl = the (cache_insert True peer mac None), udp_tbl = snd (the (udp_table_register True 7 0 None)),
      usocks = (\<lambda>i. if i = 0 then Some \<lparr>us_bound = True, us_broadcast = False, us_port = 7, us_peer_ip = 0, us_peer_port = 0, us_rx = []\<rparr> else None),
      tx = [], mem_ok = True, nic_ok = True\<rparr>"

theorem udp_end_to_end_witness:
  "\<exists>st' frame. socket_sendto [] 0 [104, 105] 0x0200000A 7 (sample_host 0x0100000A 0x0200000A [2, 0, 0, 0, 0, 2]) = Some (Inr 2, st') \<and>
     tx st' = [frame] \<and>
     (\<exists>rt. net_rx_frame (\<lambda>_ t st. Some (t, st)) frame () (sample_host 0x0200000A 0x0100000A [2, 0, 0, 0, 0, 1]) = Some ((), rt) \<and>
       map_option (map (\<lambda>p. (sk_data p, sk_src_ip p, sk_src_port p)) \<circ> us_rx) (usocks rt 0) = Some [([104, 105], 0x0100000A, 0x0700)])"
proof -
  let ?st = "sample_host 0x0100000A 0x0200000A [2, 0, 0, 0, 0, 2]" and ?rt = "sample_host 0x0200000A 0x0100000A [2, 0, 0, 0, 0, 1]"
  have addr: "link_addr (our_ip ?st) 0x0200000A ?st = Some [2, 0, 0, 0, 0, 2]"
    by code_simp
  have port: "udp_table_find 7 (udp_tbl ?rt) = Some 0"
    by code_simp
  have no_bcast: "\<not> is_broadcast_dst 0x0200000A ?st" "addressed 0x0200000A ?rt"
    by (simp_all add: is_broadcast_dst_def addressed_def sample_host_def)
  have sum: "wire_checksum 0x0100000A 0x0200000A 7 7 [104, 105] \<noteq> 0"
    by code_simp
  show ?thesis
    using udp_end_to_end [of 0 "the (usocks ?st 0)" "0x0200000A" "[2, 0, 0, 0, 0, 2]" ?st "[104, 105]" ?rt 7 0 "the (usocks ?rt 0)"
        "[]" "\<lambda>_ t st. Some (t, st)" "()"] addr port no_bcast sum
    by (auto simp: sample_host_def hton16_def ready_to_send_def)
qed

section \<open>The length of a datagram\<close>

lemma udp_send_oversize:
  assumes "mem_ok st" "65528 \<le> length data" "length data < 65536"
  shows "udp_send_ex src dst sport dport data (of_nat (length data)) st = None"
proof -
  have "unat (8 + of_nat (length data) :: u16) = (8 + length data) mod 65536"
    using unat_of_nat [of "8 + length data", where 'a = 16] by simp
  also have "\<dots> = length data - 65528"
    using assms mod_if [of "8 + length data" 65536] by simp
  finally show ?thesis
    using assms by (simp add: udp_send_ex_def skb_alloc_def skb_reserve_def skb_put_def Let_def)
qed

text \<open>C37: 
  C0: What \<^verbatim>\<open>sendto\<close> does with a datagram, by its length, on a socket that is ready to send. Up to 1472 bytes the whole
  frame is sent. Up to 65493 bytes the driver refuses the frame and the call fails with \<^verbatim>\<open>EIO\<close>. From 65494 bytes the length
  of the frame wraps at 16 bits: at most 33 bytes of it go out, and the call reports that all of the datagram was sent. From 65528
  bytes on the UDP length wraps, the buffer is too small, and the payload is copied through a null pointer.
\<close>

theorem udp_sendto_by_length:
  assumes r: "ready_to_send i u dst mac st" and data: "data \<noteq> []" "length data < 65536"
  shows "(case socket_sendto ports i data dst dport st of
     None \<Rightarrow> 65528 \<le> length data
   | Some (res, st') \<Rightarrow>
       (length data \<le> 1472 \<or> 65494 \<le> length data) \<and> length data < 65528 \<and> res = Inr (length data) \<and>
         tx st' = tx st @ [take ((42 + length data) mod 65536) (udp_frame mac dst (us_port u) dport data st)] \<or>
       1472 < length data \<and> length data < 65494 \<and> res = Inl EIO \<and> tx st' = tx st)"
proof (cases "length data < 65528")
  case True
  then have n: "unat (of_nat (42 + length data) :: u16) = (42 + length data) mod 65536"
    using unat_of_nat [of "42 + length data", where 'a = 16] by simp
  have m: "(42 + length data) mod 65536 = (if length data < 65494 then 42 + length data else length data - 65494)"
    using True mod_if [of "42 + length data" 65536] by simp
  have nic: "nic_ok st"
    using r by (simp add: ready_to_send_def)
  show ?thesis
    using sendto_frame [OF r data(1), where ports = ports and dport = dport] True nic
    unfolding virtio_net_tx_def n m by auto
next
  case False
  have bind: "udp_auto_bind ports i st = Some (Inr (), st)"
    using r by (subst udp_auto_bind.simps) (simp add: ready_to_send_def)
  have "socket_sendto ports i data dst dport st = None"
    using False data r bind by (auto simp: socket_sendto_def Let_def ready_to_send_def udp_send_oversize)
  then show ?thesis
    using False by simp
qed

theorem udp_sendto_by_length_witness:
  "socket_sendto [] 0 (replicate 65530 1) 0x0200000A 7 (sample_host 0x0100000A 0x0200000A [2, 0, 0, 0, 0, 2]) = None"
proof -
  let ?st = "sample_host 0x0100000A 0x0200000A [2, 0, 0, 0, 0, 2]"
  have "link_addr (our_ip ?st) 0x0200000A ?st = Some [2, 0, 0, 0, 0, 2]"
    by code_simp
  then have r: "ready_to_send 0 (the (usocks ?st 0)) 0x0200000A [2, 0, 0, 0, 0, 2] ?st"
    by (auto simp: ready_to_send_def is_broadcast_dst_def sample_host_def)
  show ?thesis
    using udp_sendto_by_length [OF r, where data = "replicate 65530 1" and dport = 7 and ports = "[]"] by (auto split: option.splits)
qed

end
