(* ===== verification/Net_Inv.thy ===== *)
theory Net_Inv
  imports Net_Props
begin

text \<open>
  The invariant of the ARP cache, the port table and the datagram sockets, and that every operation and every frame keeps it and
  comes to an end: no access to a freed socket, no search of a table that does not end. The hypotheses are the ones that the code
  needs: memory where a socket is closed and where a frame is received, no \<^verbatim>\<open>bind\<close> to port 0 and no datagram of more
  than 65527 bytes. A closing socket without memory is shown to leave a dangling entry.
\<close>

section \<open>What sending leaves alone\<close>

definition kept :: "net \<Rightarrow> udp_table option \<times> (nat \<Rightarrow> usock option) \<times> arp_table option \<times> bool" where
  "kept st = (udp_tbl st, usocks st, arp_tbl st, mem_ok st)"

lemma kept_upd [simp]:
  "kept (st\<lparr>tx := a\<rparr>) = kept st" "kept (st\<lparr>ip_id := b\<rparr>) = kept st"
  by (simp_all add: kept_def)

lemma kept_tx [simp]: "kept (snd (virtio_net_tx d l st)) = kept st"
  by (simp add: virtio_net_tx_def)

lemma kept_eth [simp]: "kept (snd (eth_send s dst e st)) = kept st"
  by (simp add: eth_send_def split: option.split)

lemma kept_arp_send [simp]: "kept (arp_send oper tha tpa dst st) = kept st"
  by (simp add: arp_send_def split: option.split)

lemma kept_arp_lookup: "arp_lookup ip st = (m, st') \<Longrightarrow> kept st' = kept st"
  by (auto simp: arp_lookup_def split: option.splits)

lemma kept_ipv4 [simp]: "kept (snd (ipv4_send_ex s src dst p st)) = kept st"
proof -
  have "kept (snd (case arp_lookup h st1 of (None, st2) \<Rightarrow> (False, st2) | (Some mac, st2) \<Rightarrow> eth_send s1 mac e st2)) = kept st1"
    for h s1 e and st1 :: net
    using kept_arp_lookup [of h st1] by (auto split: prod.split option.split)
  then show ?thesis
    by (simp add: ipv4_send_ex_def Let_def split: option.split)
qed

lemma kept_icmp [simp]: "kept (icmp_recv s st) = kept st"
  by (simp add: icmp_recv_def Let_def ipv4_send_def split: option.split)

lemma kept_udp_send: "udp_send_ex src dst sp dp data len st = Some (ok, st') \<Longrightarrow> kept st' = kept st"
proof -
  assume a: "udp_send_ex src dst sp dp data len st = Some (ok, st')"
  have "kept (snd r) = kept st" if "udp_send_ex src dst sp dp data len st = Some r" for r
    using that by (auto simp: udp_send_ex_def Let_def bind_eq_Some_conv split: if_split_asm)
  from this [OF a] show ?thesis by simp
qed

lemma udp_send_returns: "unat len \<le> 65527 \<Longrightarrow> length data \<le> unat len \<Longrightarrow> \<exists>r. udp_send_ex src dst sp dp data len st = Some r"
proof -
  assume a: "unat len \<le> 65527" and d: "length data \<le> unat len"
  have "unat (8 + len) = 8 + unat len"
    using a by (simp add: unat_word_ariths)
  then show ?thesis
    using d by (cases "mem_ok st") (auto simp: udp_send_ex_def Let_def skb_put_def skb_alloc_def skb_reserve_def)
qed

section \<open>The invariant\<close>

definition socks_inv :: "net \<Rightarrow> bool" where
  "socks_inv st \<longleftrightarrow>
     arp_ok (arp_tbl st) \<and> udp_ok (udp_tbl st) \<and>
     (\<forall>p i. p \<noteq> 0 \<longrightarrow>
        udp_table_find p (udp_tbl st) = Some i \<longleftrightarrow> (\<exists>u. usocks st i = Some u \<and> us_bound u \<and> us_port u = p)) \<and>
     (\<forall>i u. usocks st i = Some u \<longrightarrow> length (us_rx u) \<le> UDP_RX_QUEUE_MAX)"

lemma socks_inv_kept: "kept st' = kept st \<Longrightarrow> socks_inv st' \<longleftrightarrow> socks_inv st"
  by (simp add: kept_def socks_inv_def)

lemma socks_inv_sock:
  assumes "socks_inv st" "usocks st i = Some u" "us_bound u' = us_bound u" "us_port u' = us_port u" "length (us_rx u') \<le> UDP_RX_QUEUE_MAX"
  shows "socks_inv (upd_usock i u' st)"
  using assms by (auto simp: socks_inv_def)

lemma socks_inv_rx: "socks_inv st \<Longrightarrow> usocks st i = Some u \<Longrightarrow> length (us_rx u) \<le> UDP_RX_QUEUE_MAX"
  by (simp add: socks_inv_def)

lemma find_socket:
  assumes "socks_inv st" "p \<noteq> 0" "udp_table_find p (udp_tbl st) = Some i"
  obtains u where "usocks st i = Some u" "us_bound u" "us_port u = p" "length (us_rx u) \<le> UDP_RX_QUEUE_MAX"
  using assms by (auto simp: socks_inv_def)

lemma find_loop_blank: "(\<And>e. hit e \<Longrightarrow> blank e) \<Longrightarrow> find_loop blank hit slots n i = None"
  by (induction n arbitrary: i) auto

lemma udp_find_zero [simp]: "udp_table_find 0 tbl = None"
  by (simp add: udp_table_find_def udp_find_index_def find_loop_blank split: option.split)

section \<open>The operations\<close>

lemma open_inv:
  assumes "socks_inv st" "usocks st i = None"
  shows "socks_inv (snd (socket_open_dgram i st))"
  using assms by (auto simp: socks_inv_def socket_open_dgram_def)

text \<open>Registering a socket that has no port yet.\<close>

lemma register_inv:
  assumes inv: "socks_inv st" and u: "usocks st i = Some u" "\<not> (us_bound u \<and> us_port u \<noteq> 0)" and p: "p \<noteq> 0"
  obtains r t where "udp_table_register (mem_ok st) p i (udp_tbl st) = Some (r, t)"
    "socks_inv (case r of Inl e \<Rightarrow> st\<lparr>udp_tbl := t\<rparr> | Inr _ \<Rightarrow> upd_usock i (u\<lparr>us_port := p, us_bound := True\<rparr>) (st\<lparr>udp_tbl := t\<rparr>))"
proof -
  have ok: "udp_ok (udp_tbl st)"
    using inv by (simp add: socks_inv_def)
  obtain r t where rt: "udp_table_register (mem_ok st) p i (udp_tbl st) = Some (r, t)" "udp_ok t"
    "r = (if udp_table_find p (udp_tbl st) \<noteq> None then Inl EADDRINUSE else if mem_ok st then Inr () else Inl ENOMEM)"
    "\<And>q. q \<noteq> 0 \<Longrightarrow> udp_table_find q t = (if r = Inr () \<and> q = p then Some i else udp_table_find q (udp_tbl st))"
    using udp_register_spec [OF ok p, where ok = "mem_ok st" and s = i] by blast
  have free: "r = Inr () \<Longrightarrow> udp_table_find p (udp_tbl st) = None"
    using rt(3) by (auto split: if_splits)
  have "socks_inv (case r of Inl e \<Rightarrow> st\<lparr>udp_tbl := t\<rparr> | Inr _ \<Rightarrow> upd_usock i (u\<lparr>us_port := p, us_bound := True\<rparr>) (st\<lparr>udp_tbl := t\<rparr>))"
  proof (cases r)
    case (Inl e)
    then show ?thesis
      using inv rt(2,4) by (simp add: socks_inv_def)
  next
    case (Inr x)
    have "udp_table_find q t = Some j \<longleftrightarrow> (\<exists>v. ((usocks st)(i \<mapsto> u\<lparr>us_port := p, us_bound := True\<rparr>)) j = Some v \<and> us_bound v \<and> us_port v = q)"
      if "q \<noteq> 0" for q j
    proof -
      have old: "udp_table_find q (udp_tbl st) = Some j \<longleftrightarrow> (\<exists>v. usocks st j = Some v \<and> us_bound v \<and> us_port v = q)"
        using inv that by (simp add: socks_inv_def)
      show ?thesis
        using old free rt(4) [OF that] u that Inr by (cases "j = i"; cases "q = p") auto
    qed
    then show ?thesis
      using inv rt(2) u(1) Inr by (auto simp: socks_inv_def)
  qed
  then show thesis
    by (rule that [OF rt(1)])
qed

lemma bind_inv:
  assumes "socks_inv st" "usocks st i \<noteq> None" "p \<noteq> 0"
  shows "\<exists>r st'. socket_bind i p st = Some (r, st') \<and> socks_inv st'"
proof -
  obtain u where u: "usocks st i = Some u"
    using assms(2) by auto
  show ?thesis
  proof (cases "us_bound u")
    case True
    then show ?thesis
      using u assms(1) by (simp add: socket_bind_def)
  next
    case False
    obtain r t where "udp_table_register (mem_ok st) p i (udp_tbl st) = Some (r, t)"
      "socks_inv (case r of Inl e \<Rightarrow> st\<lparr>udp_tbl := t\<rparr> | Inr _ \<Rightarrow> upd_usock i (u\<lparr>us_port := p, us_bound := True\<rparr>) (st\<lparr>udp_tbl := t\<rparr>))"
      using register_inv [OF assms(1) u _ assms(3)] False by blast
    then show ?thesis
      using u False by (cases r) (auto simp: socket_bind_def)
  qed
qed

lemma auto_bind_inv:
  assumes "socks_inv st" "usocks st i = Some u"
  shows "\<exists>r st' u'. udp_auto_bind ports i st = Some (r, st') \<and> socks_inv st' \<and> usocks st' i = Some u' \<and> us_rx u' = us_rx u \<and> (\<forall>j. j \<noteq> i \<longrightarrow> usocks st' j = usocks st j)"
  using assms
proof (induction ports arbitrary: st)
  case Nil
  then show ?case
    by (subst udp_auto_bind.simps) simp
next
  case (Cons p ps)
  consider (bound) "us_bound u \<and> us_port u \<noteq> 0" | (low) "\<not> (us_bound u \<and> us_port u \<noteq> 0)" "p < 1024"
    | (attempt) "\<not> (us_bound u \<and> us_port u \<noteq> 0)" "\<not> p < 1024"
    by blast
  then show ?case
  proof cases
    case bound
    then show ?thesis
      using Cons.prems by (subst udp_auto_bind.simps) simp
  next
    case low
    then show ?thesis
      using Cons.prems Cons.IH [OF Cons.prems] by (subst udp_auto_bind.simps) auto
  next
    case attempt
    then have "p \<noteq> 0"
      by auto
    obtain r t where rt: "udp_table_register (mem_ok st) p i (udp_tbl st) = Some (r, t)"
      "socks_inv (case r of Inl e \<Rightarrow> st\<lparr>udp_tbl := t\<rparr> | Inr _ \<Rightarrow> upd_usock i (u\<lparr>us_port := p, us_bound := True\<rparr>) (st\<lparr>udp_tbl := t\<rparr>))"
      using register_inv [OF Cons.prems attempt(1) \<open>p \<noteq> 0\<close>] by blast
    show ?thesis
    proof (cases r)
      case (Inl e)
      then show ?thesis
        using rt Cons.prems attempt Cons.IH [of "st\<lparr>udp_tbl := t\<rparr>"] by (subst udp_auto_bind.simps) auto
    next
      case (Inr x)
      then show ?thesis
        using rt Cons.prems attempt by (subst udp_auto_bind.simps) auto
    qed
  qed
qed

text \<open>Transmitting from a socket, with the new peer in it.\<close>

lemma transmit_inv:
  assumes "socks_inv st" and len: "length buf \<le> 65527"
  shows "\<exists>ok st'. udp_send_ex src dst sp dp buf (of_nat (length buf)) st = Some (ok, st') \<and> socks_inv st' \<and> usocks st' = usocks st"
proof -
  have "unat (of_nat (length buf) :: u16) = length buf"
    using len by simp
  then obtain ok st' where "udp_send_ex src dst sp dp buf (of_nat (length buf)) st = Some (ok, st')"
    using udp_send_returns [of "of_nat (length buf)" buf src dst sp dp st] len by auto
  moreover from kept_udp_send [OF this] have k: "kept st' = kept st" .
  moreover have "socks_inv st'"
    using assms(1) socks_inv_kept [OF k] by blast
  moreover have "usocks st' = usocks st"
    using k by (simp add: kept_def)
  ultimately show ?thesis
    by blast
qed

lemma sendto_inv:
  assumes "socks_inv st" "usocks st i \<noteq> None" "length buf \<le> 65527"
  shows "\<exists>r st'. socket_sendto ports i buf dst dp st = Some (r, st') \<and> socks_inv st'"
proof -
  obtain u where u: "usocks st i = Some u"
    using assms(2) by auto
  consider "buf = []" | "buf \<noteq> []" "is_broadcast_dst dst st \<and> \<not> us_broadcast u" | (go) "buf \<noteq> []" "\<not> (is_broadcast_dst dst st \<and> \<not> us_broadcast u)"
    by blast
  then show ?thesis
  proof cases
    case go
    obtain r st1 u1 where b: "udp_auto_bind ports i st = Some (r, st1)" "socks_inv st1" "usocks st1 i = Some u1" "us_rx u1 = us_rx u"
      using auto_bind_inv [OF assms(1) u] by blast
    let ?st = "upd_usock i (u1\<lparr>us_peer_ip := dst, us_peer_port := dp\<rparr>) st1"
    have inv: "socks_inv ?st"
      by (rule socks_inv_sock [OF b(2,3)]) (use socks_inv_rx [OF b(2,3)] in simp_all)
    obtain ok st3 where "udp_send_ex (our_ip ?st) dst (us_port u1) dp buf (of_nat (length buf)) ?st = Some (ok, st3)" "socks_inv st3"
      using transmit_inv [OF inv assms(3)] by blast
    then show ?thesis
      using go u b by (cases r) (auto simp: socket_sendto_def Let_def)
  qed (use u assms(1) in \<open>simp_all add: socket_sendto_def\<close>)
qed

lemma send_inv:
  assumes "socks_inv st" "usocks st i \<noteq> None" "length buf \<le> 65527"
  shows "\<exists>r st'. socket_send ports i buf st = Some (r, st') \<and> socks_inv st'"
proof -
  obtain u where u: "usocks st i = Some u"
    using assms(2) by auto
  consider "buf = []" | "buf \<noteq> []" "us_peer_ip u = 0 \<or> us_peer_port u = 0" | (go) "buf \<noteq> []" "\<not> (us_peer_ip u = 0 \<or> us_peer_port u = 0)"
    by blast
  then show ?thesis
  proof cases
    case go
    obtain r st1 u1 where b: "udp_auto_bind ports i st = Some (r, st1)" "socks_inv st1" "usocks st1 i = Some u1"
      using auto_bind_inv [OF assms(1) u] by blast
    obtain ok st3 where "udp_send_ex 0 (us_peer_ip u1) (us_port u1) (us_peer_port u1) buf (of_nat (length buf)) st1 = Some (ok, st3)" "socks_inv st3"
      using transmit_inv [OF b(2) assms(3)] by blast
    then show ?thesis
      using go u b by (cases r) (auto simp: socket_send_def udp_send_def)
  qed (use u assms(1) in \<open>auto simp: socket_send_def\<close>)
qed

lemma connect_inv:
  assumes "socks_inv st" "usocks st i \<noteq> None"
  shows "\<exists>st'. socket_connect i dst dp st = Some st' \<and> socks_inv st'"
proof -
  obtain u where u: "usocks st i = Some u"
    using assms(2) by auto
  have "socks_inv (upd_usock i (u\<lparr>us_peer_ip := dst, us_peer_port := dp\<rparr>) st)"
    by (rule socks_inv_sock [OF assms(1) u]) (use socks_inv_rx [OF assms(1) u] in simp_all)
  then show ?thesis
    using u by (simp add: socket_connect_def)
qed

lemma recvfrom_inv:
  assumes "socks_inv st" "usocks st i \<noteq> None"
  shows "\<exists>r st'. socket_recvfrom i len st = Some (r, st') \<and> socks_inv st'"
proof -
  obtain u where u: "usocks st i = Some u"
    using assms(2) by auto
  then show ?thesis
    using socks_inv_rx [OF assms(1) u] assms(1) socks_inv_sock [OF assms(1) u] by (cases "us_rx u") (simp_all add: socket_recvfrom_def)
qed

lemma recv_inv:
  assumes "socks_inv st" "usocks st i \<noteq> None"
  shows "\<exists>r st'. socket_recv i len st = Some (r, st') \<and> socks_inv st'"
proof -
  obtain u where u: "usocks st i = Some u"
    using assms(2) by auto
  then show ?thesis
    using socks_inv_rx [OF assms(1) u] assms(1) socks_inv_sock [OF assms(1) u] by (cases "us_rx u") (simp_all add: socket_recv_def)
qed

lemma option_inv:
  assumes "socks_inv st" "usocks st i \<noteq> None"
  shows "\<exists>r st'. socket_setsockopt i l n v len st = Some (r, st') \<and> socks_inv st'"
proof -
  obtain u where u: "usocks st i = Some u"
    using assms(2) by auto
  then show ?thesis
    using socks_inv_rx [OF assms(1) u] assms(1) socks_inv_sock [OF assms(1) u] by (cases v) (simp_all add: socket_setsockopt_def)
qed

lemma deliver_inv:
  assumes "socks_inv st"
  shows "\<exists>st'. socket_deliver_udp p s st = Some st' \<and> socks_inv st'"
proof (cases "udp_table_find p (udp_tbl st)")
  case (Some i)
  then have "p \<noteq> 0"
    by (metis option.distinct(1) udp_find_zero)
  then obtain u where u: "usocks st i = Some u"
    using find_socket [OF assms _ Some] by blast
  then show ?thesis
    using Some assms socks_inv_sock [OF assms u, of "u\<lparr>us_rx := us_rx u @ [s]\<rparr>"]
    by (simp add: socket_deliver_udp_def upd_usock_def)
qed (use assms in \<open>simp add: socket_deliver_udp_def\<close>)

lemma close_inv:
  assumes inv: "socks_inv st" and u: "usocks st i \<noteq> None" and mem: "mem_ok st"
  shows "\<exists>st'. sock_close i st = Some st' \<and> socks_inv st' \<and> usocks st' i = None"
proof -
  obtain u where u: "usocks st i = Some u"
    using assms(2) by auto
  have old: "udp_table_find q (udp_tbl st) = Some j \<longleftrightarrow> (\<exists>v. usocks st j = Some v \<and> us_bound v \<and> us_port v = q)" if "q \<noteq> 0" for q j
    using inv that by (simp add: socks_inv_def)
  show ?thesis
  proof (cases "us_bound u")
    case True
    have ok: "udp_ok (udp_tbl st)"
      using inv by (simp add: socks_inv_def)
    obtain t where t: "udp_table_remove (mem_ok st) (us_port u) (udp_tbl st) = Some t" "udp_ok t"
      "\<And>q. q \<noteq> 0 \<Longrightarrow> udp_table_find q t = (if q = us_port u then None else udp_table_find q (udp_tbl st))"
      using udp_remove_spec [OF ok, where ok = "mem_ok st" and port = "us_port u"] mem by (metis (full_types))
    have "udp_table_find q t = Some j \<longleftrightarrow> (\<exists>v. ((usocks st)(i := None)) j = Some v \<and> us_bound v \<and> us_port v = q)" if "q \<noteq> 0" for q j
      using old [OF that, of j] old [OF that, of i] t(3) [OF that] u True by (cases "j = i"; cases "q = us_port u") auto
    then show ?thesis
      using t u True inv by (auto simp: sock_close_def socks_inv_def)
  next
    case False
    then show ?thesis
      using u inv old by (auto simp: sock_close_def socks_inv_def)
  qed
qed

section \<open>Frames\<close>

lemma arp_recv_inv:
  assumes inv: "socks_inv st"
  shows "\<exists>st'. arp_recv s st = Some st' \<and> socks_inv st'"
proof -
  have ins: "\<exists>t. cache_insert (mem_ok st) ip mac (arp_tbl st) = Some t \<and> arp_ok t" for ip mac
  proof (cases "ip = 0")
    case False
    then show ?thesis
      using inv arp_insert_spec [of "arp_tbl st" ip "mem_ok st" mac] by (metis socks_inv_def)
  qed (use inv in \<open>simp add: cache_insert_def socks_inv_def\<close>)
  have keep: "socks_inv (arp_send oper tha tpa dst st1)" if "socks_inv st1" for oper tha tpa dst st1
    using that socks_inv_kept [OF kept_arp_send] by blast
  obtain t where t: "cache_insert (mem_ok st) (load32 (sk_data s) 14) (take 6 (drop 8 (sk_data s))) (arp_tbl st) = Some t" "arp_ok t"
    using ins by blast
  have "socks_inv (st\<lparr>arp_tbl := t\<rparr>)"
    using inv t(2) by (simp add: socks_inv_def)
  then show ?thesis
    using inv keep t(1) by (simp add: arp_recv_def Let_def)
qed

lemma udp_recv_inv: "socks_inv st \<Longrightarrow> \<exists>st'. udp_recv s st = Some st' \<and> socks_inv st'"
  using deliver_inv by (simp add: udp_recv_def Let_def)

text \<open>What is asked of TCP: it ends, and leaves the other protocols alone.\<close>

definition tcp_keeps :: "('t \<Rightarrow> bool) \<Rightarrow> (skb \<Rightarrow> 't \<Rightarrow> net \<Rightarrow> ('t \<times> net) option) \<Rightarrow> bool" where
  "tcp_keeps I tcp \<longleftrightarrow> (\<forall>s t st. I t \<longrightarrow> (\<exists>t' st'. tcp s t st = Some (t', st') \<and> I t' \<and> kept st' = kept st))"

lemma frame_inv:
  assumes inv: "socks_inv st" and mem: "mem_ok st" and tcp: "tcp_keeps I tcp" "I t"
  shows "\<exists>t' st'. net_rx_frame tcp frame t st = Some (t', st') \<and> I t' \<and> socks_inv st'"
proof -
  have "\<exists>s. virtio_net_rx_poll frame st = Some s"
    using mem by (simp add: virtio_net_rx_poll_def skb_put_def skb_alloc_def Let_def)
  then obtain s where s: "virtio_net_rx_poll frame st = Some s" ..
  have icmp: "socks_inv (icmp_recv s1 st)" for s1
    using inv socks_inv_kept [OF kept_icmp] by blast
  have tcp': "\<exists>t' st'. tcp s1 t st = Some (t', st') \<and> I t' \<and> socks_inv st'" for s1
    using tcp inv socks_inv_kept unfolding tcp_keeps_def by metis
  have ip: "\<exists>t' st'. ipv4_recv tcp s1 t st = Some (t', st') \<and> I t' \<and> socks_inv st'" for s1
    using icmp inv tcp(2) tcp' udp_recv_inv [OF inv] by (auto simp: ipv4_recv_def split: option.split)
  show ?thesis
    using s ip arp_recv_inv [OF inv] inv tcp(2) by (auto simp: net_rx_frame_def eth_recv_def Let_def)
qed

section \<open>Histories\<close>

text \<open>The calls on sockets, the frames, and memory running out or coming back.\<close>

datatype net_event =
    Sock_Open nat
  | Sock_Bind nat u16
  | Sock_Connect nat u32 u16
  | Sock_Send nat "u8 list" "u16 list"
  | Sock_Sendto nat "u8 list" u32 u16 "u16 list"
  | Sock_Recvfrom nat nat
  | Sock_Recv nat nat
  | Sock_Option nat nat nat "int option" nat
  | Sock_Close nat
  | Net_Config u32 u32 u32
  | Net_Frame "u8 list"
  | Net_Memory bool

fun net_step :: "(skb \<Rightarrow> 't \<Rightarrow> net \<Rightarrow> ('t \<times> net) option) \<Rightarrow> net_event \<Rightarrow> 't \<times> net \<Rightarrow> ('t \<times> net) option" where
  "net_step tcp (Sock_Open i) (t, st) = Some (t, snd (socket_open_dgram i st))"
| "net_step tcp (Sock_Bind i p) (t, st) = map_option (Pair t \<circ> snd) (socket_bind i p st)"
| "net_step tcp (Sock_Connect i dst p) (t, st) = map_option (Pair t) (socket_connect i dst p st)"
| "net_step tcp (Sock_Send i buf ports) (t, st) = map_option (Pair t \<circ> snd) (socket_send ports i buf st)"
| "net_step tcp (Sock_Sendto i buf dst p ports) (t, st) = map_option (Pair t \<circ> snd) (socket_sendto ports i buf dst p st)"
| "net_step tcp (Sock_Recvfrom i len) (t, st) = map_option (Pair t \<circ> snd) (socket_recvfrom i len st)"
| "net_step tcp (Sock_Recv i len) (t, st) = map_option (Pair t \<circ> snd) (socket_recv i len st)"
| "net_step tcp (Sock_Option i l n v len) (t, st) = map_option (Pair t \<circ> snd) (socket_setsockopt i l n v len st)"
| "net_step tcp (Sock_Close i) (t, st) = map_option (Pair t) (sock_close i st)"
| "net_step tcp (Net_Config ip gw m) (t, st) = Some (t, net_set_config ip gw m st)"
| "net_step tcp (Net_Frame f) (t, st) = net_rx_frame tcp f t st"
| "net_step tcp (Net_Memory b) (t, st) = Some (t, st\<lparr>mem_ok := b\<rparr>)"

fun net_allowed :: "net_event \<Rightarrow> net \<Rightarrow> bool" where
  "net_allowed (Sock_Open i) st \<longleftrightarrow> usocks st i = None"
| "net_allowed (Sock_Bind i p) st \<longleftrightarrow> usocks st i \<noteq> None \<and> p \<noteq> 0"
| "net_allowed (Sock_Connect i _ _) st \<longleftrightarrow> usocks st i \<noteq> None"
| "net_allowed (Sock_Send i buf _) st \<longleftrightarrow> usocks st i \<noteq> None \<and> length buf \<le> 65527"
| "net_allowed (Sock_Sendto i buf _ _ _) st \<longleftrightarrow> usocks st i \<noteq> None \<and> length buf \<le> 65527"
| "net_allowed (Sock_Recvfrom i _) st \<longleftrightarrow> usocks st i \<noteq> None"
| "net_allowed (Sock_Recv i _) st \<longleftrightarrow> usocks st i \<noteq> None"
| "net_allowed (Sock_Option i _ _ _ _) st \<longleftrightarrow> usocks st i \<noteq> None"
| "net_allowed (Sock_Close i) st \<longleftrightarrow> usocks st i \<noteq> None \<and> mem_ok st"
| "net_allowed (Net_Frame _) st \<longleftrightarrow> mem_ok st"
| "net_allowed _ st \<longleftrightarrow> True"

text \<open>A history whose events are allowed where they happen, and its end.\<close>

inductive net_history :: "(skb \<Rightarrow> 't \<Rightarrow> net \<Rightarrow> ('t \<times> net) option) \<Rightarrow> 't \<times> net \<Rightarrow> 't \<times> net \<Rightarrow> bool" for tcp a where
  start: "net_history tcp a a"
| event: "net_history tcp a b \<Longrightarrow> net_allowed e (snd b) \<Longrightarrow> net_step tcp e b = Some c \<Longrightarrow> net_history tcp a c"

lemma step_inv:
  assumes inv: "socks_inv st" and e: "net_allowed e st" and tcp: "tcp_keeps I tcp" "I t"
  shows "\<exists>t' st'. net_step tcp e (t, st) = Some (t', st') \<and> I t' \<and> socks_inv st'"
proof (cases e)
  case (Sock_Bind i p)
  then show ?thesis using bind_inv [OF inv, of i p] e tcp(2) by auto
next
  case (Sock_Connect i dst p)
  then show ?thesis using connect_inv [OF inv, of i dst p] e tcp(2) by auto
next
  case (Sock_Send i buf ports)
  then show ?thesis using send_inv [OF inv, of i buf ports] e tcp(2) by auto
next
  case (Sock_Sendto i buf dst p ports)
  then show ?thesis using sendto_inv [OF inv, of i buf ports dst p] e tcp(2) by auto
next
  case (Sock_Recvfrom i len)
  then show ?thesis using recvfrom_inv [OF inv, of i len] e tcp(2) by auto
next
  case (Sock_Recv i len)
  then show ?thesis using recv_inv [OF inv, of i len] e tcp(2) by auto
next
  case (Sock_Option i l n v len)
  then show ?thesis using option_inv [OF inv, of i l n v len] e tcp(2) by auto
next
  case (Sock_Close i)
  then show ?thesis using close_inv [OF inv, of i] e tcp(2) by auto
next
  case (Net_Frame f)
  then show ?thesis using frame_inv [OF inv _ tcp, of f] e by auto
qed (use inv e tcp(2) open_inv [OF inv] in \<open>auto simp: net_set_config_def socks_inv_def\<close>)

lemma history_inv:
  assumes h: "net_history tcp (t0, st0) b" and inv: "socks_inv st0" and tcp: "tcp_keeps I tcp" "I t0"
  shows "I (fst b) \<and> socks_inv (snd b)"
  using h
proof (induction rule: net_history.induct)
  case start
  then show ?case using inv tcp(2) by simp
next
  case (event b e c)
  then show ?case
    using step_inv [of "snd b" e I tcp "fst b"] tcp(1) by auto
qed

lemma arp_ok_None: "arp_ok None" and udp_ok_None: "udp_ok None"
  by (simp_all add: arp_ok_def udp_ok_def art.good_opt_def udp.good_opt_def udp.olds_def udp.entries_def)


definition boot_net :: net where
  "boot_net = \<lparr>our_ip = 0x0100000A, gw_ip = 0, net_mask = 0x00FFFFFF, bcast_ip = 0xFF00000A, our_mac = [2, 0, 0, 0, 0, 1], ip_id = 1,
     arp_tbl = None, udp_tbl = None, usocks = (\<lambda>_. None), tx = [], mem_ok = True, nic_ok = True\<rparr>"


section \<open>A socket closed without memory\<close>

lemma udp_remove_oom: "udp_table_remove False p tbl = Some tbl"
  by (cases tbl) (simp_all add: udp_table_remove_def)

text \<open>C38: 
  C0: A bound socket that is closed while there is no memory for a smaller port table stays in the table although it is freed:
  every datagram that then arrives for its port makes the receive path use the freed socket.
\<close>

theorem close_without_memory_dangles:
  assumes "socks_inv st" "usocks st i = Some u" "us_bound u" "us_port u \<noteq> 0" "\<not> mem_ok st"
  shows "\<exists>st'. sock_close i st = Some st' \<and> udp_table_find (us_port u) (udp_tbl st') = Some i \<and> usocks st' i = None \<and>
    socket_deliver_udp (us_port u) s st' = None"
proof -
  have "udp_table_find (us_port u) (udp_tbl st) = Some i"
    using assms by (auto simp: socks_inv_def)
  then show ?thesis
    using assms by (simp add: sock_close_def udp_remove_oom socket_deliver_udp_def)
qed

theorem close_without_memory_dangles_witness:
  "\<exists>st'. sock_close 0 ((sample_host 0x0100000A 0x0200000A [2, 0, 0, 0, 0, 2])\<lparr>mem_ok := False\<rparr>) = Some st' \<and>
     socket_deliver_udp 7 (skb_alloc 0) st' = None"
proof -
  let ?st = "(sample_host 0x0100000A 0x0200000A [2, 0, 0, 0, 0, 2])\<lparr>mem_ok := False\<rparr>"
  obtain r t where rt: "udp_table_register True 7 0 None = Some (r, t)" "udp_ok t"
    "r = (if udp_table_find 7 None \<noteq> None then Inl EADDRINUSE else if True then Inr () else Inl ENOMEM)"
    "\<And>p. p \<noteq> 0 \<Longrightarrow> udp_table_find p t = (if r = Inr () \<and> p = 7 then Some 0 else udp_table_find p None)"
    using udp_register_spec [OF udp_ok_None, of 7, where ok = True and s = 0] by auto
  obtain a where a: "cache_insert True 0x0200000A [2, 0, 0, 0, 0, 2] None = Some a" "arp_ok a"
    using arp_insert_spec [OF arp_ok_None, of "0x0200000A", where ok = True and mac = "[2, 0, 0, 0, 0, 2]"] by auto
  have "socks_inv ?st"
    using rt a by (auto simp: socks_inv_def sample_host_def udp_table_find_def split: if_splits)
  then show ?thesis
    using close_without_memory_dangles [of ?st 0 "the (usocks ?st 0)" "skb_alloc 0"] by (simp add: sample_host_def) blast
qed

section \<open>Address resolution\<close>

lemma arp_pkt_fields:
  assumes "length sha = 6" "length tha = 6"
  shows "load16 (arp_pkt op sha spa tha tpa) 0 = hton16 1" "load16 (arp_pkt op sha spa tha tpa) 2 = hton16 0x0800"
    "arp_pkt op sha spa tha tpa ! 4 = 6" "arp_pkt op sha spa tha tpa ! 5 = 4" "load16 (arp_pkt op sha spa tha tpa) 6 = hton16 op"
    "take 6 (drop 8 (arp_pkt op sha spa tha tpa)) = sha" "load32 (arp_pkt op sha spa tha tpa) 14 = spa"
    "load32 (arp_pkt op sha spa tha tpa) 24 = tpa" "length (arp_pkt op sha spa tha tpa) = 28"
  using assms by (simp_all add: arp_pkt_def nth_append)

lemma arp_send_ok:
  assumes "mem_ok st" "nic_ok st" "length (our_mac st) = 6" "length tha = 6" "length dst = 6"
  shows "arp_send op tha tpa dst st =
    st\<lparr>tx := tx st @ [eth_frame dst (our_mac st) ETHERTYPE_ARP (arp_pkt op (our_mac st) (our_ip st) tha tpa)]\<rparr>"
  using assms
  by (simp add: arp_send_def skb_put_def skb_reserve_def skb_alloc_def arp_pkt_fields eth_send_frame Let_def virtio_net_tx_def)

lemma arp_frame_received:
  assumes "mem_ok st" "length dst = 6" "length src = 6" "length sha = 6" "length tha = 6" "arp_ok (arp_tbl st)" "spa \<noteq> 0"
  shows "\<exists>a. arp_ok a \<and> (\<forall>ip. ip \<noteq> 0 \<longrightarrow> arp_find ip a = (if ip = spa then Some sha else arp_find ip (arp_tbl st))) \<and>
    net_rx_frame tcp (eth_frame dst src ETHERTYPE_ARP (arp_pkt op sha spa tha tpa)) t st =
      Some (t, if op = 1 \<and> tpa = our_ip st then arp_send 2 sha spa sha (st\<lparr>arp_tbl := a\<rparr>) else st\<lparr>arp_tbl := a\<rparr>)"
proof -
  obtain a where a: "cache_insert True spa sha (arp_tbl st) = Some a" "arp_ok a"
    "\<And>ip. ip \<noteq> 0 \<Longrightarrow> arp_find ip a = (if True \<and> ip = spa then Some sha else arp_find ip (arp_tbl st))"
    using arp_insert_spec [OF assms(6,7), where ok = True and mac = sha] by blast
  have "net_rx_frame tcp (eth_frame dst src ETHERTYPE_ARP (arp_pkt op sha spa tha tpa)) t st =
      Some (t, if op = 1 \<and> tpa = our_ip st then arp_send 2 sha spa sha (st\<lparr>arp_tbl := a\<rparr>) else st\<lparr>arp_tbl := a\<rparr>)"
    using assms(1-5) a(1) by (simp add: rx_frame_small eth_recv_frame arp_recv_def arp_pkt_fields Let_def hton16_hton16)
  then show ?thesis
    using a(2,3) by auto
qed

text \<open>C16: 
  C0: Address resolution works between two hosts: a lookup of an address that is not cached sends one request; the host that has
  the address caches the sender and sends one reply; with the reply the lookup finds that host's hardware address.
\<close>

theorem arp_resolves:
  assumes a: "mem_ok a" "nic_ok a" "length (our_mac a) = 6" "arp_ok (arp_tbl a)" "our_ip a \<noteq> 0"
    and b: "mem_ok b" "nic_ok b" "length (our_mac b) = 6" "arp_ok (arp_tbl b)" "our_ip b \<noteq> 0"
    and miss: "arp_find (our_ip b) (arp_tbl a) = None"
  shows "\<exists>a1 req b1 rep a2. arp_lookup (our_ip b) a = (None, a1) \<and> tx a1 = tx a @ [req] \<and>
    net_rx_frame tcp req t b = Some (t, b1) \<and> tx b1 = tx b @ [rep] \<and> arp_lookup (our_ip a) b1 = (Some (our_mac a), b1) \<and>
    net_rx_frame tcp rep s a1 = Some (s, a2) \<and> arp_lookup (our_ip b) a2 = (Some (our_mac b), a2)"
proof -
  let ?req = "eth_frame eth_broadcast (our_mac a) ETHERTYPE_ARP (arp_pkt 1 (our_mac a) (our_ip a) (replicate 6 0) (our_ip b))"
  let ?rep = "eth_frame (our_mac a) (our_mac b) ETHERTYPE_ARP (arp_pkt 2 (our_mac b) (our_ip b) (our_mac a) (our_ip a))"
  let ?a1 = "a\<lparr>tx := tx a @ [?req]\<rparr>"
  have 1: "arp_lookup (our_ip b) a = (None, ?a1)"
    using a miss by (simp add: arp_lookup_def arp_send_ok)
  obtain tb where tb: "arp_find (our_ip a) tb = Some (our_mac a)"
    "net_rx_frame tcp ?req t b = Some (t, arp_send 2 (our_mac a) (our_ip a) (our_mac a) (b\<lparr>arp_tbl := tb\<rparr>))"
    using arp_frame_received [OF b(1) _ a(3) a(3) _ b(4) a(5), of eth_broadcast "replicate 6 0" tcp 1 "our_ip b" t] a(5)
    by auto
  have 2: "arp_send 2 (our_mac a) (our_ip a) (our_mac a) (b\<lparr>arp_tbl := tb\<rparr>) = b\<lparr>arp_tbl := tb, tx := tx b @ [?rep]\<rparr>"
    using a b by (simp add: arp_send_ok)
  obtain ta where ta: "arp_find (our_ip b) ta = Some (our_mac b)"
    "net_rx_frame tcp ?rep s ?a1 = Some (s, ?a1\<lparr>arp_tbl := ta\<rparr>)"
    using arp_frame_received [of ?a1 "our_mac a" "our_mac b" "our_mac b" "our_mac a" "our_ip b" tcp 2 "our_ip a" s] a b by auto
  show ?thesis
    using 1 2 tb ta by (intro exI [of _ ?a1] exI [of _ ?req] exI [of _ "b\<lparr>arp_tbl := tb, tx := tx b @ [?rep]\<rparr>"] exI [of _ ?rep]
      exI [of _ "?a1\<lparr>arp_tbl := ta\<rparr>"]) (simp add: arp_lookup_def)
qed

theorem arp_resolves_witness:
  "\<exists>a1 req b1 rep a2. arp_lookup 0x0200000A boot_net = (None, a1) \<and> tx a1 = [req] \<and>
    net_rx_frame (\<lambda>_ t st. Some (t, st)) req () (boot_net\<lparr>our_ip := 0x0200000A, our_mac := [2, 0, 0, 0, 0, 2]\<rparr>) = Some ((), b1) \<and> tx b1 = [rep] \<and>
    net_rx_frame (\<lambda>_ t st. Some (t, st)) rep () a1 = Some ((), a2) \<and> arp_lookup 0x0200000A a2 = (Some [2, 0, 0, 0, 0, 2], a2)"
  using arp_resolves [of boot_net "boot_net\<lparr>our_ip := 0x0200000A, our_mac := [2, 0, 0, 0, 0, 2]\<rparr>" "\<lambda>_ t st. Some (t, st)" "()" "()"]
  by (auto simp: boot_net_def arp_ok_def art.good_opt_def arp_find_def)

end
