(* ===== verification/Spec2Isabelle.thy ===== *)
theory Spec2Isabelle
  imports
    Security_Ksec Security_Cred Security_Perm Security_Rights Security_Unveil Security_Pledge
    Security_Process Pipe Tty Pty Wait_Queue Epoll_Wake Eventfd Futex
    Chaselev Sched Sched_Inv Sched_Props Free_List Buddy Buddy_Props Buddy_Init
    Vma Vma_Props Sha256 Chacha20 Kcsprng
    Probe_Table Net_Tables Net_Packets Net_Props Net_Inv
begin

text \<open>
  \<^bold>\<open>MakaOS: a verification library for the kernel.\<close>

  MakaOS is a hobby operating system for x86-64 written in C. This library models parts of its kernel
  (all paths are below \<^verbatim>\<open>src/kernel\<close>) as executable definitions, one theory per component, and proves
  what makes each of them correct. Where the code does not do what it means to, the theorem states
  what it does instead, on a concrete run or for all inputs.

  \<^bold>\<open>Conventions.\<close> Theory \<open>MakaOS_Prelude\<close> holds the machine types (\<open>u8\<close> to \<open>u64\<close>, words that wrap),
  error numbers, bit masks and shared list lemmas. A C struct is a record with the names of its
  fields, an error return is \<open>Inl\<close> of an error number, a null pointer is \<open>None\<close>, and a result \<open>None\<close> of an
  operation in the scheduler and the allocator is a kernel panic or a full queue, as each theory says. Code under a
  lock is one step. Where code runs without a lock, each access to shared memory is a step of its own
  and the theorems quantify over all interleavings (\<open>Chaselev\<close>, \<open>Wait_Queue\<close>, \<open>Eventfd\<close>, \<open>Security_Ksec\<close>)
  under sequentially consistent memory.

  \<^bold>\<open>Security\<close> (\<^verbatim>\<open>security/\<close> and the handlers in \<^verbatim>\<open>syscall/syscall.c\<close>).
  \<^item> \<open>Security_Cred\<close>: credentials and the set*id calls (\<^verbatim>\<open>cred.h\<close>). No sequence of calls gives an
    unprivileged process an id it did not hold. The policy agent's verdict is a parameter.
  \<^item> \<open>Security_Ksec\<close>: the channel to the policy agent (\<^verbatim>\<open>ksec.c\<close>), with requesters and the reader thread
    interleaved. Responses match requests if requests are serialised, and can be mixed up if not.
  \<^item> \<open>Security_Perm\<close>: access control lists and mode bits (\<^verbatim>\<open>acl.h\<close>, \<^verbatim>\<open>perm.c\<close>), equivalent to the POSIX rule.
  \<^item> \<open>Security_Rights\<close>: descriptor rights (\<^verbatim>\<open>rights.h\<close>); sending attenuates, restricting is monotone except
    for the empty mask.
  \<^item> \<open>Security_Unveil\<close>, \<open>Security_Pledge\<close>: visible paths and system call groups (\<^verbatim>\<open>unveil.c\<close>, \<^verbatim>\<open>pledge.c\<close>), with
    the gate of \<^verbatim>\<open>syscall_dispatch\<close>; the handlers are parameters.
  \<^item> \<open>Security_Process\<close> composes them: what fork, threads, exec and spawn do to the security state.

  \<^bold>\<open>Character streams.\<close> \<open>Fifo_Spec\<close> is the interface of a bounded queue, a locale interpreted on
  the rings of pipes, terminals and pseudo-terminals.
  \<^item> \<open>Pipe\<close> (\<^verbatim>\<open>fs/pipe.c\<close>): order, round trip, and a deadlock of reader and writer.
  \<^item> \<open>Tty\<close> (\<^verbatim>\<open>drivers/tty/tty.c\<close>): the line discipline refines a line editor.
  \<^item> \<open>Pty\<close> (\<^verbatim>\<open>drivers/tty/pty.c\<close>) uses \<open>Tty\<close> for its slave side: flow control loses nothing.

  \<^bold>\<open>Waiting.\<close>
  \<^item> \<open>Wait_Queue\<close> (\<^verbatim>\<open>wait.c\<close>, \<^verbatim>\<open>include/wait.h\<close>): \<^verbatim>\<open>WAIT_EVENT\<close> against any number of notifiers, without locks.
  \<^item> \<open>Epoll_Wake\<close>: notification through epoll files; fuel 6 suffices, since the code stops cascading
    at depth 5.
  \<^item> \<open>Eventfd\<close> (\<^verbatim>\<open>io/eventfd.c\<close>): the counter is exact under compare-and-swap races.
  \<^item> \<open>Futex\<close> (\<^verbatim>\<open>proc/futex.c\<close>): who is woken, and that no wake is lost.

  \<^bold>\<open>Scheduling.\<close>
  \<^item> \<open>Chaselev\<close> (\<^verbatim>\<open>proc/chaselev.h\<close>): the work-stealing deque, access by access.
  \<^item> \<open>Sched\<close> (\<^verbatim>\<open>proc/sched.c\<close>): per-CPU multi-level queues, tick, boost, switch, sleep, wake and stealing. A
    deque is a list here, which \<open>Chaselev\<close> justifies for one owner. Contexts, timers and locks are
    not modelled; a random victim comes from the time stamp counter, a parameter.
  \<^item> \<open>Sched_Inv\<close>: on one CPU each task is in exactly one place. \<open>Sched_Props\<close>: stealing and boosting
    conserve tasks; starvation at the lowest level; the window in \<^verbatim>\<open>sched_sleep\<close>.

  \<^bold>\<open>Physical memory\<close> (\<^verbatim>\<open>mm/pmm.c\<close>).
  \<^item> \<open>Free_List\<close>: the doubly linked lists inside free frames implement the interface \<open>block_lists\<close>.
  \<^item> \<open>Buddy\<close>: splitting and merging driven by one bit per pair of buddies, over that interface. Addresses
    are frame numbers, since all are page-aligned. \<open>Buddy_Props\<close>: blocks in use never overlap,
    the free lists depend only on what is in use, references and pins.
  \<^item> \<open>Buddy_Init\<close>: from the firmware's memory map to the first free lists.

  \<^bold>\<open>Address spaces\<close> (\<^verbatim>\<open>mm/mm.c\<close>).
  \<^item> \<open>Vma\<close>: the sorted list of areas of a process, with insertion, trimming, splitting, cloning and the search for
    a gap. The search is a partial function, so that its end is a theorem. Areas name what backs
    them, and the counts of references to files and shared objects are part of the state.
  \<^item> \<open>Vma_Props\<close>: the invariant of list and counts; what each address shows after a removal and in a clone; the
    search ends, finds a gap below the base if there is one, and never looks above it.

  \<^bold>\<open>Cryptography\<close> (\<^verbatim>\<open>crypto/\<close>).
  \<^item> \<open>Sha256\<close>: the streaming hash computes the digest of FIPS 180-4 however the message is cut. The reference
    definition is written from the standard; a test vector is evaluated.
  \<^item> \<open>Chacha20\<close>: encryption is its own inverse, and the block function is a bijection before the final addition.
  \<^item> \<open>Kcsprng\<close>: what a read returns and how the pool is replaced; the staging of interrupt samples.
    Hardware randomness and clocks are arguments.

  \<^bold>\<open>Network\<close> (\<^verbatim>\<open>net/\<close>).
  \<^item> \<open>Probe_Table\<close>: the interface of a hash table with linear probing that is replaced as a whole on each change. Its
    locales hold the laws of finding, inserting, growing and removing. The insertion loop has no bound
    in the code and is a partial function here; that it ends is proved.
  \<^item> \<open>Net_Tables\<close>: the UDP port table (\<^verbatim>\<open>socket.c\<close>) and the ARP cache (\<^verbatim>\<open>arp.c\<close>) as instances of it.
  \<^item> \<open>Net_Packets\<close>: packet buffers, Ethernet, ARP, IPv4, ICMP echo, UDP and the datagram sockets, from \<^verbatim>\<open>sendto\<close> to the
    frame and from the frame to \<^verbatim>\<open>recvfrom\<close>. Packets are byte lists in the layout of the packed structs.
  \<^item> \<open>Net_Props\<close>: a datagram crosses two hosts unchanged; what happens by its length. \<open>Net_Inv\<close>: the
    invariant of tables and sockets in any history, address resolution, and a close without memory.

  \<^bold>\<open>Not modelled.\<close> Device drivers, interrupt entry, page tables and context switches, because they are effects on hardware;
  the boot loader and user programs, because they are not part of the kernel. The slab allocator, file systems, TCP,
  local sockets, signals and timers are parts that the library does not cover yet.
  Within covered parts: terminal and pty ioctls, \<^verbatim>\<open>ksec_notify\<close>, \<^verbatim>\<open>wait_queue_wake_one\<close>, the pid
  tables of the scheduler.
\<close>

end
